(* ===== verification/Prelude.thy ===== *)
theory Prelude
  imports Main "HOL-Library.Word" "HOL-Library.Monad_Syntax"
begin

text \<open>
  Shared vocabulary of the development: the C integer types of \<^verbatim>\<open>libs/include/types.h\<close> as
  words, byte-addressed memory with little-endian accesses, the search loop
  \<^verbatim>\<open>for (i = lo; i < hi; ++i) if (P(i)) goto found;\<close> that most of the kernel's tables are
  scanned with, and the word lemmas about pages that several components use.
\<close>

unbundle bit_operations_syntax

section \<open>C integer types\<close>

type_synonym u8 = "8 word"
type_synonym u16 = "16 word"
type_synonym u32 = "32 word"
type_synonym u64 = "64 word"

text \<open>Pointers are 64-bit byte addresses; arithmetic on \<^verbatim>\<open>void *\<close> counts bytes.\<close>

type_synonym mem = "u64 \<Rightarrow> u8"

named_theorems mem_simps \<open>reading memory back after a write\<close>

text \<open>What a C expression with no defined value is in the model.\<close>

datatype c_error = OutOfBounds | DivByZero

definition PAGE_SIZE :: u64 where
  "PAGE_SIZE = 4096"

definition CEILING :: "u64 \<Rightarrow> u64 \<Rightarrow> u64" where
  "CEILING a b = (a + b - 1) div b"

section \<open>Search loops\<close>

function scan :: "(nat \<Rightarrow> bool) \<Rightarrow> nat \<Rightarrow> nat \<Rightarrow> nat option" where
  "scan P i n = (if i < n then (if P i then Some i else scan P (Suc i) n) else None)"
  by pat_completeness auto
termination
  by (relation "measure (\<lambda>(P, i, n). n - i)") auto

declare scan.simps [simp del]

lemma scan_Some_iff:
  "scan P i n = Some k \<longleftrightarrow> i \<le> k \<and> k < n \<and> P k \<and> (\<forall>j. i \<le> j \<and> j < k \<longrightarrow> \<not> P j)"
proof (induction P i n rule: scan.induct)
  case (1 P i n)
  show ?case
  proof (cases "i < n \<and> \<not> P i")
    case True
    then have "scan P i n = scan P (Suc i) n"
      by (simp add: scan.simps [of P i n])
    with True 1 show ?thesis
      by (auto simp: Suc_le_eq le_less [of i])
  next
    case False
    then show ?thesis
      by (auto simp: scan.simps [of P i n] not_less order_le_less)
  qed
qed

lemma scan_None_iff: "scan P i n = None \<longleftrightarrow> (\<forall>j. i \<le> j \<and> j < n \<longrightarrow> \<not> P j)"
proof (induction P i n rule: scan.induct)
  case (1 P i n)
  then show ?case
    by (subst scan.simps) (auto simp: Suc_le_eq le_less [of i])
qed

lemma scan_zeroD:
  assumes "scan P 0 n = Some k"
  shows "k < n" "P k" "j < k \<Longrightarrow> \<not> P j"
  using assms by (auto simp: scan_Some_iff)

lemma scan_head: "0 < n \<Longrightarrow> P 0 \<Longrightarrow> scan P 0 n = Some 0"
  by (simp add: scan_Some_iff)

lemma scan_mono_None: "scan P 0 n = None \<Longrightarrow> m \<le> n \<Longrightarrow> scan P 0 m = None"
  by (simp add: scan_None_iff)

lemma scan_step:
  "i < n \<Longrightarrow> scan P i n = (if P i then Some i else scan P (Suc i) n)"
  by (subst scan.simps) simp

lemma scan_empty [simp]: "scan P n n = None"
  by (subst scan.simps) simp

lemma scan_append:
  "scan P i (i + a + b) =
     (case scan P i (i + a) of Some k \<Rightarrow> Some k | None \<Rightarrow> scan P (i + a) (i + a + b))"
proof (induction a arbitrary: i)
  case 0
  then show ?case by simp
next
  case (Suc a)
  from Suc [of "Suc i"] show ?case by (simp add: scan_step split: option.split)
qed

section \<open>Words and naturals\<close>

lemma unat_of_nat_small [simp]: "n < 2 ^ 64 \<Longrightarrow> unat (of_nat n :: u64) = n"
  by (simp add: unat_of_nat)

lemma unat_u64_less: "unat (a :: u64) < 2 ^ 64"
  using unsigned_less [of a] by simp

lemma unat_minus_one_u64 [simp]: "unat (- 1 :: u64) = 2 ^ 64 - 1"
  by (simp add: unsigned_minus_1_eq_mask mask_eq_exp_minus_1)

section \<open>Little-endian memory accesses\<close>

fun load_le :: "mem \<Rightarrow> u64 \<Rightarrow> nat \<Rightarrow> 'a::len word" where
  "load_le m a 0 = 0"
| "load_le m a (Suc k) = ucast (m a) OR push_bit 8 (load_le m (a + 1) k)"

definition store_le :: "mem \<Rightarrow> u64 \<Rightarrow> nat \<Rightarrow> 'a::len word \<Rightarrow> mem" where
  "store_le m a n v =
     (\<lambda>x. if unat (x - a) < n then ucast (drop_bit (8 * unat (x - a)) v) else m x)"

abbreviation load64 :: "mem \<Rightarrow> u64 \<Rightarrow> u64" where
  "load64 m a \<equiv> load_le m a 8"

abbreviation store64 :: "mem \<Rightarrow> u64 \<Rightarrow> u64 \<Rightarrow> mem" where
  "store64 m a v \<equiv> store_le m a 8 v"

lemma bit_load_le:
  "bit (load_le m a k :: 'a::len word) n \<longleftrightarrow>
     n < LENGTH('a) \<and> n < 8 * k \<and> bit (m (a + of_nat (n div 8))) (n mod 8)"
proof (induction k arbitrary: a n)
  case 0
  then show ?case by simp
next
  case (Suc k)
  show ?case
  proof (cases "n < 8")
    case True
    then show ?thesis
      by (auto simp: bit_or_iff bit_push_bit_iff bit_ucast_iff dest: bit_imp_le_length)
  next
    case False
    then obtain n' where n': "n = n' + 8"
      using le_Suc_ex [of 8 n] by (auto simp: add.commute)
    have "bit (m a) n = False"
      using False by (auto dest: bit_imp_le_length)
    moreover have "a + of_nat ((n' + 8) div 8) = a + 1 + of_nat (n' div 8)"
      by (simp add: div_add_self2)
    ultimately show ?thesis
      by (auto simp: n' Suc bit_or_iff bit_push_bit_iff bit_ucast_iff add.assoc
          simp del: div_add_self2)
  qed
qed

lemma load_le_cong:
  assumes "\<And>i. i < k \<Longrightarrow> m (a + of_nat i) = m' (a + of_nat i)"
  shows "load_le m a k = (load_le m' a k :: 'a::len word)"
  using assms
  by (intro bit_word_eqI) (auto simp: bit_load_le less_mult_imp_div_less mult.commute)

lemma load_store_le_same [mem_simps]:
  assumes "LENGTH('a) = 8 * k" and "k \<le> 2 ^ 63"
  shows "load_le (store_le m a k (v :: 'a::len word)) a k = v"
proof (rule bit_word_eqI)
  fix n
  assume n: "n < LENGTH('a)"
  then have d: "n div 8 < k"
    using assms(1) by (simp add: less_mult_imp_div_less mult.commute)
  with assms(2) have "unat (of_nat (n div 8) :: u64) = n div 8"
    by (intro unat_of_nat_small) simp
  with n d assms(1) show "bit (load_le (store_le m a k v) a k :: 'a word) n = bit v n"
    by (auto simp: bit_load_le store_le_def bit_ucast_iff bit_drop_bit_eq)
qed

lemma load64_store64_same [simp]: "load64 (store64 m a v) a = v"
  by (rule load_store_le_same) simp_all

section \<open>Pages\<close>

lemma in_range_iff:
  assumes "unat (a :: u64) + n \<le> 2 ^ 64"
  shows "unat (x - a) < n \<longleftrightarrow> unat a \<le> unat x \<and> unat x < unat a + n"
proof (cases "a \<le> x")
  case True
  then show ?thesis
    by (auto simp: unat_sub word_le_nat_alt)
next
  case False
  then have "unat (x - a) = 2 ^ 64 - (unat a - unat x)"
    by (simp add: unat_sub_if_size word_size word_le_nat_alt)
  with False assms show ?thesis
    by (simp add: word_le_nat_alt)
qed

definition page_aligned :: "u64 \<Rightarrow> bool" where
  "page_aligned a \<longleftrightarrow> a mod PAGE_SIZE = 0"

definition ADDR_MASK :: u64 where
  "ADDR_MASK = 0x000ffffffffff000"

lemma page_aligned_unat: "page_aligned a \<longleftrightarrow> 4096 dvd unat a"
  by (simp add: page_aligned_def PAGE_SIZE_def dvd_eq_mod_eq_0 unat_mod
      flip: unat_eq_0)

lemma page_room: "page_aligned a \<Longrightarrow> unat a + 4096 \<le> 2 ^ 64"
proof -
  assume "page_aligned a"
  then obtain k where k: "unat a = 4096 * k"
    by (auto simp: page_aligned_unat)
  moreover have "unat a < 2 ^ 64"
    by (rule unat_u64_less)
  ultimately show ?thesis by simp
qed

lemma unat_page_off:
  assumes "page_aligned b" and "k < 4096"
  shows "unat (b + of_nat k) = unat b + k"
proof -
  have "unat (of_nat k :: u64) = k"
    using assms(2) by (intro unat_of_nat_small) simp
  then show ?thesis
    using page_room [OF assms(1)] assms(2) by (simp add: unat_word_ariths)
qed

lemma page_aligned_0 [simp]: "page_aligned 0"
  by (simp add: page_aligned_def)

lemma pages_disjoint:
  assumes "page_aligned a" and "page_aligned b" and "a \<noteq> b"
  shows "unat a + 4096 \<le> unat b \<or> unat b + 4096 \<le> unat a"
proof -
  obtain i j where "unat a = 4096 * i" and "unat b = 4096 * j"
    using assms(1,2) by (auto simp: page_aligned_unat elim!: dvdE)
  moreover have "unat a \<noteq> unat b"
    using assms(3) by (simp add: word_unat_eq_iff)
  ultimately show ?thesis
    by (cases "i < j") auto
qed

text \<open>Physical frame addresses: page aligned and below \<open>2 ^ 52\<close>, the bits of \<^verbatim>\<open>ADDR_MASK\<close>.\<close>

lemma mod_page_size: "a mod PAGE_SIZE = take_bit 12 a"
  by (simp add: PAGE_SIZE_def take_bit_eq_mod)

lemma ADDR_MASK_alt: "ADDR_MASK = push_bit 12 (mask 40)"
  by (simp add: ADDR_MASK_def mask_numeral)

lemma bit_ADDR_MASK: "bit ADDR_MASK n \<longleftrightarrow> 12 \<le> n \<and> n < 52"
  by (auto simp: ADDR_MASK_alt bit_push_bit_iff bit_mask_iff)

lemma frame_aligned: "p AND ADDR_MASK = p \<Longrightarrow> page_aligned p"
proof -
  assume "p AND ADDR_MASK = p"
  then have low: "bit p n \<Longrightarrow> 12 \<le> n" for n
    by (metis bit_and_iff bit_ADDR_MASK)
  have "take_bit 12 p = 0"
    by (intro bit_word_eqI) (auto simp: bit_take_bit_iff dest: low)
  then show ?thesis by (simp add: page_aligned_def mod_page_size)
qed

lemma masked_frame [simp]: "(a AND ADDR_MASK) AND ADDR_MASK = a AND ADDR_MASK"
  by (simp add: and.assoc)

section \<open>Regions of memory\<close>

text \<open>A region is an address with a number of bytes.\<close>

definition outside :: "(u64 \<times> nat) list \<Rightarrow> u64 \<Rightarrow> bool" where
  "outside rs x \<longleftrightarrow> (\<forall>(a, n) \<in> set rs. n \<le> unat (x - a))"

definition apart :: "u64 \<times> nat \<Rightarrow> u64 \<times> nat \<Rightarrow> bool" where
  "apart r q \<longleftrightarrow> (\<forall>x. unat (x - fst r) < snd r \<longrightarrow> snd q \<le> unat (x - fst q))"

lemma outside_simps [simp]:
  "outside [] x" "outside ((a, n) # rs) x \<longleftrightarrow> n \<le> unat (x - a) \<and> outside rs x"
  by (simp_all add: outside_def)

lemma outside_subset: "set rs \<subseteq> set qs \<Longrightarrow> outside qs x \<Longrightarrow> outside rs x"
  by (auto simp: outside_def)

lemma apart_sym: "apart r q \<longleftrightarrow> apart q r"
  by (force simp: apart_def not_le [symmetric])

lemma apartD: "apart (a, n) (b, k) \<Longrightarrow> j < n \<Longrightarrow> j < 2 ^ 64 \<Longrightarrow> k \<le> unat (a + of_nat j - b)"
  using unat_of_nat_small [of j] by (auto simp: apart_def)

lemma apart_ranges:
  assumes "unat a + n \<le> unat b" and "unat b + k \<le> 2 ^ 64"
  shows "apart (a, n) (b, k)"
proof -
  have "unat a + n \<le> 2 ^ 64" using assms by simp
  from in_range_iff [OF this] in_range_iff [OF assms(2)] assms(1) show ?thesis
    by (auto simp: apart_def not_less [symmetric] simp del: not_less)
qed

end
