(* ===== verification/LibC.thy ===== *)
theory LibC
  imports Prelude
begin

text \<open>
  The freestanding C library of the kernel (\<^verbatim>\<open>libs/libc\<close>): block operations, strings, wide
  character conversion and number printing, over byte memory. A loop that runs until it meets
  a terminator is a \<^theory_text>\<open>partial_function (option)\<close> with \<^term>\<open>None\<close> for a run that
  never ends; the lemmas show that it ends on terminated strings.
\<close>

section \<open>Block operations\<close>

primrec memset_loop :: "mem \<Rightarrow> u64 \<Rightarrow> u8 \<Rightarrow> nat \<Rightarrow> mem" where
  "memset_loop m p c 0 = m"
| "memset_loop m p c (Suc n) = memset_loop (m(p := c)) (p + 1) c n"

definition memset :: "mem \<Rightarrow> u64 \<Rightarrow> u32 \<Rightarrow> u64 \<Rightarrow> mem \<times> u64" where
  "memset m ptr v sz = (memset_loop m ptr (ucast v) (unat sz), ptr)"

primrec memcpy_loop :: "mem \<Rightarrow> u64 \<Rightarrow> u64 \<Rightarrow> nat \<Rightarrow> mem" where
  "memcpy_loop m d s 0 = m"
| "memcpy_loop m d s (Suc n) = memcpy_loop (m(d := m s)) (d + 1) (s + 1) n"

definition memcpy :: "mem \<Rightarrow> u64 \<Rightarrow> u64 \<Rightarrow> u64 \<Rightarrow> mem \<times> u64" where
  "memcpy m dest src sz = (memcpy_loop m dest src (unat sz), dest)"

text \<open>The loop of \<^verbatim>\<open>memcmp\<close> decrements \<^verbatim>\<open>len\<close> and leaves both pointers where they are.\<close>

primrec memcmp_loop :: "mem \<Rightarrow> u64 \<Rightarrow> u64 \<Rightarrow> nat \<Rightarrow> int" where
  "memcmp_loop m c1 c2 0 = 0"
| "memcmp_loop m c1 c2 (Suc n) =
     (if m c1 \<noteq> m c2 then (if m c1 > m c2 then 1 else - 1) else memcmp_loop m c1 c2 n)"

definition memcmp :: "mem \<Rightarrow> u64 \<Rightarrow> u64 \<Rightarrow> u64 \<Rightarrow> int" where
  "memcmp m ptr1 ptr2 len = memcmp_loop m ptr1 ptr2 (unat len)"

section \<open>Strings\<close>

text \<open>A plain \<^verbatim>\<open>char\<close> is signed on this target, so the ordering compares signed bytes.\<close>

partial_function (option) strcmp :: "mem \<Rightarrow> u64 \<Rightarrow> u64 \<Rightarrow> int option" where
  "strcmp m str1 str2 =
     (if m str1 = m str2
      then (if m str1 = 0 then Some 0 else strcmp m (str1 + 1) (str2 + 1))
      else Some (if sint (m str1) > sint (m str2) then 1 else - 1))"

partial_function (option) strcpy :: "mem \<Rightarrow> u64 \<Rightarrow> u64 \<Rightarrow> (mem \<times> u64) option" where
  "strcpy m dest src =
     (let m' = m(dest := m src)
      in if m' dest \<noteq> 0 then strcpy m' (dest + 1) (src + 1) else Some (m', dest))"

text \<open>Wide characters are 16-bit; \<^verbatim>\<open>(char) *src\<close> keeps the low byte.\<close>

primrec wcstombs_loop :: "mem \<Rightarrow> u64 \<Rightarrow> u64 \<Rightarrow> nat \<Rightarrow> u64 \<Rightarrow> mem \<times> u64" where
  "wcstombs_loop m dest src 0 count = (m, - 1)"
| "wcstombs_loop m dest src (Suc mx) count =
     (let c = ucast (load_le m src 2 :: u16); m' = m(dest := c)
      in if c = 0 then (m', count) else wcstombs_loop m' (dest + 1) (src + 2) mx (count + 1))"

definition wcstombs :: "mem \<Rightarrow> u64 \<Rightarrow> u64 \<Rightarrow> u64 \<Rightarrow> mem \<times> u64" where
  "wcstombs m dest src mx = wcstombs_loop m dest src (unat mx) 0"

primrec wcatomba_loop :: "mem \<Rightarrow> u64 \<Rightarrow> u64 \<Rightarrow> nat \<Rightarrow> mem" where
  "wcatomba_loop m dest src 0 = m"
| "wcatomba_loop m dest src (Suc n) =
     wcatomba_loop (m(dest := ucast (load_le m src 2 :: u16))) (dest + 1) (src + 2) n"

definition wcatomba :: "mem \<Rightarrow> u64 \<Rightarrow> u64 \<Rightarrow> u64 \<Rightarrow> mem" where
  "wcatomba m dest src count = wcatomba_loop m dest src (unat count)"

section \<open>Number printing\<close>

text \<open>
  \<^verbatim>\<open>getdigits\<close> divides until the number is zero: base 0 traps, base 1 never ends
  (\<^term>\<open>None\<close>). \<^verbatim>\<open>itoa\<close> indexes a table of 36 digit characters.
\<close>

partial_function (option) getdigits_loop :: "u64 \<Rightarrow> u32 \<Rightarrow> u32 \<Rightarrow> (c_error + u32) option" where
  "getdigits_loop num base counter =
     (if num = 0 then Some (Inr counter)
      else if base = 0 then Some (Inl DivByZero)
      else getdigits_loop (num div ucast base) base (counter + 1))"

definition getdigits :: "u64 \<Rightarrow> u32 \<Rightarrow> (c_error + u32) option" where
  "getdigits num base = (if num = 0 then Some (Inr 1) else getdigits_loop num base 0)"

definition digit :: "u8 list" where
  "digit = [48, 49, 50, 51, 52, 53, 54, 55, 56, 57,
            65, 66, 67, 68, 69, 70, 71, 72, 73, 74, 75, 76, 77, 78, 79, 80, 81, 82,
            83, 84, 85, 86, 87, 88, 89, 90]"

primrec itoa_loop :: "mem \<Rightarrow> u64 \<Rightarrow> u64 \<Rightarrow> u32 \<Rightarrow> nat \<Rightarrow> c_error + mem" where
  "itoa_loop m num out base 0 = Inr m"
| "itoa_loop m num out base (Suc count) =
     (if base = 0 then Inl DivByZero
      else let d = unat (num mod ucast base)
        in if d < length digit
           then itoa_loop (m(out + of_nat count := digit ! d)) (num div ucast base) out base count
           else Inl OutOfBounds)"

definition itoa :: "mem \<Rightarrow> u64 \<Rightarrow> u64 \<Rightarrow> u32 \<Rightarrow> (c_error + mem \<times> u32) option" where
  "itoa m num out base =
     (case getdigits num base of
        None \<Rightarrow> None
      | Some (Inl e) \<Rightarrow> Some (Inl e)
      | Some (Inr digits) \<Rightarrow>
          (case itoa_loop m num out base (unat digits) of
             Inl e \<Rightarrow> Some (Inl e)
           | Inr m' \<Rightarrow> Some (Inr (m'(out + ucast digits := 0), digits))))"

section \<open>Terminated strings\<close>

primrec cstr :: "mem \<Rightarrow> u64 \<Rightarrow> u8 list \<Rightarrow> bool" where
  "cstr m a [] \<longleftrightarrow> m a = 0"
| "cstr m a (c # s) \<longleftrightarrow> m a = c \<and> c \<noteq> 0 \<and> cstr m (a + 1) s"

lemma cstr_nth:
  "cstr m a s \<longleftrightarrow> (\<forall>i < length s. m (a + of_nat i) = s ! i \<and> s ! i \<noteq> 0)
     \<and> m (a + of_nat (length s)) = 0"
proof (induction s arbitrary: a)
  case Nil
  then show ?case by simp
next
  case (Cons c s)
  then show ?case
    by (simp add: All_less_Suc2 algebra_simps)
qed

lemma cstr_cong:
  assumes "\<And>i. i \<le> length s \<Longrightarrow> m' (a + of_nat i) = m (a + of_nat i)"
  shows "cstr m' a s = cstr m a s"
  using assms by (auto simp: cstr_nth)

section \<open>Properties of the block operations\<close>

lemma word_Suc_diff:
  fixes x p :: u64
  assumes "x \<noteq> p"
  shows "unat (x - p) = Suc (unat (x - (p + 1)))"
proof -
  have "x - p \<noteq> 0" using assms by simp
  then have "unat (x - p) = Suc (unat (x - p - 1))"
    by (simp add: unat_minus_one unat_eq_0 Suc_pred' unat_gt_0)
  then show ?thesis by (simp add: algebra_simps)
qed

lemma memset_loop_apply:
  "n \<le> 2 ^ 64 \<Longrightarrow> memset_loop m p c n x = (if unat (x - p) < n then c else m x)"
proof (induction n arbitrary: m p)
  case 0
  then show ?case by simp
next
  case (Suc n)
  show ?case
  proof (cases "x = p")
    case True
    have "unat (p - (p + 1)) = 2 ^ 64 - 1" by simp
    with Suc True show ?thesis by simp
  next
    case False
    with Suc word_Suc_diff [OF False] show ?thesis by simp
  qed
qed

lemma memset_apply:
  "fst (memset m p c n) x = (if unat (x - p) < unat n then ucast c else m x)"
  using unat_u64_less [of n] by (simp add: memset_def memset_loop_apply)

lemma memcpy_loop_apply:
  assumes "n \<le> 2 ^ 64" and "d = s \<or> n \<le> unat (d - s)"
  shows "memcpy_loop m d s n x = (if unat (x - d) < n then m (s + (x - d)) else m x)"
  using assms
proof (induction n arbitrary: m d s)
  case 0
  then show ?case by simp
next
  case (Suc n)
  let ?m = "m(d := m s)"
  have IH: "memcpy_loop ?m (d + 1) (s + 1) n x =
      (if unat (x - (d + 1)) < n then ?m (s + 1 + (x - (d + 1))) else ?m x)"
    using Suc.prems by (intro Suc.IH) auto
  show ?case
  proof (cases "x = d")
    case True
    have "unat (d - (d + 1)) = 2 ^ 64 - 1" by simp
    with Suc.prems True IH show ?thesis by simp
  next
    case False
    have sh: "s + 1 + (x - (d + 1)) = s + (x - d)" by (simp add: algebra_simps)
    have "?m (s + (x - d)) = m (s + (x - d))" if "unat (x - d) < Suc n"
    proof (cases "s + (x - d) = d")
      case True
      then have "x - d = d - s" by (simp add: algebra_simps)
      with that Suc.prems have "d = s" by auto
      then show ?thesis using True by simp
    qed simp
    with False IH word_Suc_diff [OF False] sh show ?thesis by auto
  qed
qed

lemma memcmp_loop_step:
  "memcmp_loop m a b n = (if n = 0 \<or> m a = m b then 0 else if m a > m b then 1 else - 1)"
  by (induction n) auto

text \<open>
  \<^verbatim>\<open>memcpy\<close> leaves at \<^verbatim>\<open>dest\<close> the bytes that were at \<^verbatim>\<open>src\<close> before the call and
  changes no other byte, also for overlapping blocks as long as \<^verbatim>\<open>dest\<close> does not start
  inside the source block (so moving a block to a lower address is safe).
\<close>

theorem memcpy_copies:
  assumes "dest = src \<or> unat sz \<le> unat (dest - src)"
  shows "snd (memcpy m dest src sz) = dest \<and>
    fst (memcpy m dest src sz) x =
      (if unat (x - dest) < unat sz then m (src + (x - dest)) else m x)"
  using assms unat_u64_less [of sz] by (simp add: memcpy_def memcpy_loop_apply)

theorem memcpy_copies_witness:
  "fst (memcpy ((\<lambda>_. 0)(8 := 5, 9 := 6)) 7 8 2) 8 = 6"
  using memcpy_copies [of 7 8 2 "(\<lambda>_. 0)(8 := 5, 9 := 6)" 8] by simp

text \<open>
  \<^verbatim>\<open>memcmp\<close> compares the first byte of the two blocks only: its loop never advances the
  pointers, so two blocks that agree in their first byte compare equal at any length.
\<close>

theorem memcmp_first_byte:
  "memcmp m a b len = (if len = 0 \<or> m a = m b then 0 else if m a > m b then 1 else - 1)"
  by (simp add: memcmp_def memcmp_loop_step unat_eq_0)

section \<open>Properties of the string operations\<close>

fun strcmp_ref :: "u8 list \<Rightarrow> u8 list \<Rightarrow> int" where
  "strcmp_ref (x # xs) (y # ys) =
     (if x = y then strcmp_ref xs ys else if sint x > sint y then 1 else - 1)"
| "strcmp_ref [] [] = 0"
| "strcmp_ref [] (y # ys) = (if 0 > sint y then 1 else - 1)"
| "strcmp_ref (x # xs) [] = (if sint x > 0 then 1 else - 1)"

lemma strcmp_eq_ref: "cstr m a s \<Longrightarrow> cstr m b t \<Longrightarrow> strcmp m a b = Some (strcmp_ref s t)"
proof (induction s t arbitrary: a b rule: strcmp_ref.induct)
  case (1 x xs y ys)
  then show ?case by (subst strcmp.simps) auto
qed (subst strcmp.simps; auto)+

lemma strcmp_ref_0_iff: "strcmp_ref s t = 0 \<longleftrightarrow> s = t"
  by (induction s t rule: strcmp_ref.induct) auto

lemma strcmp_ref_diff:
  "s \<noteq> t \<Longrightarrow> 0 \<notin> set s \<Longrightarrow> 0 \<notin> set t \<Longrightarrow> \<exists>k \<le> min (length s) (length t). take k s = take k t \<and>
     (s @ [0]) ! k \<noteq> (t @ [0]) ! k \<and>
     strcmp_ref s t = (if sint ((s @ [0]) ! k) > sint ((t @ [0]) ! k) then 1 else - 1)"
proof (induction s t rule: strcmp_ref.induct)
  case (1 x xs y ys)
  show ?case
  proof (cases "x = y")
    case True
    with 1 obtain k where "k \<le> min (length xs) (length ys)" "take k xs = take k ys"
      "(xs @ [0]) ! k \<noteq> (ys @ [0]) ! k"
      "strcmp_ref xs ys = (if sint ((xs @ [0]) ! k) > sint ((ys @ [0]) ! k) then 1 else - 1)"
      by auto
    with True show ?thesis by (intro exI [of _ "Suc k"]) simp
  next
    case False
    then show ?thesis by (intro exI [of _ 0]) simp
  qed
qed (auto intro!: exI [of _ 0])

lemma cstr_nonzero: "cstr m a s \<Longrightarrow> 0 \<notin> set s"
  by (induction s arbitrary: a) auto

text \<open>
  On terminated strings \<^verbatim>\<open>strcmp\<close> returns: 0 exactly for equal strings, and otherwise the
  sign of the signed comparison of the first bytes that differ (the terminator counts).
\<close>

theorem strcmp_decides:
  assumes "cstr m a s" and "cstr m b t"
  shows "\<exists>r. strcmp m a b = Some r \<and> (r = 0 \<longleftrightarrow> s = t) \<and>
    (s \<noteq> t \<longrightarrow> (\<exists>k \<le> min (length s) (length t). take k s = take k t \<and>
       (s @ [0]) ! k \<noteq> (t @ [0]) ! k \<and>
       r = (if sint ((s @ [0]) ! k) > sint ((t @ [0]) ! k) then 1 else - 1)))"
  using strcmp_eq_ref [OF assms] strcmp_ref_0_iff [of s t] strcmp_ref_diff [of s t]
    cstr_nonzero [OF assms(1)] cstr_nonzero [OF assms(2)] by auto

theorem strcmp_decides_witness:
  "\<exists>r. strcmp ((\<lambda>_. 0)(8 := 65, 16 := 65, 17 := 66)) 8 16 = Some r \<and> r \<noteq> 0"
  using strcmp_decides [of "(\<lambda>_. 0)(8 := 65, 16 := 65, 17 := 66)" 8 "[65]" 16 "[65, 66]"]
  by auto

lemma strcpy_apply:
  assumes "cstr m src s" and "length s < 2 ^ 63"
    and "dest = src \<or> (length s < unat (dest - src) \<and> length s < unat (src - dest))"
  shows "\<exists>m'. strcpy m dest src = Some (m', dest + of_nat (length s)) \<and> cstr m' dest s \<and>
     (\<forall>x. length s < unat (x - dest) \<longrightarrow> m' x = m x)"
  using assms
proof (induction s arbitrary: m dest src)
  case Nil
  then show ?case by (subst strcpy.simps) auto
next
  case (Cons c s)
  let ?m = "m(dest := c)"
  have ne: "y \<noteq> dest" if "dest \<noteq> src" "0 < unat (y - src)" "unat (y - src) \<le> Suc (length s)" for y
    using that Cons.prems by auto
  have src1: "cstr ?m (src + 1) s"
  proof -
    have "?m (src + 1 + of_nat i) = m (src + 1 + of_nat i)" if "i \<le> length s" for i
    proof (cases "dest = src")
      case True
      with Cons.prems(1) have "?m = m" by auto
      then show ?thesis by simp
    next
      case False
      have "unat (1 + of_nat i :: u64) = Suc i"
        using that Cons.prems(2) by (simp flip: of_nat_Suc)
      with ne [OF False, of "src + 1 + of_nat i"] that show ?thesis
        by (auto simp: algebra_simps)
    qed
    with Cons.prems(1) show ?thesis by (auto simp: cstr_cong [of s ?m])
  qed
  have "\<exists>m'. strcpy ?m (dest + 1) (src + 1) = Some (m', dest + 1 + of_nat (length s)) \<and>
      cstr m' (dest + 1) s \<and> (\<forall>x. length s < unat (x - (dest + 1)) \<longrightarrow> m' x = ?m x)"
    using Cons.prems by (intro Cons.IH src1) auto
  then obtain m' where m': "strcpy ?m (dest + 1) (src + 1) = Some (m', dest + 1 + of_nat (length s))"
    "cstr m' (dest + 1) s" "\<And>x. length s < unat (x - (dest + 1)) \<Longrightarrow> m' x = ?m x"
    by blast
  have "m' dest = c"
    using m'(3) [of dest] Cons.prems(2) by simp
  moreover have "m' x = m x" if "Suc (length s) < unat (x - dest)" for x
  proof -
    have "x \<noteq> dest" using that by auto
    with that m'(3) [of x] word_Suc_diff [of x dest] show ?thesis by simp
  qed
  ultimately show ?case
    using m' Cons.prems(1) by (subst strcpy.simps) (auto simp: algebra_simps)
qed

text \<open>
  \<^verbatim>\<open>strcpy\<close> of a terminated string that does not overlap its destination returns, leaves a
  terminated copy at \<^verbatim>\<open>dest\<close>, changes nothing beyond the copy, and returns the address of the
  copy's terminator (not \<^verbatim>\<open>dest\<close>, as the standard function does).
\<close>

theorem strcpy_copies:
  assumes "cstr m src s" and "length s < 2 ^ 63"
    and "length s < unat (dest - src)" and "length s < unat (src - dest)"
  shows "\<exists>m'. strcpy m dest src = Some (m', dest + of_nat (length s)) \<and> cstr m' dest s \<and>
     (\<forall>x. length s < unat (x - dest) \<longrightarrow> m' x = m x)"
  using strcpy_apply [of m src s dest] assms by blast

theorem strcpy_copies_witness:
  "\<exists>m'. strcpy ((\<lambda>_. 0)(8 := 65)) 16 8 = Some (m', 17) \<and> cstr m' 16 [65]"
  using strcpy_copies [of "(\<lambda>_. 0)(8 := 65)" 8 "[65]" 16] by auto

section \<open>Properties of number printing\<close>

fun ndigits :: "nat \<Rightarrow> nat \<Rightarrow> nat" where
  "ndigits b n = (if n = 0 \<or> b < 2 then 0 else Suc (ndigits b (n div b)))"

declare ndigits.simps [simp del]

lemma ndigits_upper: "2 \<le> b \<Longrightarrow> n < b ^ ndigits b n"
proof (induction b n rule: ndigits.induct)
  case (1 b n)
  show ?case
  proof (cases "n = 0")
    case True
    then show ?thesis by (simp add: ndigits.simps)
  next
    case False
    with 1 have "n div b < b ^ ndigits b (n div b)" by simp
    with 1(2) have "n < b ^ ndigits b (n div b) * b"
      by (simp add: div_less_iff_less_mult)
    with False 1(2) show ?thesis
      by (subst ndigits.simps) (simp add: mult.commute)
  qed
qed

lemma ndigits_least: "2 \<le> b \<Longrightarrow> n < b ^ k \<Longrightarrow> ndigits b n \<le> k"
proof (induction b n arbitrary: k rule: ndigits.induct)
  case (1 b n)
  show ?case
  proof (cases k)
    case 0
    with 1 show ?thesis by (simp add: ndigits.simps)
  next
    case (Suc j)
    with 1 show ?thesis
      by (subst ndigits.simps) (auto simp: less_mult_imp_div_less mult.commute)
  qed
qed

lemma unat_ucast_u32 [simp]: "unat (ucast (b :: u32) :: u64) = unat b"
  by (simp add: unsigned_ucast_eq take_bit_nat_eq_self_iff
      order_less_trans [OF unsigned_less [of b]])

lemma getdigits_loop_eq:
  "2 \<le> unat base \<Longrightarrow>
     getdigits_loop num base c = Some (Inr (c + of_nat (ndigits (unat base) (unat num))))"
proof (induction "unat num" arbitrary: num c rule: less_induct)
  case less
  show ?case
  proof (cases "num = 0")
    case True
    then show ?thesis
      by (subst getdigits_loop.simps) (simp add: ndigits.simps)
  next
    case False
    then have pos: "0 < unat num" by (simp add: unat_gt_0)
    let ?q = "num div ucast base"
    have q: "unat ?q = unat num div unat base" by (simp add: unat_div)
    have "unat ?q < unat num" using pos less.prems by (simp add: q)
    then have "getdigits_loop ?q base (c + 1) =
        Some (Inr (c + 1 + of_nat (ndigits (unat base) (unat num div unat base))))"
      using less by (simp add: q)
    moreover have "ndigits (unat base) (unat num) =
        Suc (ndigits (unat base) (unat num div unat base))"
      using pos less.prems by (subst ndigits.simps) simp
    ultimately show ?thesis
      using False less.prems by (subst getdigits_loop.simps) (auto simp: algebra_simps)
  qed
qed

definition digit_count :: "nat \<Rightarrow> nat \<Rightarrow> nat" where
  "digit_count b n = (if n = 0 then 1 else ndigits b n)"

lemma digit_count_upper: "2 \<le> b \<Longrightarrow> n < b ^ digit_count b n"
  by (simp add: digit_count_def ndigits_upper)

lemma digit_count_least: "2 \<le> b \<Longrightarrow> n < b ^ k \<Longrightarrow> 0 < k \<Longrightarrow> digit_count b n \<le> k"
  by (simp add: digit_count_def ndigits_least)

lemma digit_count_64: "2 \<le> b \<Longrightarrow> digit_count b (unat (n :: u64)) \<le> 64"
proof (rule digit_count_least)
  assume "2 \<le> b"
  then have "(2 :: nat) ^ 64 \<le> b ^ 64" by (rule power_mono) simp
  with unat_u64_less [of n] show "unat n < b ^ 64" by linarith
qed simp_all

lemma getdigits_eq:
  "2 \<le> unat base \<Longrightarrow> getdigits num base = Some (Inr (of_nat (digit_count (unat base) (unat num))))"
  by (simp add: getdigits_def digit_count_def getdigits_loop_eq unat_eq_0)

lemma mod_less_36: "2 \<le> b \<Longrightarrow> b \<le> 36 \<Longrightarrow> n mod b < (36 :: nat)"
  by (rule order_less_le_trans [OF mod_less_divisor]) auto

lemma length_digit: "length digit = 36"
  by (simp add: digit_def)

lemma itoa_loop_eq:
  assumes "2 \<le> unat base" and "unat base \<le> 36" and "k \<le> 64"
  shows "\<exists>m'. itoa_loop m num out base k = Inr m' \<and>
    (\<forall>x. m' x = (if unat (x - out) < k
       then digit ! (unat num div unat base ^ (k - 1 - unat (x - out)) mod unat base) else m x))"
  using assms(3)
proof (induction k arbitrary: m num)
  case 0
  then show ?case by simp
next
  case (Suc k)
  let ?b = "unat base"
  let ?d = "unat num mod ?b" and ?q = "num div ucast base :: u64"
  have d: "unat (num mod ucast base) = ?d" and q: "unat ?q = unat num div ?b"
    by (simp_all add: unat_mod unat_div)
  have dl: "?d < length digit"
    using assms(1,2) by (simp add: length_digit mod_less_36)
  let ?m = "m(out + of_nat k := digit ! ?d)"
  from Suc obtain m' where m': "itoa_loop ?m ?q out base k = Inr m'"
    "\<And>x. m' x = (if unat (x - out) < k
       then digit ! (unat ?q div ?b ^ (k - 1 - unat (x - out)) mod ?b) else ?m x)"
    by (metis Suc_leD)
  have "m' x = (if unat (x - out) < Suc k
       then digit ! (unat num div ?b ^ (k - unat (x - out)) mod ?b) else m x)" for x
  proof (cases "unat (x - out) < k")
    case True
    then have "k - unat (x - out) = Suc (k - 1 - unat (x - out))" by simp
    with True show ?thesis by (simp add: m'(2) q div_mult2_eq)
  next
    case False
    have "x = out + of_nat k \<longleftrightarrow> unat (x - out) = k"
      using Suc.prems by (auto simp: word_unat_eq_iff [of "x - out"] algebra_simps
          dest: arg_cong [of _ _ "\<lambda>w. of_nat w :: u64"])
    with False show ?thesis by (auto simp: m'(2))
  qed
  moreover have "base \<noteq> 0" using assms(1) by auto
  ultimately show ?case
    using m'(1) dl by (simp add: d Let_def)
qed

definition digit_val :: "u8 \<Rightarrow> nat" where
  "digit_val c = (if c \<le> 57 then unat c - 48 else unat c - 55)"

definition parse_digits :: "nat \<Rightarrow> u8 list \<Rightarrow> nat" where
  "parse_digits b s = foldl (\<lambda>acc c. acc * b + digit_val c) 0 s"

lemma digit_table: "\<forall>d \<in> set [0..<36]. digit_val (digit ! d) = d \<and> digit ! d \<noteq> 0"
  by code_simp

lemma digit_val_digit: "d < 36 \<Longrightarrow> digit_val (digit ! d) = d"
  and digit_nonzero: "d < 36 \<Longrightarrow> digit ! d \<noteq> 0"
  using digit_table by auto

lemma parse_digits_radix:
  assumes "2 \<le> b" "b \<le> 36" "n < b ^ k" "j \<le> k"
  shows "parse_digits b (map (\<lambda>i. digit ! (n div b ^ (k - 1 - i) mod b)) [0..<j]) = n div b ^ (k - j)"
  using assms(4)
proof (induction j)
  case 0
  with assms(3) show ?case by (simp add: parse_digits_def)
next
  case (Suc j)
  have "n div b ^ (k - 1 - j) mod b < 36"
    using assms(1,2) by (simp add: mod_less_36)
  then have "digit_val (digit ! (n div b ^ (k - 1 - j) mod b)) = n div b ^ (k - 1 - j) mod b"
    by (rule digit_val_digit)
  moreover have "n div b ^ (k - j) = n div b ^ (k - 1 - j) div b"
  proof -
    have "k - j = Suc (k - 1 - j)" using Suc.prems by simp
    then have "n div b ^ (k - j) = n div (b ^ (k - 1 - j) * b)" by (simp add: mult.commute)
    then show ?thesis by (simp only: div_mult2_eq)
  qed
  ultimately show ?case
    using Suc by (simp add: parse_digits_def)
qed

text \<open>The characters of a number, most significant first.\<close>

definition num_text :: "nat \<Rightarrow> nat \<Rightarrow> u8 list" where
  "num_text b n = (let k = digit_count b n in map (\<lambda>i. digit ! (n div b ^ (k - 1 - i) mod b)) [0..<k])"

lemma parse_num_text: "2 \<le> b \<Longrightarrow> b \<le> 36 \<Longrightarrow> parse_digits b (num_text b n) = n"
  using parse_digits_radix [of b n "digit_count b n" "digit_count b n"] digit_count_upper [of b n]
  by (simp add: num_text_def Let_def)

lemma digit_count_20:
  assumes "10 \<le> b"
  shows "digit_count b (unat (n :: u64)) \<le> 20"
proof (rule digit_count_least)
  have "(10 :: nat) ^ 20 \<le> b ^ 20" using assms by (rule power_mono) simp
  with unat_u64_less [of n] show "unat n < b ^ 20" by simp
qed (use assms in simp_all)

lemma itoa_prints:
  assumes "2 \<le> unat base" and "unat base \<le> 36"
  shows "\<exists>m' n. itoa m num out base = Some (Inr (m', n)) \<and> cstr m' out (num_text (unat base) (unat num)) \<and>
    length (num_text (unat base) (unat num)) = unat n \<and> unat n = digit_count (unat base) (unat num) \<and>
    (\<forall>x. unat n < unat (x - out) \<longrightarrow> m' x = m x)"
proof -
  let ?b = "unat base"
  define k where "k = digit_count ?b (unat num)"
  define s where "s = num_text ?b (unat num)"
  have s: "s = map (\<lambda>i. digit ! (unat num div ?b ^ (k - 1 - i) mod ?b)) [0..<k]"
    by (simp add: s_def num_text_def k_def Let_def)
  have k64: "k \<le> 64" unfolding k_def by (rule digit_count_64 [OF assms(1)])
  then have un: "unat (of_nat k :: u32) = k" by (simp add: unat_of_nat)
  have uc: "ucast (of_nat k :: u32) = (of_nat k :: u64)"
    using k64 un by (simp add: word_unat_eq_iff)
  obtain m' where m': "itoa_loop m num out base k = Inr m'"
    "\<And>x. m' x = (if unat (x - out) < k
       then digit ! (unat num div ?b ^ (k - 1 - unat (x - out)) mod ?b) else m x)"
    using itoa_loop_eq [OF assms k64] by blast
  let ?m = "m'(out + of_nat k := 0)"
  have eq: "itoa m num out base = Some (Inr (?m, of_nat k))"
    using m'(1) un uc by (simp add: itoa_def getdigits_eq [OF assms(1)] flip: k_def)
  have at: "?m (out + of_nat i) = s ! i \<and> s ! i \<noteq> 0" if "i < k" for i
  proof -
    have "(of_nat i :: u64) \<noteq> of_nat k"
      using that k64 by (simp add: word_unat_eq_iff)
    with that k64 show ?thesis
      by (simp add: s m'(2) digit_nonzero mod_less_36 [OF assms])
  qed
  then have "cstr ?m out s" by (simp add: cstr_nth s)
  moreover have "?m x = m x" if "k < unat (x - out)" for x
    using that k64 by (auto simp: m'(2))
  ultimately show ?thesis
    using eq un by (auto simp: s k_def simp flip: s_def)
qed

text \<open>
  C40: For every base from 2 to 36 \<^verbatim>\<open>itoa\<close> returns, the string it leaves at \<^verbatim>\<open>out\<close> is
  terminated, has as many characters as the returned count, reads back as the number in that
  base, and nothing else in memory changes.
\<close>

theorem itoa_round_trip:
  assumes "2 \<le> unat base" and "unat base \<le> 36"
  shows "\<exists>m' n s. itoa m num out base = Some (Inr (m', n)) \<and> cstr m' out s \<and>
    length s = unat n \<and> parse_digits (unat base) s = unat num \<and>
    (\<forall>x. unat n < unat (x - out) \<longrightarrow> m' x = m x)"
  using itoa_prints [OF assms, of m num out] parse_num_text [OF assms] by metis

theorem itoa_round_trip_witness:
  "\<exists>m' n s. itoa (\<lambda>_. 0) 255 64 16 = Some (Inr (m', n)) \<and> cstr m' 64 s \<and>
    parse_digits 16 s = 255"
  using itoa_round_trip [of 16 "\<lambda>_. 0" 255 64] by auto

text \<open>
  The count \<^verbatim>\<open>getdigits\<close> returns is the least number of digits that holds the value, and
  for a base of at least ten a printed 64-bit number and its terminator fit the 21-byte
  buffers that \<^verbatim>\<open>debug_log\<close> and \<^verbatim>\<open>error\<close> give to \<^verbatim>\<open>itoa\<close>.
\<close>

theorem getdigits_minimal:
  assumes "2 \<le> unat base"
  shows "\<exists>n. getdigits num base = Some (Inr n) \<and> 0 < n \<and> unat num < unat base ^ unat n \<and>
    (\<forall>k. 0 < k \<longrightarrow> unat num < unat base ^ k \<longrightarrow> unat n \<le> k) \<and>
    (10 \<le> unat base \<longrightarrow> unat n + 1 \<le> 21)"
proof -
  let ?k = "digit_count (unat base) (unat num)"
  have k64: "?k \<le> 64" by (rule digit_count_64 [OF assms])
  have pos: "0 < ?k"
    using assms by (simp add: digit_count_def ndigits.simps)
  have "?k \<le> 20" if "10 \<le> unat base" using that by (rule digit_count_20)
  moreover have "unat (of_nat ?k :: u32) = ?k" using k64 by (simp add: unat_of_nat)
  ultimately show ?thesis
    using pos by (auto simp: getdigits_eq [OF assms] digit_count_upper [OF assms]
        digit_count_least [OF assms] word_less_nat_alt)
qed

theorem getdigits_minimal_witness:
  "\<exists>n. getdigits 1000 10 = Some (Inr n) \<and> unat n + 1 \<le> 21"
  using getdigits_minimal [of 10 1000] by auto

section \<open>Absolute value\<close>

text \<open>\<^verbatim>\<open>abs\<close> (\<^verbatim>\<open>libm/math/abs.c\<close>) on \<^verbatim>\<open>int\<close>; the product may overflow (\<^term>\<open>None\<close>).\<close>

definition int_range :: "int \<Rightarrow> bool" where
  "int_range n \<longleftrightarrow> - (2 ^ 31) \<le> n \<and> n < 2 ^ 31"

definition abs_int :: "int \<Rightarrow> int option" where
  "abs_int n = (let r = n * (of_bool (n > 0) * 2 - 1) in if int_range r then Some r else None)"

theorem abs_int_abs: "int_range n \<Longrightarrow> abs_int n = (if n = - (2 ^ 31) then None else Some \<bar>n\<bar>)"
  by (auto simp: abs_int_def int_range_def Let_def)

end
