(* ===== verification/PhysMem.thy ===== *)
theory PhysMem
  imports Prelude
begin

text \<open>
  The physical page allocator of \<^verbatim>\<open>kernel/memory/memory.c\<close>: \<^verbatim>\<open>phys_page_alloc\<close> and
  \<^verbatim>\<open>phys_page_free\<close> walk the bootloader's list of free regions (\<^verbatim>\<open>freemap\<close>) and a bitmap
  (\<^verbatim>\<open>pmem_bmap\<close>) in step, one bit per page. The state keeps the two arrays as the lists the
  pointers refer to; a read past the end of either is \<^term>\<open>None\<close>. The lemmas refine the two
  loops to a set of available pages, the contract that the paging code relies on
  (locale \<open>page_source\<close>).
\<close>

section \<open>State and operations\<close>

record memory_t =
  fm_addr :: u64
  blocks :: u64

record phys =
  freemap :: "memory_t list"
  fm_descs :: u64
  mm_descs :: u64
  pmem_bmap :: "u32 list"

definition BITS_PER_ELEMENT :: nat where
  "BITS_PER_ELEMENT = 32"

datatype page_search = Hit u64 "u32 list" | Miss nat nat

definition next_bit :: "nat \<Rightarrow> nat \<Rightarrow> nat \<times> nat" where
  "next_bit h b = (if BITS_PER_ELEMENT \<le> b + 1 then (h + 1, 0) else (h, b + 1))"

fun alloc_desc :: "u32 list \<Rightarrow> nat \<Rightarrow> nat \<Rightarrow> u64 \<Rightarrow> nat \<Rightarrow> page_search option" where
  "alloc_desc bm h b a 0 = Some (Miss h b)"
| "alloc_desc bm h b a (Suc k) =
     (if h < length bm then
        (if bm ! h AND push_bit b 1 \<noteq> 0
         then (case next_bit h b of (h', b') \<Rightarrow> alloc_desc bm h' b' (a + PAGE_SIZE) k)
         else Some (Hit a (bm[h := bm ! h OR push_bit b 1])))
      else None)"

fun alloc_scan ::
  "memory_t list \<Rightarrow> u32 list \<Rightarrow> nat \<Rightarrow> nat \<Rightarrow> nat \<Rightarrow> nat \<Rightarrow> page_search option" where
  "alloc_scan fm bm h b i 0 = Some (Miss h b)"
| "alloc_scan fm bm h b i (Suc n) =
     (if i < length fm then
        (case alloc_desc bm h b (fm_addr (fm ! i)) (unat (blocks (fm ! i))) of
           Some (Miss h' b') \<Rightarrow> alloc_scan fm bm h' b' (Suc i) n
         | r \<Rightarrow> r)
      else None)"

definition phys_page_alloc :: "phys \<Rightarrow> (u64 \<times> phys) option" where
  "phys_page_alloc ps =
     (case alloc_scan (freemap ps) (pmem_bmap ps) 0 0 0 (unat (fm_descs ps)) of
        None \<Rightarrow> None
      | Some (Hit a bm) \<Rightarrow> Some (a, ps\<lparr>pmem_bmap := bm\<rparr>)
      | Some (Miss _ _) \<Rightarrow> Some (0, ps))"

fun free_desc :: "u32 list \<Rightarrow> nat \<Rightarrow> nat \<Rightarrow> u64 \<Rightarrow> u64 \<Rightarrow> nat \<Rightarrow> page_search option" where
  "free_desc bm h b ptr a 0 = Some (Miss h b)"
| "free_desc bm h b ptr a (Suc k) =
     (if ptr = a then
        (if h < length bm then Some (Hit ptr (bm[h := bm ! h AND NOT (push_bit b 1)])) else None)
      else (case next_bit h b of (h', b') \<Rightarrow> free_desc bm h' b' (ptr + PAGE_SIZE) a k))"

fun free_scan ::
  "memory_t list \<Rightarrow> u32 list \<Rightarrow> u64 \<Rightarrow> nat \<Rightarrow> nat \<Rightarrow> nat \<Rightarrow> nat \<Rightarrow> page_search option" where
  "free_scan fm bm a h b i 0 = Some (Miss h b)"
| "free_scan fm bm a h b i (Suc n) =
     (if i < length fm then
        (case free_desc bm h b (fm_addr (fm ! i)) a (unat (blocks (fm ! i))) of
           Some (Miss h' b') \<Rightarrow> free_scan fm bm a h' b' (Suc i) n
         | r \<Rightarrow> r)
      else None)"

text \<open>The outer loop of \<^verbatim>\<open>phys_page_free\<close> is bounded by \<^verbatim>\<open>mm_descs\<close>, not \<^verbatim>\<open>fm_descs\<close>.\<close>

definition phys_page_free :: "u64 \<Rightarrow> phys \<Rightarrow> phys option" where
  "phys_page_free a ps =
     (if a mod PAGE_SIZE \<noteq> 0 then Some ps
      else case free_scan (freemap ps) (pmem_bmap ps) a 0 0 0 (unat (mm_descs ps)) of
        None \<Rightarrow> None
      | Some (Hit _ bm) \<Rightarrow> Some (ps\<lparr>pmem_bmap := bm\<rparr>)
      | Some (Miss _ _) \<Rightarrow> Some ps)"

section \<open>Abstraction\<close>

definition pages_of :: "memory_t \<Rightarrow> u64 list" where
  "pages_of d = map (\<lambda>j. fm_addr d + of_nat j * PAGE_SIZE) [0..<unat (blocks d)]"

definition all_pages :: "memory_t list \<Rightarrow> u64 list" where
  "all_pages fm = concat (map pages_of fm)"

definition bm_bit :: "u32 list \<Rightarrow> nat \<Rightarrow> bool" where
  "bm_bit bm k \<longleftrightarrow> bit (bm ! (k div 32)) (k mod 32)"

definition bm_set :: "u32 list \<Rightarrow> nat \<Rightarrow> u32 list" where
  "bm_set bm k = bm[k div 32 := bm ! (k div 32) OR push_bit (k mod 32) 1]"

definition bm_clear :: "u32 list \<Rightarrow> nat \<Rightarrow> u32 list" where
  "bm_clear bm k = bm[k div 32 := bm ! (k div 32) AND NOT (push_bit (k mod 32) 1)]"

definition avail :: "phys \<Rightarrow> u64 set" where
  "avail ps = {all_pages (freemap ps) ! k | k.
     k < length (all_pages (freemap ps)) \<and> \<not> bm_bit (pmem_bmap ps) k}"

definition phys_ok :: "phys \<Rightarrow> bool" where
  "phys_ok ps \<longleftrightarrow> unat (fm_descs ps) = length (freemap ps) \<and> fm_descs ps \<le> mm_descs ps \<and>
     length (all_pages (freemap ps)) \<le> 32 * length (pmem_bmap ps) \<and>
     distinct (all_pages (freemap ps)) \<and>
     (\<forall>p \<in> set (all_pages (freemap ps)). p AND ADDR_MASK = p \<and> p < 0x1000000000000)"

lemma length_pages_of [simp]: "length (pages_of d) = unat (blocks d)"
  by (simp add: pages_of_def)

lemma all_pages_simps [simp]:
  "all_pages [] = []" "all_pages (d # ds) = pages_of d @ all_pages ds"
  by (simp_all add: all_pages_def)

lemma length_bm [simp]: "length (bm_set bm k) = length bm" "length (bm_clear bm k) = length bm"
  by (simp_all add: bm_set_def bm_clear_def)

lemma bm_bit_set:
  assumes "k < 32 * length bm" and "j < 32 * length bm"
  shows "bm_bit (bm_set bm k) j \<longleftrightarrow> j = k \<or> bm_bit bm j"
proof (cases "j div 32 = k div 32")
  case True
  have "j mod 32 = k mod 32 \<longleftrightarrow> j = k"
    using True by (metis div_mult_mod_eq)
  moreover have "k div 32 < length bm" using assms(1) by (simp add: less_mult_imp_div_less mult.commute)
  ultimately show ?thesis
    using True by (auto simp: bm_bit_def bm_set_def bit_or_iff bit_exp_iff)
next
  case False
  then show ?thesis by (auto simp: bm_bit_def bm_set_def)
qed

lemma bm_bit_clear:
  assumes "k < 32 * length bm" and "j < 32 * length bm"
  shows "bm_bit (bm_clear bm k) j \<longleftrightarrow> j \<noteq> k \<and> bm_bit bm j"
proof (cases "j div 32 = k div 32")
  case True
  have "j mod 32 = k mod 32 \<longleftrightarrow> j = k"
    using True by (metis div_mult_mod_eq)
  moreover have "k div 32 < length bm" using assms(1) by (simp add: less_mult_imp_div_less mult.commute)
  ultimately show ?thesis
    using True
    by (auto simp: bm_bit_def bm_clear_def bit_and_iff bit_not_iff bit_exp_iff)
next
  case False
  then show ?thesis by (auto simp: bm_bit_def bm_clear_def)
qed

lemma bm_clear_set:
  assumes "k < 32 * length bm" and "\<not> bm_bit bm k"
  shows "bm_clear (bm_set bm k) k = bm"
proof -
  have len: "k div 32 < length bm"
    using assms(1) by (simp add: less_mult_imp_div_less mult.commute)
  let ?w = "bm ! (k div 32)"
  have "(?w OR push_bit (k mod 32) 1) AND NOT (push_bit (k mod 32) 1) = ?w"
    using assms(2)
    by (intro bit_word_eqI)
      (auto simp: bm_bit_def bit_and_iff bit_or_iff bit_not_iff bit_exp_iff)
  with len show ?thesis by (simp add: bm_clear_def bm_set_def)
qed

section \<open>The loops compute a search over page numbers\<close>

lemma next_bit_Suc: "next_bit (k div 32) (k mod 32) = (Suc k div 32, Suc k mod 32)"
  using mod_less_divisor [of 32 k]
  by (auto simp: next_bit_def BITS_PER_ELEMENT_def div_Suc mod_Suc simp del: mod_less_divisor)

lemma alloc_desc_eq:
  "k + n \<le> 32 * length bm \<Longrightarrow> alloc_desc bm (k div 32) (k mod 32) a n =
     (case scan (\<lambda>j. \<not> bm_bit bm j) k (k + n) of
        Some j \<Rightarrow> Some (Hit (a + of_nat (j - k) * PAGE_SIZE) (bm_set bm j))
      | None \<Rightarrow> Some (Miss ((k + n) div 32) ((k + n) mod 32)))"
proof (induction n arbitrary: k a)
  case 0
  then show ?case by simp
next
  case (Suc n)
  have len: "k div 32 < length bm"
    using Suc.prems by (simp add: less_mult_imp_div_less mult.commute)
  have test: "bm ! (k div 32) AND push_bit (k mod 32) 1 \<noteq> 0 \<longleftrightarrow> bm_bit bm k"
    unfolding bm_bit_def by (rule bit_iff_and_push_bit_not_eq_0 [symmetric])
  show ?case
  proof (cases "bm_bit bm k")
    case False
    with len test show ?thesis by (simp add: scan_step bm_set_def)
  next
    case True
    have "alloc_desc bm (Suc k div 32) (Suc k mod 32) (a + PAGE_SIZE) n =
       (case scan (\<lambda>j. \<not> bm_bit bm j) (Suc k) (Suc k + n) of
          Some j \<Rightarrow> Some (Hit (a + PAGE_SIZE + of_nat (j - Suc k) * PAGE_SIZE) (bm_set bm j))
        | None \<Rightarrow> Some (Miss ((Suc k + n) div 32) ((Suc k + n) mod 32)))"
      using Suc.prems by (intro Suc.IH) simp
    moreover have "a + PAGE_SIZE + of_nat (j - Suc k) * PAGE_SIZE = a + of_nat (j - k) * PAGE_SIZE"
      if "scan (\<lambda>j. \<not> bm_bit bm j) (Suc k) (Suc k + n) = Some j" for j
    proof -
      from that have "j - k = Suc (j - Suc k)" by (auto simp: scan_Some_iff)
      then show ?thesis by (simp add: algebra_simps)
    qed
    ultimately show ?thesis
      using True len test
      by (simp add: scan_step next_bit_Suc del: div_Suc mod_Suc split: option.split)
  qed
qed

lemma take_drop_Suc: "i < length xs \<Longrightarrow> take (Suc n) (drop i xs) = xs ! i # take n (drop (Suc i) xs)"
  by (simp flip: Cons_nth_drop_Suc)

lemma alloc_scan_eq:
  "i + n \<le> length fm \<Longrightarrow> k + length (all_pages (take n (drop i fm))) \<le> 32 * length bm \<Longrightarrow>
   alloc_scan fm bm (k div 32) (k mod 32) i n =
     (case scan (\<lambda>j. \<not> bm_bit bm j) k (k + length (all_pages (take n (drop i fm)))) of
        Some j \<Rightarrow> Some (Hit (all_pages (take n (drop i fm)) ! (j - k)) (bm_set bm j))
      | None \<Rightarrow> Some (Miss ((k + length (all_pages (take n (drop i fm)))) div 32)
                         ((k + length (all_pages (take n (drop i fm)))) mod 32)))"
proof (induction n arbitrary: i k)
  case 0
  then show ?case by simp
next
  case (Suc n)
  define c where "c = unat (blocks (fm ! i))"
  define r where "r = all_pages (take n (drop (Suc i) fm))"
  have i: "i < length fm" using Suc.prems by simp
  then have split: "all_pages (take (Suc n) (drop i fm)) = pages_of (fm ! i) @ r"
    by (simp add: take_drop_Suc r_def)
  have bound: "k + c + length r \<le> 32 * length bm"
    using Suc.prems split by (simp add: c_def add.assoc)
  have rec: "alloc_scan fm bm ((k + c) div 32) ((k + c) mod 32) (Suc i) n =
     (case scan (\<lambda>j. \<not> bm_bit bm j) (k + c) (k + c + length r) of
        Some j \<Rightarrow> Some (Hit (r ! (j - (k + c))) (bm_set bm j))
      | None \<Rightarrow> Some (Miss ((k + c + length r) div 32) ((k + c + length r) mod 32)))"
    using Suc.prems bound unfolding r_def by (intro Suc.IH) simp_all
  have here: "(pages_of (fm ! i) @ r) ! (j - k) = fm_addr (fm ! i) + of_nat (j - k) * PAGE_SIZE"
    if "scan (\<lambda>j. \<not> bm_bit bm j) k (k + c) = Some j" for j
  proof -
    from that have "j - k < c" by (auto simp: scan_Some_iff)
    then show ?thesis by (simp add: nth_append pages_of_def c_def)
  qed
  have there: "(pages_of (fm ! i) @ r) ! (j - k) = r ! (j - (k + c))"
    if "scan (\<lambda>j. \<not> bm_bit bm j) (k + c) (k + c + length r) = Some j" for j
  proof -
    from that have "k + c \<le> j" by (auto simp: scan_Some_iff)
    then show ?thesis by (auto simp: nth_append c_def)
  qed
  show ?case
    using i rec here there bound alloc_desc_eq [of k c bm "fm_addr (fm ! i)"]
    by (simp add: split scan_append c_def [symmetric] add.assoc [symmetric] split: option.split)
qed

text \<open>The same for the search that \<^verbatim>\<open>phys_page_free\<close> makes.\<close>

lemma free_desc_hit:
  assumes "j < n" and "p + of_nat j * PAGE_SIZE = a" and "k + n \<le> 32 * length bm"
  shows "\<exists>i < n. p + of_nat i * PAGE_SIZE = a \<and>
    free_desc bm (k div 32) (k mod 32) p a n = Some (Hit a (bm_clear bm (k + i)))"
  using assms
proof (induction n arbitrary: j k p)
  case 0
  then show ?case by simp
next
  case (Suc n)
  have len: "k div 32 < length bm"
    using Suc.prems by (simp add: less_mult_imp_div_less mult.commute)
  show ?case
  proof (cases "p = a")
    case True
    with len show ?thesis by (intro exI [of _ 0]) (simp add: bm_clear_def)
  next
    case False
    with Suc.prems obtain j' where j': "j = Suc j'" by (cases j) auto
    have "\<exists>i < n. p + PAGE_SIZE + of_nat i * PAGE_SIZE = a \<and>
        free_desc bm (Suc k div 32) (Suc k mod 32) (p + PAGE_SIZE) a n =
          Some (Hit a (bm_clear bm (Suc k + i)))"
      using Suc.prems by (intro Suc.IH [of j']) (auto simp: j' algebra_simps)
    then obtain i where "i < n" "p + PAGE_SIZE + of_nat i * PAGE_SIZE = a"
      "free_desc bm (Suc k div 32) (Suc k mod 32) (p + PAGE_SIZE) a n =
         Some (Hit a (bm_clear bm (Suc k + i)))" by blast
    with False show ?thesis
      by (intro exI [of _ "Suc i"]) (simp add: next_bit_Suc algebra_simps)
  qed
qed

lemma free_desc_miss:
  "(\<And>j. j < n \<Longrightarrow> p + of_nat j * PAGE_SIZE \<noteq> a) \<Longrightarrow>
     free_desc bm (k div 32) (k mod 32) p a n = Some (Miss ((k + n) div 32) ((k + n) mod 32))"
proof (induction n arbitrary: k p)
  case 0
  then show ?case by simp
next
  case (Suc n)
  have "p \<noteq> a" using Suc.prems [of 0] by simp
  moreover have "free_desc bm (Suc k div 32) (Suc k mod 32) (p + PAGE_SIZE) a n =
      Some (Miss ((Suc k + n) div 32) ((Suc k + n) mod 32))"
  proof (rule Suc.IH)
    fix j assume "j < n"
    with Suc.prems [of "Suc j"] show "p + PAGE_SIZE + of_nat j * PAGE_SIZE \<noteq> a"
      by (simp add: algebra_simps)
  qed
  ultimately show ?case by (simp add: next_bit_Suc)
qed

lemma in_pages_of: "a \<in> set (pages_of d) \<longleftrightarrow> (\<exists>j < unat (blocks d). fm_addr d + of_nat j * PAGE_SIZE = a)"
  by (auto simp: pages_of_def)

lemma free_scan_hit:
  assumes "a \<in> set (all_pages (drop i fm))" and "length (drop i fm) \<le> n"
    and "k + length (all_pages (drop i fm)) \<le> 32 * length bm"
  shows "\<exists>j < length (all_pages (drop i fm)). all_pages (drop i fm) ! j = a \<and>
    free_scan fm bm a (k div 32) (k mod 32) i n = Some (Hit a (bm_clear bm (k + j)))"
  using assms
proof (induction n arbitrary: i k)
  case 0
  then show ?case by simp
next
  case (Suc n)
  then have i: "i < length fm" by (cases "i < length fm") auto
  then have split: "all_pages (drop i fm) = pages_of (fm ! i) @ all_pages (drop (Suc i) fm)"
    by (simp flip: Cons_nth_drop_Suc)
  let ?c = "unat (blocks (fm ! i))" and ?r = "all_pages (drop (Suc i) fm)"
  have bound: "k + ?c + length ?r \<le> 32 * length bm"
    using Suc.prems(3) by (simp add: split add.assoc)
  show ?case
  proof (cases "a \<in> set (pages_of (fm ! i))")
    case True
    then obtain j where "j < ?c" "fm_addr (fm ! i) + of_nat j * PAGE_SIZE = a"
      "free_desc bm (k div 32) (k mod 32) (fm_addr (fm ! i)) a ?c = Some (Hit a (bm_clear bm (k + j)))"
      using free_desc_hit [of _ ?c "fm_addr (fm ! i)" a k bm] bound by (auto simp: in_pages_of)
    with i show ?thesis
      by (intro exI [of _ j]) (simp add: split nth_append pages_of_def)
  next
    case False
    then have "free_desc bm (k div 32) (k mod 32) (fm_addr (fm ! i)) a ?c =
        Some (Miss ((k + ?c) div 32) ((k + ?c) mod 32))"
      by (intro free_desc_miss) (auto simp: in_pages_of)
    moreover have "\<exists>j < length ?r. ?r ! j = a \<and>
        free_scan fm bm a ((k + ?c) div 32) ((k + ?c) mod 32) (Suc i) n =
          Some (Hit a (bm_clear bm (k + ?c + j)))"
      using Suc.prems False bound by (intro Suc.IH) (auto simp: split)
    then obtain j where "j < length ?r" "?r ! j = a"
      "free_scan fm bm a ((k + ?c) div 32) ((k + ?c) mod 32) (Suc i) n =
         Some (Hit a (bm_clear bm (k + ?c + j)))" by blast
    ultimately show ?thesis
      using i by (intro exI [of _ "?c + j"]) (simp add: split add.assoc nth_append)
  qed
qed

lemma free_scan_past_end:
  assumes "a \<notin> set (all_pages (drop i fm))" and "length (drop i fm) < n"
  shows "free_scan fm bm a (k div 32) (k mod 32) i n = None"
  using assms
proof (induction n arbitrary: i k)
  case 0
  then show ?case by simp
next
  case (Suc n)
  show ?case
  proof (cases "i < length fm")
    case True
    then have split: "all_pages (drop i fm) = pages_of (fm ! i) @ all_pages (drop (Suc i) fm)"
      by (simp flip: Cons_nth_drop_Suc)
    let ?c = "unat (blocks (fm ! i))"
    have "free_desc bm (k div 32) (k mod 32) (fm_addr (fm ! i)) a ?c =
        Some (Miss ((k + ?c) div 32) ((k + ?c) mod 32))"
      using Suc.prems by (intro free_desc_miss) (auto simp: split in_pages_of)
    moreover have "free_scan fm bm a ((k + ?c) div 32) ((k + ?c) mod 32) (Suc i) n = None"
      using Suc.prems True by (intro Suc.IH) (auto simp: split)
    ultimately show ?thesis using True by simp
  qed simp
qed

lemma free_scan_miss:
  assumes "a \<notin> set (all_pages (drop i fm))" and "length (drop i fm) = n"
  shows "\<exists>h b. free_scan fm bm a (k div 32) (k mod 32) i n = Some (Miss h b)"
  using assms
proof (induction n arbitrary: i k)
  case 0
  then show ?case by simp
next
  case (Suc n)
  then have i: "i < length fm" by (cases "i < length fm") auto
  then have split: "all_pages (drop i fm) = pages_of (fm ! i) @ all_pages (drop (Suc i) fm)"
    by (simp flip: Cons_nth_drop_Suc)
  let ?c = "unat (blocks (fm ! i))"
  have "free_desc bm (k div 32) (k mod 32) (fm_addr (fm ! i)) a ?c =
      Some (Miss ((k + ?c) div 32) ((k + ?c) mod 32))"
    using Suc.prems by (intro free_desc_miss) (auto simp: split in_pages_of)
  moreover have "\<exists>h b. free_scan fm bm a ((k + ?c) div 32) ((k + ?c) mod 32) (Suc i) n = Some (Miss h b)"
    using Suc.prems i by (intro Suc.IH) (auto simp: split)
  ultimately show ?case using i by auto
qed

section \<open>The contract of the page allocator\<close>

lemma phys_page_alloc_eq:
  assumes "phys_ok ps"
  shows "phys_page_alloc ps =
    Some (case scan (\<lambda>k. \<not> bm_bit (pmem_bmap ps) k) 0 (length (all_pages (freemap ps))) of
        None \<Rightarrow> (0, ps)
      | Some k \<Rightarrow> (all_pages (freemap ps) ! k, ps\<lparr>pmem_bmap := bm_set (pmem_bmap ps) k\<rparr>))"
  using assms alloc_scan_eq [of 0 "unat (fm_descs ps)" "freemap ps" 0 "pmem_bmap ps"]
  by (simp add: phys_page_alloc_def phys_ok_def split: option.split)

lemma nth_all_pages_eq:
  "phys_ok ps \<Longrightarrow> i < length (all_pages (freemap ps)) \<Longrightarrow> j < length (all_pages (freemap ps)) \<Longrightarrow>
     all_pages (freemap ps) ! i = all_pages (freemap ps) ! j \<longleftrightarrow> i = j"
  by (simp add: phys_ok_def nth_eq_iff_index_eq)

lemma phys_ok_bmap: "phys_ok ps \<Longrightarrow> length bm = length (pmem_bmap ps) \<Longrightarrow> phys_ok (ps\<lparr>pmem_bmap := bm\<rparr>)"
  by (simp add: phys_ok_def)

lemma avail_set:
  assumes "phys_ok ps" and "k < length (all_pages (freemap ps))"
  shows "avail (ps\<lparr>pmem_bmap := bm_set (pmem_bmap ps) k\<rparr>) = avail ps - {all_pages (freemap ps) ! k}"
proof -
  have "j < 32 * length (pmem_bmap ps)" if "j < length (all_pages (freemap ps))" for j
    using that assms(1) by (simp add: phys_ok_def)
  with assms show ?thesis
    by (auto simp: avail_def bm_bit_set nth_all_pages_eq)
qed

lemma avail_clear:
  assumes "phys_ok ps" and "k < length (all_pages (freemap ps))"
  shows "avail (ps\<lparr>pmem_bmap := bm_clear (pmem_bmap ps) k\<rparr>) = insert (all_pages (freemap ps) ! k) (avail ps)"
proof -
  have "j < 32 * length (pmem_bmap ps)" if "j < length (all_pages (freemap ps))" for j
    using that assms(1) by (simp add: phys_ok_def)
  with assms show ?thesis
    by (auto simp: avail_def bm_bit_clear nth_all_pages_eq)
qed

lemma finite_avail: "finite (avail ps)"
proof -
  have "avail ps \<subseteq> set (all_pages (freemap ps))" by (auto simp: avail_def)
  then show ?thesis by (rule finite_subset) simp
qed

lemma alloc_takes:
  assumes "phys_ok ps" and "avail ps \<noteq> {}"
  shows "\<exists>p ps'. phys_page_alloc ps = Some (p, ps') \<and> p \<in> avail ps \<and>
    avail ps' = avail ps - {p} \<and> phys_ok ps' \<and> freemap ps' = freemap ps"
proof -
  let ?P = "\<lambda>k. \<not> bm_bit (pmem_bmap ps) k" and ?n = "length (all_pages (freemap ps))"
  obtain k where k: "scan ?P 0 ?n = Some k"
    using assms(2) by (cases "scan ?P 0 ?n") (auto simp: avail_def scan_None_iff)
  then have "k < ?n" "?P k" by (auto simp: scan_Some_iff)
  with assms(1) show ?thesis
    by (simp add: phys_page_alloc_eq k avail_set phys_ok_bmap) (auto simp: avail_def)
qed

lemma alloc_exhausted: "phys_ok ps \<Longrightarrow> avail ps = {} \<Longrightarrow> phys_page_alloc ps = Some (0, ps)"
proof -
  assume ok: "phys_ok ps" and "avail ps = {}"
  then have "scan (\<lambda>k. \<not> bm_bit (pmem_bmap ps) k) 0 (length (all_pages (freemap ps))) = None"
    by (auto simp: avail_def scan_None_iff)
  with ok show ?thesis by (simp add: phys_page_alloc_eq)
qed

lemma avail_frame: "phys_ok ps \<Longrightarrow> p \<in> avail ps \<Longrightarrow> p AND ADDR_MASK = p \<and> p < 0x1000000000000"
  by (auto simp: avail_def phys_ok_def)

text \<open>
  What a supplier of page frames promises. One that has none left either says so or, as the
  kernel's, answers with the null page; only the latter is a \<open>page_source\<close>.
\<close>

locale page_supply =
  fixes alloc :: "'a \<Rightarrow> (u64 \<times> 'a) option"
    and pool :: "'a \<Rightarrow> u64 set"
    and ok :: "'a \<Rightarrow> bool"
  assumes takes: "ok a \<Longrightarrow> pool a \<noteq> {} \<Longrightarrow>
      \<exists>p a'. alloc a = Some (p, a') \<and> p \<in> pool a \<and> pool a' = pool a - {p} \<and> ok a'"
    and runs_dry: "ok a \<Longrightarrow> pool a = {} \<Longrightarrow> alloc a = None \<or> alloc a = Some (0, a)"
    and finite_pages: "finite (pool a)"
    and page_frame: "ok a \<Longrightarrow> p \<in> pool a \<Longrightarrow> p AND ADDR_MASK = p \<and> p < 0x1000000000000"

locale page_source = page_supply alloc pool ok
  for alloc :: "'a \<Rightarrow> (u64 \<times> 'a) option" and pool :: "'a \<Rightarrow> u64 set" and ok :: "'a \<Rightarrow> bool" +
  assumes exhausted: "ok a \<Longrightarrow> pool a = {} \<Longrightarrow> alloc a = Some (0, a)"

interpretation pm: page_source phys_page_alloc avail phys_ok
  by unfold_locales (use alloc_takes in blast, simp_all add: alloc_exhausted finite_avail avail_frame)

lemma free_returns:
  assumes "phys_ok ps" and "p \<in> set (all_pages (freemap ps))"
  shows "\<exists>k < length (all_pages (freemap ps)). all_pages (freemap ps) ! k = p \<and>
    phys_page_free p ps = Some (ps\<lparr>pmem_bmap := bm_clear (pmem_bmap ps) k\<rparr>)"
proof -
  have "p AND ADDR_MASK = p" using assms by (simp add: phys_ok_def)
  then have "p mod PAGE_SIZE = 0" using frame_aligned [of p] by (simp add: page_aligned_def)
  moreover have "length (freemap ps) \<le> unat (mm_descs ps)"
    using assms(1) by (simp add: phys_ok_def word_le_nat_alt)
  ultimately show ?thesis
    using free_scan_hit [of p 0 "freemap ps" "unat (mm_descs ps)" 0 "pmem_bmap ps"] assms
    by (auto simp: phys_page_free_def phys_ok_def)
qed

lemma free_outside:
  assumes "phys_ok ps" and "p \<notin> set (all_pages (freemap ps))"
  shows "phys_page_free p ps = (if page_aligned p \<and> fm_descs ps < mm_descs ps then None else Some ps)"
proof (cases "fm_descs ps < mm_descs ps")
  case True
  then have "length (freemap ps) < unat (mm_descs ps)"
    using assms(1) by (simp add: phys_ok_def word_less_nat_alt)
  with assms True show ?thesis
    using free_scan_past_end [of p 0 "freemap ps" "unat (mm_descs ps)" "pmem_bmap ps" 0]
    by (simp add: phys_page_free_def page_aligned_def)
next
  case False
  then have "length (freemap ps) = unat (mm_descs ps)"
    using assms(1) by (auto simp: phys_ok_def)
  with assms False show ?thesis
    using free_scan_miss [of p 0 "freemap ps" "unat (mm_descs ps)" "pmem_bmap ps" 0]
    by (auto simp: phys_page_free_def page_aligned_def)
qed

lemma free_keeps:
  assumes "phys_page_free p ps = Some ps'" and "phys_ok ps"
  shows "phys_ok ps' \<and> freemap ps' = freemap ps \<and> fm_descs ps' = fm_descs ps \<and> mm_descs ps' = mm_descs ps"
  using assms free_returns [OF assms(2), of p] free_outside [OF assms(2), of p]
  by (cases "p \<in> set (all_pages (freemap ps))") (auto simp: phys_ok_bmap split: if_splits)

lemma free_total:
  assumes "phys_ok ps" and "mm_descs ps = fm_descs ps"
  shows "\<exists>ps'. phys_page_free p ps = Some ps'"
  using free_returns [OF assms(1), of p] free_outside [OF assms(1), of p] assms(2) by force

section \<open>Properties\<close>

text \<open>A small machine used by the examples: three pages from 0x1000, the first one in use.\<close>

definition demo_phys :: phys where
  "demo_phys = \<lparr>freemap = [\<lparr>fm_addr = 0x1000, blocks = 3\<rparr>], fm_descs = 1, mm_descs = 2,
     pmem_bmap = [1]\<rparr>"

lemma demo_pages: "all_pages (freemap demo_phys) = [0x1000, 0x2000, 0x3000]"
  by (simp add: demo_phys_def pages_of_def PAGE_SIZE_def upt_rec)

lemma demo_phys_ok: "phys_ok demo_phys"
  by (simp add: phys_ok_def demo_pages ADDR_MASK_def) (simp add: demo_phys_def)

lemma demo_avail: "avail demo_phys = {0x2000, 0x3000}"
proof -
  have "bm_bit (pmem_bmap demo_phys) k \<longleftrightarrow> k = 0" if "k < 3" for k
    using that by (auto simp: demo_phys_def bm_bit_def bit_1_iff)
  then show ?thesis
    by (auto simp: avail_def demo_pages less_Suc_eq numeral_3_eq_3 nth_Cons')
qed

text \<open>
  C10: As long as some page is available, \<^verbatim>\<open>phys_page_alloc\<close> returns one that was available,
  removes exactly that page from the available ones and keeps the allocator well formed; when
  none is left it returns 0 and changes nothing.
\<close>

theorem phys_page_alloc_spec:
  assumes "phys_ok ps"
  shows "\<exists>p ps'. phys_page_alloc ps = Some (p, ps') \<and> phys_ok ps' \<and>
    (if avail ps = {} then p = 0 \<and> ps' = ps
     else p \<in> avail ps \<and> avail ps' = avail ps - {p} \<and> freemap ps' = freemap ps)"
  using alloc_takes [OF assms] alloc_exhausted [OF assms] assms by auto

theorem phys_page_alloc_spec_witness:
  "\<exists>p ps'. phys_page_alloc demo_phys = Some (p, ps') \<and> p \<in> {0x2000, 0x3000}"
  using phys_page_alloc_spec [OF demo_phys_ok] by (auto simp: demo_avail)

text \<open>
  C11: Freeing a page of the free map makes exactly that page available again and keeps the
  allocator well formed.
\<close>

theorem phys_page_free_spec:
  assumes "phys_ok ps" and "p \<in> set (all_pages (freemap ps))"
  shows "\<exists>ps'. phys_page_free p ps = Some ps' \<and> avail ps' = insert p (avail ps) \<and>
    phys_ok ps' \<and> freemap ps' = freemap ps"
  using free_returns [OF assms] assms(1) by (auto simp: avail_clear phys_ok_bmap)

theorem phys_page_free_spec_witness:
  "\<exists>ps'. phys_page_free 0x1000 demo_phys = Some ps' \<and> 0x1000 \<in> avail ps'"
  using phys_page_free_spec [OF demo_phys_ok, of "0x1000"] by (auto simp: demo_pages)

text \<open>
  Freeing the page that \<^verbatim>\<open>phys_page_alloc\<close> has just returned restores the allocator's state
  bit for bit.
\<close>

theorem phys_alloc_free_round_trip:
  assumes "phys_ok ps" and "avail ps \<noteq> {}"
  shows "\<exists>p ps'. phys_page_alloc ps = Some (p, ps') \<and> phys_page_free p ps' = Some ps"
proof -
  let ?P = "\<lambda>k. \<not> bm_bit (pmem_bmap ps) k" and ?A = "all_pages (freemap ps)"
  obtain k where k: "scan ?P 0 (length ?A) = Some k"
    using assms(2) by (cases "scan ?P 0 (length ?A)") (auto simp: avail_def scan_None_iff)
  let ?ps = "ps\<lparr>pmem_bmap := bm_set (pmem_bmap ps) k\<rparr>"
  have kb: "k < length ?A" "\<not> bm_bit (pmem_bmap ps) k" using k by (auto simp: scan_Some_iff)
  have ok: "phys_ok ?ps" using assms(1) by (simp add: phys_ok_bmap)
  obtain j where "j < length ?A" "?A ! j = ?A ! k"
    "phys_page_free (?A ! k) ?ps = Some (?ps\<lparr>pmem_bmap := bm_clear (pmem_bmap ?ps) j\<rparr>)"
    using free_returns [OF ok, of "?A ! k"] kb by auto
  moreover from this have "j = k" using nth_all_pages_eq [OF assms(1)] kb by blast
  moreover have "k < 32 * length (pmem_bmap ps)" using kb(1) assms(1) by (simp add: phys_ok_def)
  ultimately show ?thesis
    using k kb(2) by (simp add: phys_page_alloc_eq [OF assms(1)] bm_clear_set)
qed

theorem phys_alloc_free_round_trip_witness:
  "\<exists>p ps'. phys_page_alloc demo_phys = Some (p, ps') \<and> phys_page_free p ps' = Some demo_phys"
  using phys_alloc_free_round_trip [OF demo_phys_ok] by (simp add: demo_avail)

text \<open>
  C12: \<^verbatim>\<open>phys_page_free\<close> bounds its outer loop by the number of memory map descriptors: for an
  aligned address outside the free map, and a memory map with more entries than the free map,
  it reads past the end of the free map.
\<close>

theorem phys_page_free_overrun:
  assumes "phys_ok ps" and "p \<notin> set (all_pages (freemap ps))" and "page_aligned p"
    and "fm_descs ps < mm_descs ps"
  shows "phys_page_free p ps = None"
  using assms free_outside by simp

theorem phys_page_free_overrun_witness: "phys_page_free 0x8000 demo_phys = None"
  using phys_page_free_overrun [OF demo_phys_ok, of "0x8000"]
  by (simp add: demo_pages) (simp add: page_aligned_def PAGE_SIZE_def demo_phys_def)

end
