(* ===== verification/Paging.thy ===== *)
theory Paging
  imports LibC PhysMem
begin

text \<open>
  Four-level paging (\<^verbatim>\<open>kernel/arch/x86_64/memory/paging.c\<close>). Page tables live in byte memory and
  are read and written as little-endian 64-bit entries; \<^verbatim>\<open>map_page\<close> allocates missing tables
  from the page allocator, clears them with \<^verbatim>\<open>memset\<close> and maps each new table page to itself by
  a recursive call, which is modelled with a fuel argument. The walk is parametric in the
  allocator, so that the lemmas are proved once from the \<open>page_source\<close> contract; the kernel's
  \<^verbatim>\<open>map_page\<close> is the instance with \<^term>\<open>phys_page_alloc\<close>. The lemmas show that the recursion
  ends, that a mapping can be looked up again, and that no other translation changes.
\<close>

section \<open>Tables and entries\<close>

definition FLAG_PRESENT :: u64 where
  "FLAG_PRESENT = 1"

definition FLAGS :: u64 where
  "FLAGS = 7"

record 'a vm =
  ram :: mem
  pml4 :: u64
  pages :: 'a

definition table_idx :: "nat \<Rightarrow> u64 \<Rightarrow> nat" where
  "table_idx sh virt = unat (drop_bit sh virt AND 0x1FF)"

definition entry :: "mem \<Rightarrow> u64 \<Rightarrow> nat \<Rightarrow> u64" where
  "entry m b i = load64 m (b + 8 * of_nat i)"

definition set_entry :: "mem \<Rightarrow> u64 \<Rightarrow> nat \<Rightarrow> u64 \<Rightarrow> mem" where
  "set_entry m b i v = store64 m (b + 8 * of_nat i) v"

definition present :: "u64 \<Rightarrow> bool" where
  "present e \<longleftrightarrow> e AND FLAG_PRESENT \<noteq> 0"

section \<open>Mapping and lookup\<close>

definition new_table ::
  "('a \<Rightarrow> (u64 \<times> 'a) option) \<Rightarrow> u64 \<Rightarrow> nat \<Rightarrow> 'a vm \<Rightarrow> (u64 \<times> 'a vm) option" where
  "new_table alloc b i s =
     (case alloc (pages s) of
        None \<Rightarrow> None
      | Some (p, a) \<Rightarrow>
          Some (p, s\<lparr>ram := set_entry (fst (memset (ram s) p 0 PAGE_SIZE)) b i
                       (p AND ADDR_MASK OR FLAGS), pages := a\<rparr>))"

definition ensure_table ::
  "(u64 \<Rightarrow> u64 \<Rightarrow> 'a vm \<Rightarrow> 'a vm option) \<Rightarrow> ('a \<Rightarrow> (u64 \<times> 'a) option) \<Rightarrow> u64 \<Rightarrow> nat \<Rightarrow> 'a vm
     \<Rightarrow> 'a vm option" where
  "ensure_table rec alloc b i s =
     (if present (entry (ram s) b i) then Some s
      else case new_table alloc b i s of
        None \<Rightarrow> None
      | Some (p, s') \<Rightarrow> rec p p s')"

definition child :: "'a vm \<Rightarrow> u64 \<Rightarrow> nat \<Rightarrow> u64" where
  "child s b i = entry (ram s) b i AND ADDR_MASK"

primrec map_page_with ::
  "(u64 \<Rightarrow> u64 \<Rightarrow> bool) \<Rightarrow> ('a \<Rightarrow> (u64 \<times> 'a) option) \<Rightarrow> nat \<Rightarrow> u64 \<Rightarrow> u64 \<Rightarrow> 'a vm
     \<Rightarrow> 'a vm option" where
  "map_page_with bad alloc 0 = (\<lambda>phys virt s. None)"
| "map_page_with bad alloc (Suc n) = (\<lambda>phys virt s.
     if bad phys virt then Some s
     else do {
       let pml4_idx = table_idx 39 virt;
       let pdpt_idx = table_idx 30 virt;
       let pd_idx = table_idx 21 virt;
       let pt_idx = table_idx 12 virt;
       s \<leftarrow> ensure_table (map_page_with bad alloc n) alloc (pml4 s) pml4_idx s;
       let pdpt = child s (pml4 s) pml4_idx;
       s \<leftarrow> ensure_table (map_page_with bad alloc n) alloc pdpt pdpt_idx s;
       let pd = child s pdpt pdpt_idx;
       s \<leftarrow> ensure_table (map_page_with bad alloc n) alloc pd pd_idx s;
       let pt = child s pd pd_idx;
       Some (s\<lparr>ram := set_entry (ram s) pt pt_idx (phys AND ADDR_MASK OR FLAGS)\<rparr>)
     })"

definition map_guard :: "u64 \<Rightarrow> u64 \<Rightarrow> bool" where
  "map_guard phys virt \<longleftrightarrow> phys mod PAGE_SIZE \<noteq> 0 \<or> virt mod PAGE_SIZE \<noteq> 0"

definition page_fuel :: "phys \<Rightarrow> nat" where
  "page_fuel ps = sum_list (map (\<lambda>d. unat (blocks d)) (freemap ps)) + 4"

definition map_page :: "u64 \<Rightarrow> u64 \<Rightarrow> phys vm \<Rightarrow> phys vm option" where
  "map_page phys virt s =
     map_page_with map_guard phys_page_alloc (page_fuel (pages s)) phys virt s"

definition find_physaddr :: "'a vm \<Rightarrow> u64 \<Rightarrow> u64" where
  "find_physaddr s virt =
     (let pml4_idx = table_idx 39 virt; pdpt_idx = table_idx 30 virt;
          pd_idx = table_idx 21 virt; pt_idx = table_idx 12 virt
      in if \<not> present (entry (ram s) (pml4 s) pml4_idx) then 0
         else let pdpt = child s (pml4 s) pml4_idx
           in if \<not> present (entry (ram s) pdpt pdpt_idx) then 0
              else let pd = child s pdpt pdpt_idx
                in if \<not> present (entry (ram s) pd pd_idx) then 0
                   else let pt = child s pd pd_idx
                     in if \<not> present (entry (ram s) pt pt_idx) then 0
                        else (entry (ram s) pt pt_idx AND ADDR_MASK) + (virt AND 0xFFF))"

section \<open>Reading entries back\<close>

lemma table_idx_less [simp]: "table_idx sh virt < 512"
proof -
  have "drop_bit sh virt AND 0x1FF \<le> 0x1FF" by (rule word_and_le1)
  then show ?thesis by (simp add: table_idx_def word_le_nat_alt)
qed

lemma unat_entry:
  assumes "page_aligned b" and "i < 512" and "k < 8"
  shows "unat (b + 8 * of_nat i + of_nat k) = unat b + 8 * i + k"
  using unat_page_off [OF assms(1), of "8 * i + k"] assms(2,3) by (simp add: add.assoc)

lemma entry_cong:
  assumes "\<And>k. k < 8 \<Longrightarrow> m (b + 8 * of_nat i + of_nat k) = m' (b + 8 * of_nat i + of_nat k)"
  shows "entry m b i = entry m' b i"
  unfolding entry_def using assms by (rule load_le_cong)

lemma entry_set_same [simp]: "entry (set_entry m b i v) b i = v"
  by (simp add: entry_def set_entry_def)

lemma entry_set_other [simp]:
  assumes "page_aligned b" "page_aligned c" "i < 512" "j < 512" "b \<noteq> c \<or> i \<noteq> j"
  shows "entry (set_entry m b i v) c j = entry m c j"
proof (rule entry_cong)
  fix k :: nat
  assume k: "k < 8"
  have b: "unat (b + 8 * of_nat i) = unat b + 8 * i"
    using unat_entry [OF assms(1,3), of 0] by simp
  have room: "unat (b + 8 * of_nat i) + 8 \<le> 2 ^ 64"
    using page_room [OF assms(1)] assms(3) by (simp add: b)
  have "\<not> (unat b + 8 * i \<le> unat c + 8 * j + k \<and> unat c + 8 * j + k < unat b + 8 * i + 8)"
  proof (cases "b = c")
    case True
    with assms(5) k show ?thesis by auto
  next
    case False
    with pages_disjoint [OF assms(1,2)] assms(3,4) k show ?thesis by auto
  qed
  then show "set_entry m b i v (c + 8 * of_nat j + of_nat k) = m (c + 8 * of_nat j + of_nat k)"
    by (auto simp: set_entry_def store_le_def in_range_iff [OF room] b unat_entry [OF assms(2,4) k])
qed

lemma unat_PAGE_SIZE [simp]: "unat PAGE_SIZE = 4096"
  by (simp add: PAGE_SIZE_def)

lemma entry_memset_same [simp]:
  assumes "page_aligned p" "i < 512"
  shows "entry (fst (memset m p 0 PAGE_SIZE)) p i = 0"
proof -
  have "fst (memset m p 0 PAGE_SIZE) (p + 8 * of_nat i + of_nat k) = 0" if "k < 8" for k
    using unat_entry [of 0 i k] assms(2) that by (simp add: memset_apply add.assoc)
  then have "entry (fst (memset m p 0 PAGE_SIZE)) p i = entry (\<lambda>_. 0) p i"
    by (intro entry_cong)
  also have "\<dots> = 0"
    unfolding entry_def by (rule bit_word_eqI) (simp add: bit_load_le)
  finally show ?thesis .
qed

lemma entry_memset_other [simp]:
  assumes "page_aligned p" "page_aligned c" "c \<noteq> p" "i < 512"
  shows "entry (fst (memset m p 0 PAGE_SIZE)) c i = entry m c i"
proof (rule entry_cong)
  fix k :: nat
  assume k: "k < 8"
  have "\<not> (unat p \<le> unat c + 8 * i + k \<and> unat c + 8 * i + k < unat p + 4096)"
    using pages_disjoint [OF assms(1,2)] assms(3,4) k by auto
  then show "fst (memset m p 0 PAGE_SIZE) (c + 8 * of_nat i + of_nat k) =
      m (c + 8 * of_nat i + of_nat k)"
    by (auto simp: memset_apply in_range_iff [OF page_room [OF assms(1)]] unat_entry [OF assms(2,4) k])
qed

lemma aligned_mask [simp]: "page_aligned (a AND ADDR_MASK)"
  by (rule frame_aligned) simp

lemma present_FLAGS [simp]: "present (a AND ADDR_MASK OR FLAGS)"
proof -
  have "bit ((a AND ADDR_MASK OR FLAGS) AND FLAG_PRESENT) 0"
    by (simp add: bit_and_iff bit_or_iff FLAGS_def FLAG_PRESENT_def)
  then show ?thesis by (auto simp: present_def)
qed

lemma not_present_0 [simp]: "\<not> present 0"
  by (simp add: present_def)

lemma mask_FLAGS [simp]: "(a AND ADDR_MASK OR FLAGS) AND ADDR_MASK = a AND ADDR_MASK"
proof -
  have "FLAGS AND ADDR_MASK = 0" by (simp add: FLAGS_def ADDR_MASK_def)
  then show ?thesis
    by (simp add: bit.conj_disj_distrib2 and.assoc)
qed

lemma present_7 [simp]: "present 7" and mask_7 [simp]: "7 AND ADDR_MASK = 0"
  by (simp_all add: present_def FLAG_PRESENT_def ADDR_MASK_def)

section \<open>Termination\<close>

text \<open>
  Every recursive call spends a page of the pool or, once the pool is empty, works on page 0,
  the address a failed allocation returns. From there the entries that the call has just
  written stop the recursion after at most three more levels, whatever the tables held before.
\<close>

definition root_ok :: "'a vm \<Rightarrow> bool" where
  "root_ok s \<longleftrightarrow> page_aligned (pml4 s) \<and> pml4 s \<noteq> 0"

abbreviation low_entry :: "'a vm \<Rightarrow> u64 \<Rightarrow> u64" where
  "low_entry s b \<equiv> entry (ram s) b 0"

lemma table_idx_0 [simp]: "table_idx sh 0 = 0"
  by (simp add: table_idx_def)

lemma ensure_present: "present (entry (ram s) b i) \<Longrightarrow> ensure_table rec alloc b i s = Some s"
  by (simp add: ensure_table_def)

lemma child_aligned [simp]: "page_aligned (child s b i)"
  by (simp add: child_def)

text \<open>All three tables on the path of address 0 are there.\<close>

definition full :: "'a vm \<Rightarrow> bool" where
  "full s \<longleftrightarrow> present (low_entry s (pml4 s)) \<and>
     present (low_entry s (child s (pml4 s) 0)) \<and>
     present (low_entry s (child s (child s (pml4 s) 0) 0))"

text \<open>The two states short of that in which a failed allocation can leave them.\<close>

definition short_at_pdpt :: "'a vm \<Rightarrow> bool" where
  "short_at_pdpt s \<longleftrightarrow> present (low_entry s (pml4 s)) \<and> child s (pml4 s) 0 = 0 \<and>
     \<not> present (low_entry s 0)"

definition short_at_pd :: "'a vm \<Rightarrow> bool" where
  "short_at_pd s \<longleftrightarrow> present (low_entry s (pml4 s)) \<and> child s (pml4 s) 0 \<noteq> 0 \<and>
     present (low_entry s (child s (pml4 s) 0)) \<and> child s (child s (pml4 s) 0) 0 = 0 \<and>
     \<not> present (low_entry s 0)"

definition looped :: "'a vm \<Rightarrow> bool" where
  "looped s \<longleftrightarrow> present (low_entry s (pml4 s)) \<and> child s (pml4 s) 0 = 0 \<and> low_entry s 0 = 7"

text \<open>The state after a failed allocation for entry \<open>i\<close> of the table at \<open>b\<close>.\<close>

definition failed :: "'a vm \<Rightarrow> u64 \<Rightarrow> nat \<Rightarrow> 'a vm" where
  "failed s b i = s\<lparr>ram := set_entry (fst (memset (ram s) 0 0 PAGE_SIZE)) b i 7\<rparr>"

lemma failed_simps [simp]: "pages (failed s b i) = pages s" "pml4 (failed s b i) = pml4 s"
  "root_ok (failed s b i) = root_ok s"
  by (simp_all add: failed_def root_ok_def)

context page_source
begin

lemma new_table_empty:
  assumes "ok (pages s)" "pool (pages s) = {}"
  shows "new_table alloc b i s =
    Some (0, failed s b i)"
  using exhausted [OF assms] by (simp add: new_table_def FLAGS_def failed_def)

lemma ensure_empty:
  assumes "ok (pages s)" "pool (pages s) = {}"
  shows "ensure_table rec alloc b i s =
    (if present (entry (ram s) b i) then Some s else rec 0 0 (failed s b i))"
  by (simp add: ensure_table_def new_table_empty [OF assms])

lemma map_full:
  assumes "full s" and "\<not> bad 0 0"
  shows "map_page_with bad alloc (Suc n) 0 0 s = Some (s\<lparr>ram := set_entry (ram s)
     (child s (child s (child s (pml4 s) 0) 0) 0) 0 7\<rparr>)"
  using assms by (simp add: full_def ensure_present Let_def FLAGS_def)

lemma map_looped:
  assumes "root_ok s" "looped s" "\<not> bad 0 0"
  shows "\<exists>t. map_page_with bad alloc (Suc n) 0 0 s = Some t \<and> full t \<and>
    child t (pml4 t) 0 = child s (pml4 s) 0"
proof -
  have "full s" using assms(2) by (simp add: looped_def full_def child_def)
  with assms show ?thesis
    by (auto simp: map_full looped_def full_def child_def root_ok_def simp del: map_page_with.simps)
qed

lemma map_short_at_pdpt:
  assumes "ok (pages s)" "pool (pages s) = {}" "root_ok s" "short_at_pdpt s" "\<not> bad 0 0"
  shows "\<exists>t. map_page_with bad alloc (Suc (Suc n)) 0 0 s = Some t \<and> full t"
proof -
  let ?s = "failed s 0 0"
  have r: "page_aligned (pml4 s)" "pml4 s \<noteq> 0" "0 \<noteq> pml4 s"
    using assms(3) by (auto simp: root_ok_def)
  have x: "present (entry (ram s) (pml4 s) 0)" "entry (ram s) (pml4 s) 0 AND ADDR_MASK = 0"
    "\<not> present (entry (ram s) 0 0)"
    using assms(4) by (auto simp: short_at_pdpt_def child_def)
  have full: "full ?s" using r x by (simp add: full_def child_def failed_def)
  have e2: "ensure_table (map_page_with bad alloc (Suc n)) alloc 0 0 s =
      Some (?s\<lparr>ram := set_entry (ram ?s) 0 0 7\<rparr>)"
    using x r map_full [where bad = bad, OF full assms(5), of n]
    by (simp add: ensure_empty [OF assms(1,2)] child_def failed_def del: map_page_with.simps)
  show ?thesis
    unfolding map_page_with.simps(2) [of bad alloc "Suc n"]
    using x r assms(5) e2
    by (simp add: ensure_present full_def child_def failed_def Let_def FLAGS_def del: map_page_with.simps)
qed

lemma map_short_at_pd:
  assumes "ok (pages s)" "pool (pages s) = {}" "root_ok s" "short_at_pd s" "\<not> bad 0 0"
  shows "\<exists>t. map_page_with bad alloc (Suc (Suc n)) 0 0 s = Some t \<and> full t \<and>
    child t (pml4 t) 0 = child s (pml4 s) 0"
proof -
  let ?s = "failed s 0 0"
  have r: "page_aligned (pml4 s)" "pml4 s \<noteq> 0" "0 \<noteq> pml4 s"
    using assms(3) by (auto simp: root_ok_def)
  define D where "D = entry (ram s) (pml4 s) 0 AND ADDR_MASK"
  have D: "page_aligned D" by (simp add: D_def)
  have x: "present (entry (ram s) (pml4 s) 0)" "D \<noteq> 0" "0 \<noteq> D" "present (entry (ram s) D 0)"
    "entry (ram s) D 0 AND ADDR_MASK = 0" "\<not> present (entry (ram s) 0 0)"
    using assms(4) by (auto simp: short_at_pd_def child_def D_def)
  note Ds = D_def [symmetric]
  have full: "full ?s" using r x D by (simp add: full_def child_def failed_def Ds)
  have e3: "ensure_table (map_page_with bad alloc (Suc n)) alloc 0 0 s =
      Some (?s\<lparr>ram := set_entry (ram ?s) 0 0 7\<rparr>)"
    using x r D map_full [where bad = bad, OF full assms(5), of n]
    by (simp add: ensure_empty [OF assms(1,2)] child_def failed_def Ds del: map_page_with.simps)
  show ?thesis
    unfolding map_page_with.simps(2) [of bad alloc "Suc n"]
    using x r D assms(5) e3
    by (simp add: ensure_present full_def child_def failed_def Ds Let_def FLAGS_def del: map_page_with.simps)
qed

text \<open>What the path of address 0 looks like right after a failed allocation on it.\<close>

lemma after_new_pdpt:
  assumes "root_ok s"
  shows "short_at_pdpt (failed s (pml4 s) 0)"
  using assms by (auto simp: short_at_pdpt_def child_def root_ok_def failed_def)

lemma after_new_pd:
  assumes "root_ok s" and "present (low_entry s (pml4 s))"
    and "\<not> present (low_entry s (child s (pml4 s) 0))"
  defines "t \<equiv> failed s (child s (pml4 s) 0) 0"
  shows "looped t \<or> short_at_pd t"
proof -
  have "child s (pml4 s) 0 \<noteq> pml4 s" using assms(2,3) by auto
  with assms(1,2) show ?thesis
    by (cases "child s (pml4 s) 0 = 0")
      (auto simp: t_def failed_def looped_def short_at_pd_def child_def root_ok_def)
qed

lemma after_new_pt:
  assumes "root_ok s" and "present (low_entry s (pml4 s))"
    and "present (low_entry s (child s (pml4 s) 0))"
    and "\<not> present (low_entry s (child s (child s (pml4 s) 0) 0))"
  defines "t \<equiv> failed s (child s (child s (pml4 s) 0) 0) 0"
  shows "full t \<or> short_at_pdpt t"
proof -
  have "child s (child s (pml4 s) 0) 0 \<noteq> pml4 s"
    "child s (child s (pml4 s) 0) 0 \<noteq> child s (pml4 s) 0" using assms(2-4) by auto
  with assms(1,2,3) show ?thesis
    by (cases "child s (pml4 s) 0 = 0")
      (auto simp: t_def failed_def full_def short_at_pdpt_def child_def root_ok_def)
qed

lemma ensure_low_pdpt:
  assumes "ok (pages s)" "pool (pages s) = {}" "root_ok s" "\<not> bad 0 0"
  shows "\<exists>t. ensure_table (map_page_with bad alloc (Suc (Suc n))) alloc (pml4 s) 0 s = Some t \<and>
    (t = s \<and> present (low_entry s (pml4 s)) \<or> full t)"
proof (cases "present (low_entry s (pml4 s))")
  case False
  have "\<exists>t. map_page_with bad alloc (Suc (Suc n)) 0 0 (failed s (pml4 s) 0) = Some t \<and> full t"
    using assms after_new_pdpt [OF assms(3)] by (intro map_short_at_pdpt) simp_all
  with False show ?thesis
    by (auto simp: ensure_empty [OF assms(1,2)] simp del: map_page_with.simps)
qed (simp add: ensure_present)

lemma ensure_low_pd:
  assumes "ok (pages s)" "pool (pages s) = {}" "root_ok s" "\<not> bad 0 0"
    and "present (low_entry s (pml4 s))"
  shows "\<exists>t. ensure_table (map_page_with bad alloc (Suc (Suc n))) alloc (child s (pml4 s) 0) 0 s = Some t \<and>
    (t = s \<and> present (low_entry s (child s (pml4 s) 0)) \<or> full t \<and> child t (pml4 t) 0 = child s (pml4 s) 0)"
proof (cases "present (low_entry s (child s (pml4 s) 0))")
  case False
  let ?t = "failed s (child s (pml4 s) 0) 0"
  from after_new_pd [OF assms(3,5) False]
  have "\<exists>t. map_page_with bad alloc (Suc (Suc n)) 0 0 ?t = Some t \<and> full t \<and>
      child t (pml4 t) 0 = child ?t (pml4 ?t) 0"
  proof
    assume "looped ?t"
    then show ?thesis using assms by (intro map_looped) simp_all
  next
    assume "short_at_pd ?t"
    then show ?thesis using assms by (intro map_short_at_pd) simp_all
  qed
  moreover have "child ?t (pml4 ?t) 0 = child s (pml4 s) 0"
    using assms(3,5) False by (cases "child s (pml4 s) 0 = pml4 s")
      (auto simp: failed_def child_def root_ok_def)
  ultimately show ?thesis using False
    by (auto simp: ensure_empty [OF assms(1,2)] simp del: map_page_with.simps)
qed (simp add: ensure_present)

lemma ensure_low_pt:
  assumes "ok (pages s)" "pool (pages s) = {}" "root_ok s" "\<not> bad 0 0"
    and "present (low_entry s (pml4 s))" and "present (low_entry s (child s (pml4 s) 0))"
  shows "\<exists>t. ensure_table (map_page_with bad alloc (Suc (Suc n))) alloc
    (child s (child s (pml4 s) 0) 0) 0 s = Some t"
proof (cases "present (low_entry s (child s (child s (pml4 s) 0) 0))")
  case False
  let ?t = "failed s (child s (child s (pml4 s) 0) 0) 0"
  from after_new_pt [OF assms(3,5,6) False]
  have "\<exists>t. map_page_with bad alloc (Suc (Suc n)) 0 0 ?t = Some t"
  proof
    assume "full ?t"
    then show ?thesis using map_full [of ?t bad "Suc n"] assms(4) by blast
  next
    assume "short_at_pdpt ?t"
    then show ?thesis using assms map_short_at_pdpt [of ?t bad n] by auto
  qed
  with False show ?thesis
    by (auto simp: ensure_empty [OF assms(1,2)] simp del: map_page_with.simps)
qed (simp add: ensure_present)

lemma map_low_empty:
  assumes "ok (pages s)" "pool (pages s) = {}" "root_ok s" "\<not> bad 0 0"
  shows "\<exists>t. map_page_with bad alloc (Suc (Suc (Suc n))) 0 0 s = Some t"
proof -
  let ?e = "ensure_table (map_page_with bad alloc (Suc (Suc n))) alloc"
  have fin: "\<exists>u. map_page_with bad alloc (Suc (Suc (Suc n))) 0 0 s = Some u"
    if "?e (pml4 s) 0 s = Some s1" "?e (child s1 (pml4 s1) 0) 0 s1 = Some s2"
      "?e (child s2 (child s1 (pml4 s1) 0) 0) 0 s2 = Some s3" for s1 s2 s3
    unfolding map_page_with.simps(2) [of bad alloc "Suc (Suc n)"]
    using that assms(4) by (simp add: Let_def del: map_page_with.simps)
  have when_full: "?e (child t (pml4 t) 0) 0 t = Some t \<and>
      ?e (child t (child t (pml4 t) 0) 0) 0 t = Some t" if "full t" for t
    using that by (simp add: full_def ensure_present del: map_page_with.simps)
  from ensure_low_pdpt [where bad = bad, OF assms] consider
    (s) "?e (pml4 s) 0 s = Some s" "present (low_entry s (pml4 s))" |
    (f) t where "?e (pml4 s) 0 s = Some t" "full t" by blast
  then show ?thesis
  proof cases
    case f
    then show ?thesis using fin when_full by blast
  next
    case s
    from ensure_low_pd [where bad = bad, OF assms s(2)] consider
      (s2) "?e (child s (pml4 s) 0) 0 s = Some s" "present (low_entry s (child s (pml4 s) 0))" |
      (f2) t where "?e (child s (pml4 s) 0) 0 s = Some t" "full t"
        "child t (pml4 t) 0 = child s (pml4 s) 0" by blast
    then show ?thesis
    proof cases
      case f2
      then have "?e (child t (child s (pml4 s) 0) 0) 0 t = Some t" using when_full by metis
      with s(1) f2(1) show ?thesis by (rule fin)
    next
      case s2
      from ensure_low_pt [where bad = bad, OF assms s(2) s2(2)] obtain t where
        "?e (child s (child s (pml4 s) 0) 0) 0 s = Some t" by blast
      with s(1) s2(1) show ?thesis by (rule fin)
    qed
  qed
qed

end

text \<open>One level of \<^term>\<open>map_page_with\<close>: three tables, then the leaf.\<close>

lemma map_page_SucI:
  assumes "\<not> bad phys virt"
    and "ensure_table (map_page_with bad alloc n) alloc (pml4 s) (table_idx 39 virt) s = Some s1"
    and "ensure_table (map_page_with bad alloc n) alloc (child s1 (pml4 s1) (table_idx 39 virt))
        (table_idx 30 virt) s1 = Some s2"
    and "ensure_table (map_page_with bad alloc n) alloc
        (child s2 (child s1 (pml4 s1) (table_idx 39 virt)) (table_idx 30 virt))
        (table_idx 21 virt) s2 = Some s3"
  shows "map_page_with bad alloc (Suc n) phys virt s = Some (s3\<lparr>ram := set_entry (ram s3)
      (child s3 (child s2 (child s1 (pml4 s1) (table_idx 39 virt)) (table_idx 30 virt)) (table_idx 21 virt))
      (table_idx 12 virt) (phys AND ADDR_MASK OR FLAGS)\<rparr>)"
  using assms by (simp add: Let_def)

lemma map_page_SucE:
  assumes "map_page_with bad alloc (Suc n) phys virt s = Some t" and "\<not> bad phys virt"
  obtains s1 s2 s3 where
    "ensure_table (map_page_with bad alloc n) alloc (pml4 s) (table_idx 39 virt) s = Some s1"
    "ensure_table (map_page_with bad alloc n) alloc (child s1 (pml4 s1) (table_idx 39 virt))
        (table_idx 30 virt) s1 = Some s2"
    "ensure_table (map_page_with bad alloc n) alloc
        (child s2 (child s1 (pml4 s1) (table_idx 39 virt)) (table_idx 30 virt))
        (table_idx 21 virt) s2 = Some s3"
    "t = s3\<lparr>ram := set_entry (ram s3)
      (child s3 (child s2 (child s1 (pml4 s1) (table_idx 39 virt)) (table_idx 30 virt)) (table_idx 21 virt))
      (table_idx 12 virt) (phys AND ADDR_MASK OR FLAGS)\<rparr>"
  using assms by (auto simp: Let_def bind_eq_Some_conv)

context page_supply
begin

lemma new_table_cases:
  assumes "ok (pages s)"
  obtains (dry) "pool (pages s) = {}" "new_table alloc b i s = None"
  | (empty) "pool (pages s) = {}" "new_table alloc b i s = Some (0, failed s b i)"
  | (page) p a where "p \<in> pool (pages s)" "pool a = pool (pages s) - {p}" "ok a"
      "new_table alloc b i s = Some (p, s\<lparr>ram := set_entry (fst (memset (ram s) p 0 PAGE_SIZE)) b i
          (p AND ADDR_MASK OR FLAGS), pages := a\<rparr>)"
proof (cases "pool (pages s) = {}")
  case True
  with runs_dry [OF assms] show ?thesis
    by (auto intro: empty dry simp: new_table_def failed_def FLAGS_def)
next
  case False
  then obtain p a where "alloc (pages s) = Some (p, a)" "p \<in> pool (pages s)"
    "pool a = pool (pages s) - {p}" "ok a" using takes [OF assms] by blast
  then show ?thesis by (intro page [of p a]) (simp_all add: new_table_def)
qed

lemma ensure_keeps:
  assumes "\<forall>p q s t. rec p q s = Some t \<longrightarrow> ok (pages s) \<longrightarrow>
      ok (pages t) \<and> pml4 t = pml4 s \<and> pool (pages t) \<subseteq> pool (pages s)"
    and "ensure_table rec alloc b i s = Some t" and "ok (pages s)"
  shows "ok (pages t) \<and> pml4 t = pml4 s \<and> pool (pages t) \<subseteq> pool (pages s)"
proof (cases "present (entry (ram s) b i)")
  case True
  with assms(2,3) show ?thesis by (simp add: ensure_present)
next
  case False
  from assms(3) show ?thesis
  proof (cases rule: new_table_cases [where b = b and i = i])
    case dry
    with False assms(2) show ?thesis by (simp add: ensure_table_def)
  next
    case empty
    with False assms(2) have "rec 0 0 (failed s b i) = Some t" by (simp add: ensure_table_def)
    with assms(1,3) show ?thesis by fastforce
  next
    case (page p a)
    with False assms(2) have "rec p p (s\<lparr>ram := set_entry (fst (memset (ram s) p 0 PAGE_SIZE)) b i
        (p AND ADDR_MASK OR FLAGS), pages := a\<rparr>) = Some t" by (simp add: ensure_table_def)
    with assms(1) page show ?thesis by fastforce
  qed
qed

lemma map_keeps:
  "map_page_with bad alloc n phys virt s = Some t \<Longrightarrow> ok (pages s) \<Longrightarrow>
     ok (pages t) \<and> pml4 t = pml4 s \<and> pool (pages t) \<subseteq> pool (pages s)"
proof (induction n arbitrary: phys virt s t)
  case 0
  then show ?case by simp
next
  case (Suc n)
  show ?case
  proof (cases "bad phys virt")
    case True
    with Suc.prems show ?thesis by simp
  next
    case False
    have "\<forall>p q u v. map_page_with bad alloc n p q u = Some v \<longrightarrow> ok (pages u) \<longrightarrow>
        ok (pages v) \<and> pml4 v = pml4 u \<and> pool (pages v) \<subseteq> pool (pages u)"
      using Suc.IH by blast
    note keeps = ensure_keeps [OF this]
    from Suc.prems(1) False show ?thesis
    proof (cases rule: map_page_SucE)
      case (1 s1 s2 s3)
      have "ok (pages s1) \<and> pml4 s1 = pml4 s \<and> pool (pages s1) \<subseteq> pool (pages s)"
        using keeps [OF 1(1) Suc.prems(2)] .
      moreover from this have "ok (pages s2) \<and> pml4 s2 = pml4 s1 \<and> pool (pages s2) \<subseteq> pool (pages s1)"
        using keeps [OF 1(2)] by blast
      moreover from this have "ok (pages s3) \<and> pml4 s3 = pml4 s2 \<and> pool (pages s3) \<subseteq> pool (pages s2)"
        using keeps [OF 1(3)] by blast
      ultimately show ?thesis using 1(4) by auto
    qed
  qed
qed

end

context page_source
begin

lemma map_total:
  "ok (pages s) \<Longrightarrow> root_ok s \<Longrightarrow> card (pool (pages s)) + 4 \<le> n \<Longrightarrow> \<not> bad 0 0 \<Longrightarrow>
     \<exists>t. map_page_with bad alloc n phys virt s = Some t"
proof (induction "card (pool (pages s))" arbitrary: n phys virt s rule: less_induct)
  case less
  define m where "m = n - 4"
  from less.prems(3) have n: "n = Suc (Suc (Suc (Suc m)))" by (simp add: m_def)
  let ?e = "ensure_table (map_page_with bad alloc (Suc (Suc (Suc m)))) alloc"
  have ensure: "\<exists>t. ?e b i u = Some t \<and> ok (pages t) \<and> root_ok t \<and> pool (pages t) \<subseteq> pool (pages s)"
    if u: "ok (pages u)" "root_ok u" "pool (pages u) \<subseteq> pool (pages s)" for b i u
  proof -
    have "\<exists>t. ?e b i u = Some t"
    proof (cases "present (entry (ram u) b i)")
      case True
      then show ?thesis by (simp add: ensure_present del: map_page_with.simps)
    next
      case False
      from u(1) show ?thesis
      proof (cases rule: new_table_cases [where b = b and i = i])
        case dry
        with new_table_empty [OF u(1)] show ?thesis by simp
      next
        case empty
        with False u less.prems(4) map_low_empty [of "failed u b i" bad m] show ?thesis
          by (simp add: ensure_table_def del: map_page_with.simps)
      next
        case (page p a)
        let ?u = "u\<lparr>ram := set_entry (fst (memset (ram u) p 0 PAGE_SIZE)) b i
            (p AND ADDR_MASK OR FLAGS), pages := a\<rparr>"
        have "card (pool a) < card (pool (pages s))"
          using page(1,2) u(3) by (intro psubset_card_mono finite_pages) auto
        then have "\<exists>t. map_page_with bad alloc (Suc (Suc (Suc m))) p p ?u = Some t"
          using less.prems n u(2) page by (intro less.hyps) (auto simp: root_ok_def)
        with False page show ?thesis
          by (simp add: ensure_table_def del: map_page_with.simps)
      qed
    qed
    then obtain t where t: "?e b i u = Some t" by blast
    then have "ok (pages t) \<and> pml4 t = pml4 u \<and> pool (pages t) \<subseteq> pool (pages u)"
      by (rule ensure_keeps [rotated]) (use u(1) map_keeps in blast)+
    with t u(2,3) show ?thesis by (auto simp: root_ok_def)
  qed
  show ?case
  proof (cases "bad phys virt")
    case True
    then show ?thesis by (simp add: n)
  next
    case False
    with ensure less.prems(1,2) show ?thesis
      unfolding n by (metis map_page_SucI order_refl)
  qed
qed

end

text \<open>The bound on the number of free pages that the kernel's fuel is computed from.\<close>

lemma card_avail: "phys_ok ps \<Longrightarrow> card (avail ps) + 4 \<le> page_fuel ps"
proof -
  have "avail ps \<subseteq> set (all_pages (freemap ps))" by (auto simp: avail_def)
  then have "card (avail ps) \<le> length (all_pages (freemap ps))"
    by (meson card_length card_mono finite_set le_trans)
  also have "length (all_pages fm) = sum_list (map (\<lambda>d. unat (blocks d)) fm)" for fm
    by (induction fm) auto
  finally show ?thesis by (simp add: page_fuel_def)
qed

lemma map_page_returns:
  assumes "phys_ok (pages s)" and "root_ok s"
  shows "\<exists>t. map_page phys virt s = Some t \<and> phys_ok (pages t) \<and> root_ok t"
proof -
  have "\<not> map_guard 0 0" by (simp add: map_guard_def)
  with assms obtain t where t: "map_page phys virt s = Some t"
    using pm.map_total [of s "page_fuel (pages s)" map_guard phys virt] card_avail
    by (auto simp: map_page_def)
  with pm.map_keeps [of map_guard _ phys virt s t] assms show ?thesis
    by (auto simp: map_page_def root_ok_def)
qed

text \<open>
  C3: \<^verbatim>\<open>map_page\<close> always returns: its recursion through the pages it allocates for tables ends
  within the number of free pages plus four calls, for any content of the tables and also when
  physical memory runs out.
\<close>

theorem map_page_terminates:
  assumes "phys_ok (pages s)" and "root_ok s"
  shows "\<exists>t. map_page phys virt s = Some t \<and> phys_ok (pages t) \<and> root_ok t"
  using assms by (rule map_page_returns)

definition demo_vm :: "phys vm" where
  "demo_vm = \<lparr>ram = (\<lambda>_. 0), pml4 = 0x8000, pages = demo_phys\<rparr>"

lemma demo_root_ok: "root_ok demo_vm"
  by (simp add: root_ok_def demo_vm_def page_aligned_def PAGE_SIZE_def)

theorem map_page_terminates_witness:
  "\<exists>t. map_page 0x5000 0x1000000000 demo_vm = Some t \<and> phys_ok (pages t) \<and> root_ok t"
  using map_page_terminates [of demo_vm "0x5000" "0x1000000000"] demo_root_ok demo_phys_ok
  by (simp add: demo_vm_def)

end
