(* ===== verification/PageWalk.thy ===== *)
theory PageWalk
  imports Paging "HOL-Library.Sublist"
begin

text \<open>
  Functional correctness of paging. The tables reachable from the PML4 are described by index
  paths; the invariant says that different paths lead to different table pages and that no
  table page is in the allocator's pool. Under it \<^term>\<open>map_page\<close> changes exactly one
  translation and adds identity translations for the pages it takes for new tables.
\<close>

section \<open>Index paths\<close>

primrec walk :: "mem \<Rightarrow> u64 \<Rightarrow> nat list \<Rightarrow> u64 option" where
  "walk m b [] = Some b"
| "walk m b (i # q) =
     (if present (entry m b i) then walk m (entry m b i AND ADDR_MASK) q else None)"

definition idx_path :: "nat list \<Rightarrow> bool" where
  "idx_path q \<longleftrightarrow> list_all (\<lambda>i. i < 512) q \<and> length q \<le> 3"

definition vpath :: "u64 \<Rightarrow> nat list" where
  "vpath v = [table_idx 39 v, table_idx 30 v, table_idx 21 v]"

definition leaf :: "mem \<Rightarrow> u64 \<Rightarrow> nat list \<Rightarrow> nat \<Rightarrow> u64" where
  "leaf m r q j = (case walk m r q of None \<Rightarrow> 0 | Some b \<Rightarrow> entry m b j)"

definition tables_ok :: "mem \<Rightarrow> u64 \<Rightarrow> u64 set \<Rightarrow> bool" where
  "tables_ok m r P \<longleftrightarrow> page_aligned r \<and>
     (\<forall>p q b. idx_path p \<longrightarrow> idx_path q \<longrightarrow> walk m r p = Some b \<longrightarrow> walk m r q = Some b \<longrightarrow> p = q) \<and>
     (\<forall>p b. idx_path p \<longrightarrow> walk m r p = Some b \<longrightarrow> b \<notin> P)"

lemma walk_append:
  "walk m b (p @ q) = (case walk m b p of None \<Rightarrow> None | Some c \<Rightarrow> walk m c q)"
  by (induction p arbitrary: b) auto

lemma walk_snoc:
  "walk m b (q @ [j]) = (case walk m b q of None \<Rightarrow> None
     | Some c \<Rightarrow> if present (entry m c j) then Some (entry m c j AND ADDR_MASK) else None)"
  by (simp add: walk_append split: option.split)

lemma walk_aligned: "page_aligned r \<Longrightarrow> walk m r q = Some b \<Longrightarrow> page_aligned b"
proof (induction q arbitrary: r)
  case (Cons i q)
  from Cons.prems Cons.IH [OF aligned_mask] show ?case by (auto split: if_splits)
qed simp

lemma idx_path_vpath [simp]: "idx_path (vpath v)" and length_vpath [simp]: "length (vpath v) = 3"
  by (simp_all add: idx_path_def vpath_def)

lemma idx_path_snoc: "idx_path (q @ [j]) \<longleftrightarrow> idx_path q \<and> j < 512 \<and> length q \<le> 2"
  by (auto simp: idx_path_def)

lemma tables_okD:
  assumes "tables_ok m r P"
  shows "page_aligned r"
    and "idx_path p \<Longrightarrow> idx_path q \<Longrightarrow> walk m r p = Some b \<Longrightarrow> walk m r q = Some b \<Longrightarrow> p = q"
    and "idx_path p \<Longrightarrow> walk m r p = Some b \<Longrightarrow> b \<notin> P"
    and "walk m r p = Some b \<Longrightarrow> page_aligned b"
  using assms walk_aligned unfolding tables_ok_def by blast+

lemma find_physaddr_leaf:
  "find_physaddr s v =
     (let e = leaf (ram s) (pml4 s) (vpath v) (table_idx 12 v)
      in if present e then (e AND ADDR_MASK) + (v AND 0xFFF) else 0)"
  by (simp add: find_physaddr_def leaf_def vpath_def child_def Let_def)

section \<open>Linking a new table\<close>

lemma walk_new_table:
  assumes ok: "tables_ok m r P" and p: "idx_path (p @ [i])" "walk m r p = Some b"
    and F: "F \<in> P" "F AND ADDR_MASK = F"
  defines "m' \<equiv> set_entry (fst (memset m F 0 PAGE_SIZE)) b i (F AND ADDR_MASK OR FLAGS)"
  shows "idx_path q \<Longrightarrow> walk m' r q =
    (if prefix (p @ [i]) q then (if q = p @ [i] then Some F else None) else walk m r q)"
proof (induction q rule: rev_induct)
  case Nil
  then show ?case by simp
next
  case (snoc j q)
  note D = tables_okD [OF ok]
  have q: "idx_path q" "j < 512" "length q \<le> 2" using snoc.prems by (auto simp: idx_path_snoc)
  have pi: "idx_path p" "i < 512" using p(1) by (auto simp: idx_path_snoc)
  have b: "page_aligned b" "b \<noteq> F" using D(3,4) p(2) pi F(1) by blast+
  have Fa: "page_aligned F" using F(2) by (rule frame_aligned)
  show ?case
  proof (cases "prefix (p @ [i]) q")
    case True
    then have "prefix (p @ [i]) (q @ [j])" "q @ [j] \<noteq> p @ [i]"
      by (auto dest: prefix_length_le)
    moreover have "entry m' F j = 0"
      using b Fa pi q(2) by (simp add: m'_def)
    ultimately show ?thesis
      using True snoc.IH [OF q(1)] by (auto simp: walk_snoc)
  next
    case False
    then have IH: "walk m' r q = walk m r q" using snoc.IH [OF q(1)] by simp
    show ?thesis
    proof (cases "walk m r q")
      case None
      then have "q \<noteq> p" using p(2) by auto
      then have "q @ [j] \<noteq> p @ [i]" by simp
      with None IH False show ?thesis
        by (auto simp: walk_snoc)
    next
      case (Some c)
      have c: "page_aligned c" "c \<noteq> F" using D(3,4) q(1) Some F(1) by blast+
      have at: "c = b \<longleftrightarrow> q = p" using D(2) q(1) pi(1) Some p(2) by auto
      show ?thesis
      proof (cases "q = p \<and> j = i")
        case True
        with IH Some at F(2) present_FLAGS [of F] mask_FLAGS [of F] show ?thesis
          by (simp add: walk_snoc m'_def)
      next
        case ne: False
        then have "entry m' c j = entry m c j"
          using at b c Fa pi(2) q(2) by (auto simp: m'_def)
        moreover have "\<not> prefix (p @ [i]) (q @ [j])" using ne False by auto
        ultimately show ?thesis using IH Some by (auto simp: walk_snoc)
      qed
    qed
  qed
qed

lemma walk_absent:
  assumes "walk m r p = Some b" "\<not> present (entry m b i)" "prefix (p @ [i]) q"
  shows "walk m r q = None"
proof -
  from assms(3) obtain z where "q = (p @ [i]) @ z" by (auto simp: prefix_def)
  with assms(1,2) show ?thesis by (simp add: walk_append)
qed

lemma new_table_step:
  assumes ok: "tables_ok m r P" and p: "idx_path (p @ [i])" "walk m r p = Some b"
    and absent: "\<not> present (entry m b i)"
    and F: "F \<in> P" "F AND ADDR_MASK = F"
  defines "m' \<equiv> set_entry (fst (memset m F 0 PAGE_SIZE)) b i (F AND ADDR_MASK OR FLAGS)"
  shows "tables_ok m' r (P - {F})"
    and "walk m' r (p @ [i]) = Some F"
    and "idx_path q \<Longrightarrow> walk m r q = Some c \<Longrightarrow> walk m' r q = Some c"
    and "idx_path q \<Longrightarrow> length q = 3 \<Longrightarrow> j < 512 \<Longrightarrow> leaf m' r q j = leaf m r q j"
proof -
  note D = tables_okD [OF ok]
  note W = walk_new_table [OF ok p F, folded m'_def]
  have pi: "idx_path p" "i < 512" "length p \<le> 2" using p(1) by (auto simp: idx_path_snoc)
  have b: "page_aligned b" "b \<noteq> F" using D(3,4) p(2) pi F(1) by blast+
  have Fa: "page_aligned F" using F(2) by (rule frame_aligned)
  have old: "walk m r q = Some c" if "walk m' r q = Some c" "c \<noteq> F" "idx_path q" for q c
    using that W by (auto split: if_splits)
  have new: "q = p @ [i]" if "walk m' r q = Some F" "idx_path q" for q
    using that W D(3) F(1) by (auto split: if_splits)
  show "walk m' r (p @ [i]) = Some F" using W [OF p(1)] by simp
  show "tables_ok m' r (P - {F})"
    unfolding tables_ok_def
    using D(1,3) old new D(2) by (metis DiffE insertI1)
  show "walk m' r q = Some c" if "idx_path q" "walk m r q = Some c"
    using W [OF that(1)] that walk_absent [OF p(2) absent, of q] by auto
  show "leaf m' r q j = leaf m r q j" if q: "idx_path q" "length q = 3" and j: "j < 512"
  proof (cases "prefix (p @ [i]) q")
    case True
    have "entry m' F j = 0" using b Fa pi j by (simp add: m'_def)
    with True W [OF q(1)] walk_absent [OF p(2) absent True] show ?thesis
      by (simp add: leaf_def)
  next
    case False
    show ?thesis
    proof (cases "walk m r q")
      case (Some c)
      then have "c \<noteq> b" using D(2) [OF q(1) pi(1)] p(2) q(2) pi(3) by auto
      moreover have "page_aligned c" "c \<noteq> F" using D(3,4) q(1) Some F(1) by blast+
      ultimately have "entry m' c j = entry m c j"
        using b(1) Fa pi(2) j by (simp add: m'_def)
      with Some False W [OF q(1)] show ?thesis by (simp add: leaf_def)
    qed (use False W [OF q(1)] in \<open>simp add: leaf_def\<close>)
  qed
qed

section \<open>Writing a leaf entry\<close>

lemma leaf_write_step:
  fixes v :: u64
  assumes ok: "tables_ok m r P" and q3: "idx_path q3" "length q3 = 3" "walk m r q3 = Some b"
    and i: "i < 512"
  defines "m' \<equiv> set_entry m b i v"
  shows "tables_ok m' r P"
    and "idx_path q \<Longrightarrow> walk m' r q = walk m r q"
    and "idx_path q \<Longrightarrow> length q = 3 \<Longrightarrow> j < 512 \<Longrightarrow>
      leaf m' r q j = (if q = q3 \<and> j = i then v else leaf m r q j)"
proof -
  note D = tables_okD [OF ok]
  have b: "page_aligned b" using D(4) q3(3) by blast
  have W: "walk m' r q = walk m r q" if "idx_path q" for q
    using that
  proof (induction q rule: rev_induct)
    case (snoc j q)
    then have q: "idx_path q" "j < 512" "length q \<le> 2" by (auto simp: idx_path_snoc)
    have "entry m' c j = entry m c j" if "walk m r q = Some c" for c
    proof -
      have "c \<noteq> b" using D(2) [OF q(1) q3(1) that] q3(2,3) q(3) by auto
      then show ?thesis using D(4) [OF that] b i q(2) by (simp add: m'_def)
    qed
    with snoc.IH [OF q(1)] show ?case by (simp add: walk_snoc split: option.split)
  qed simp
  then show "idx_path q \<Longrightarrow> walk m' r q = walk m r q" .
  show "tables_ok m' r P" using ok W by (simp add: tables_ok_def)
  show "leaf m' r q j = (if q = q3 \<and> j = i then v else leaf m r q j)"
    if q: "idx_path q" "length q = 3" and j: "j < 512"
  proof (cases "walk m r q")
    case None
    with q3(3) W [OF q(1)] show ?thesis by (auto simp: leaf_def)
  next
    case (Some c)
    have "c = b \<longleftrightarrow> q = q3" using D(2) [OF q(1) q3(1) Some] q3(3) Some by auto
    with Some W [OF q(1)] D(4) [OF Some] b i j show ?thesis
      by (auto simp: leaf_def m'_def)
  qed
qed

section \<open>Frames are told apart by their paths\<close>

definition canonical :: "u64 \<Rightarrow> bool" where
  "canonical F \<longleftrightarrow> F AND ADDR_MASK = F \<and> F < 0x1000000000000"

lemma bit_table_idx:
  assumes "k < 9"
  shows "bit (table_idx sh v) k \<longleftrightarrow> bit v (sh + k)"
proof -
  have "(0x1FF :: u64) = mask 9" by (simp add: mask_numeral)
  then have "drop_bit sh v AND 0x1FF = take_bit 9 (drop_bit sh v)"
    by (simp only: take_bit_eq_mask)
  then have "bit (drop_bit sh v AND 0x1FF) k \<longleftrightarrow> bit v (sh + k)"
    using assms by (simp add: bit_take_bit_iff bit_drop_bit_eq)
  then show ?thesis by (simp add: table_idx_def bit_unsigned_iff)
qed

lemma bit_above_48: "v < 0x1000000000000 \<Longrightarrow> 48 \<le> n \<Longrightarrow> \<not> bit (v :: u64) n"
proof -
  assume v: "v < 0x1000000000000" and n: "48 \<le> n"
  from v have "unat v < 2 ^ 48" by (simp add: word_less_nat_alt)
  then have "take_bit 48 (unat v) = unat v" by (simp add: take_bit_nat_eq_self_iff)
  then have "\<not> bit (unat v) n" using n by (metis bit_take_bit_iff not_le)
  then show ?thesis by (auto simp: bit_unsigned_iff dest: bit_imp_le_length)
qed

lemma path_inj:
  assumes "canonical F" "canonical G" "vpath F = vpath G" "table_idx 12 F = table_idx 12 G"
  shows "F = G"
proof (rule bit_word_eqI)
  fix n
  assume "n < LENGTH(64)"
  have low: "\<not> bit X n" if "canonical X" "n < 12" for X
    using that bit_ADDR_MASK [of n] by (metis canonical_def bit_and_iff not_le)
  have high: "\<not> bit X n" if "canonical X" "48 \<le> n" for X
    using that bit_above_48 by (simp add: canonical_def)
  have mid: "bit F (sh + k) = bit G (sh + k)" if "table_idx sh F = table_idx sh G" "k < 9" for sh k
    using that bit_table_idx by metis
  have eqs: "table_idx 39 F = table_idx 39 G" "table_idx 30 F = table_idx 30 G"
    "table_idx 21 F = table_idx 21 G" using assms(3) by (auto simp: vpath_def)
  consider "n < 12" | "12 \<le> n" "n < 21" | "21 \<le> n" "n < 30" | "30 \<le> n" "n < 39"
    | "39 \<le> n" "n < 48" | "48 \<le> n" by linarith
  then show "bit F n = bit G n"
    using low high assms(1,2) mid [OF assms(4), of "n - 12"] mid [OF eqs(1), of "n - 39"]
      mid [OF eqs(2), of "n - 30"] mid [OF eqs(3), of "n - 21"]
    by cases auto
qed

section \<open>What a call may change\<close>

definition self_mapped :: "mem \<Rightarrow> u64 \<Rightarrow> u64 \<Rightarrow> bool" where
  "self_mapped m r F \<longleftrightarrow> leaf m r (vpath F) (table_idx 12 F) = F OR FLAGS"

definition keeps_walks :: "mem \<Rightarrow> mem \<Rightarrow> u64 \<Rightarrow> bool" where
  "keeps_walks m m' r \<longleftrightarrow> (\<forall>q b. idx_path q \<longrightarrow> walk m r q = Some b \<longrightarrow> walk m' r q = Some b)"

definition leaf_kept :: "mem \<Rightarrow> mem \<Rightarrow> u64 \<Rightarrow> u64 set \<Rightarrow> nat list \<Rightarrow> nat \<Rightarrow> bool" where
  "leaf_kept m m' r N q j \<longleftrightarrow> leaf m' r q j = leaf m r q j \<or>
     (\<exists>F \<in> N. vpath F = q \<and> table_idx 12 F = j \<and> self_mapped m' r F)"

definition extends :: "mem \<Rightarrow> mem \<Rightarrow> u64 \<Rightarrow> u64 set \<Rightarrow> bool" where
  "extends m m' r N \<longleftrightarrow> keeps_walks m m' r \<and> (\<forall>F \<in> N. self_mapped m' r F) \<and>
     (\<forall>q j. idx_path q \<longrightarrow> length q = 3 \<longrightarrow> j < 512 \<longrightarrow> leaf_kept m m' r N q j)"

lemma extends_refl [simp]: "extends m m r {}"
  by (simp add: extends_def keeps_walks_def leaf_kept_def)

lemma extends_trans:
  assumes "extends m m' r N" "extends m' m'' r N'" and "\<forall>F \<in> N \<union> N'. canonical F"
  shows "extends m m'' r (N \<union> N')"
proof -
  have still: "self_mapped m'' r F" if "F \<in> N" for F
  proof -
    have "self_mapped m' r F" using that assms(1) by (simp add: extends_def)
    moreover have "leaf_kept m' m'' r N' (vpath F) (table_idx 12 F)"
      using assms(2) by (simp add: extends_def)
    moreover have "G = F" if "G \<in> N'" "vpath G = vpath F" "table_idx 12 G = table_idx 12 F" for G
      using that path_inj assms(3) \<open>F \<in> N\<close> by blast
    ultimately show ?thesis by (auto simp: leaf_kept_def self_mapped_def)
  qed
  have "leaf_kept m m'' r (N \<union> N') q j" if "idx_path q" "length q = 3" "j < 512" for q j
    using that assms(1,2) still unfolding extends_def leaf_kept_def by (metis Un_iff)
  with still assms show ?thesis by (auto simp: extends_def keeps_walks_def)
qed

definition maps :: "mem \<Rightarrow> mem \<Rightarrow> u64 \<Rightarrow> u64 set \<Rightarrow> u64 \<Rightarrow> u64 \<Rightarrow> bool" where
  "maps m m' r N virt e \<longleftrightarrow> keeps_walks m m' r \<and>
     leaf m' r (vpath virt) (table_idx 12 virt) = e \<and>
     (\<forall>F \<in> N. vpath F = vpath virt \<and> table_idx 12 F = table_idx 12 virt \<or> self_mapped m' r F) \<and>
     (\<forall>q j. idx_path q \<longrightarrow> length q = 3 \<longrightarrow> j < 512 \<longrightarrow>
        q = vpath virt \<and> j = table_idx 12 virt \<or> leaf_kept m m' r N q j)"

lemma extends_write:
  assumes "extends m m' r N" "tables_ok m' r P" "walk m' r (vpath virt) = Some b"
  shows "maps m (set_entry m' b (table_idx 12 virt) e) r N virt e"
    and "tables_ok (set_entry m' b (table_idx 12 virt) e) r P"
proof -
  note W = leaf_write_step [OF assms(2) idx_path_vpath length_vpath assms(3) table_idx_less]
  show "tables_ok (set_entry m' b (table_idx 12 virt) e) r P" by (rule W(1))
  have self: "self_mapped (set_entry m' b (table_idx 12 virt) e) r F"
    if "self_mapped m' r F" "\<not> (vpath F = vpath virt \<and> table_idx 12 F = table_idx 12 virt)" for F
    using that by (auto simp: self_mapped_def W(3))
  have "leaf_kept m (set_entry m' b (table_idx 12 virt) e) r N q j"
    if "idx_path q" "length q = 3" "j < 512" "\<not> (q = vpath virt \<and> j = table_idx 12 virt)" for q j
    using that assms(1) self unfolding extends_def leaf_kept_def W(3) [OF that(1-3)] by metis
  moreover have "\<forall>F \<in> N. vpath F = vpath virt \<and> table_idx 12 F = table_idx 12 virt \<or>
      self_mapped (set_entry m' b (table_idx 12 virt) e) r F"
    using assms(1) self unfolding extends_def by blast
  ultimately show "maps m (set_entry m' b (table_idx 12 virt) e) r N virt e"
    using assms(1) unfolding maps_def by (auto simp: extends_def keeps_walks_def W(2,3))
qed

lemma extends_link:
  assumes F: "canonical F" "\<forall>G \<in> N. canonical G \<and> G \<noteq> F"
    and walks: "\<And>q c. idx_path q \<Longrightarrow> walk m r q = Some c \<Longrightarrow> walk m1 r q = Some c"
    and leaves: "\<And>q j. idx_path q \<Longrightarrow> length q = 3 \<Longrightarrow> j < 512 \<Longrightarrow> leaf m1 r q j = leaf m r q j"
    and maps: "maps m1 m' r N F (F OR FLAGS)"
  shows "extends m m' r (insert F N)"
proof -
  have self: "self_mapped m' r G" if "G \<in> insert F N" for G
  proof (cases "G = F")
    case True
    with maps show ?thesis by (simp add: maps_def self_mapped_def)
  next
    case False
    with that F path_inj have "\<not> (vpath G = vpath F \<and> table_idx 12 G = table_idx 12 F)" by blast
    with that False maps show ?thesis unfolding maps_def by blast
  qed
  have "leaf_kept m m' r (insert F N) q j" if "idx_path q" "length q = 3" "j < 512" for q j
  proof (cases "q = vpath F \<and> j = table_idx 12 F")
    case True
    with self show ?thesis unfolding leaf_kept_def by blast
  next
    case False
    with that maps have "leaf_kept m1 m' r N q j" unfolding maps_def by blast
    with leaves [OF that] show ?thesis by (auto simp: leaf_kept_def)
  qed
  with self walks maps show ?thesis by (auto simp: extends_def maps_def keeps_walks_def)
qed

section \<open>Correctness of map_page\<close>

context page_supply
begin

lemma pool_canonical: "ok a \<Longrightarrow> F \<in> pool a \<Longrightarrow> canonical F"
  using page_frame by (simp add: canonical_def)

lemma ensure_correct:
  assumes rec: "\<forall>F u v. rec F F u = Some v \<longrightarrow> canonical F \<longrightarrow> ok (pages u) \<longrightarrow>
      tables_ok (ram u) (pml4 u) (pool (pages u)) \<longrightarrow> pool (pages v) \<noteq> {} \<longrightarrow>
      tables_ok (ram v) (pml4 u) (pool (pages v)) \<and>
      maps (ram u) (ram v) (pml4 u) (pool (pages u) - pool (pages v)) F (F OR FLAGS)"
    and keeps: "\<forall>p q u v. rec p q u = Some v \<longrightarrow> ok (pages u) \<longrightarrow>
      ok (pages v) \<and> pml4 v = pml4 u \<and> pool (pages v) \<subseteq> pool (pages u)"
    and e: "ensure_table rec alloc b i s = Some t"
    and s: "ok (pages s)" "tables_ok (ram s) (pml4 s) (pool (pages s))"
    and p: "idx_path (p @ [i])" "walk (ram s) (pml4 s) p = Some b"
    and t: "pool (pages t) \<noteq> {}"
  shows "tables_ok (ram t) (pml4 s) (pool (pages t)) \<and>
    extends (ram s) (ram t) (pml4 s) (pool (pages s) - pool (pages t)) \<and>
    walk (ram t) (pml4 s) (p @ [i]) = Some (child t b i)"
proof (cases "present (entry (ram s) b i)")
  case True
  with e s(2) p(2) show ?thesis by (simp add: ensure_present walk_snoc child_def)
next
  case False
  have "pool (pages t) \<subseteq> pool (pages s)" using ensure_keeps [OF keeps e s(1)] by blast
  with t have ne: "pool (pages s) \<noteq> {}" by blast
  from s(1) show ?thesis
  proof (cases rule: new_table_cases [where b = b and i = i])
    case (page F a)
    let ?m = "set_entry (fst (memset (ram s) F 0 PAGE_SIZE)) b i (F AND ADDR_MASK OR FLAGS)"
    let ?u = "s\<lparr>ram := ?m, pages := a\<rparr>" and ?N = "pool a - pool (pages t)"
    have F: "canonical F" using page(1) s(1) by (simp add: pool_canonical)
    then have Fm: "F AND ADDR_MASK = F" by (simp add: canonical_def)
    note step = new_table_step [OF s(2) p False page(1) Fm]
    have r: "rec F F ?u = Some t" using e False page(4) by (simp add: ensure_table_def)
    have R: "tables_ok (ram t) (pml4 s) (pool (pages t)) \<and>
        maps ?m (ram t) (pml4 s) ?N F (F OR FLAGS)"
      using rec [rule_format, OF r F] page(2,3) step(1) t by simp
    have "pool (pages t) \<subseteq> pool a" using keeps [rule_format, OF r] page(3) by simp
    with page(1,2) have N: "pool (pages s) - pool (pages t) = insert F ?N" by auto
    have "\<forall>G \<in> ?N. canonical G \<and> G \<noteq> F"
      using page(2) s(1) pool_canonical by auto
    then have ext: "extends (ram s) (ram t) (pml4 s) (insert F ?N)"
      using F R by (intro extends_link [where ?m1.0 = ?m]) (simp_all add: step)
    have "walk (ram t) (pml4 s) (p @ [i]) = Some F"
      using R step(2) p(1) by (simp add: maps_def keeps_walks_def)
    moreover have "walk (ram t) (pml4 s) p = Some b"
      using ext p by (simp add: extends_def keeps_walks_def idx_path_snoc)
    ultimately have "walk (ram t) (pml4 s) (p @ [i]) = Some (child t b i)"
      by (auto simp: walk_snoc child_def split: if_splits)
    with R ext N show ?thesis by simp
  qed (use ne in simp_all)
qed

lemma map_correct:
  assumes good: "\<And>F. canonical F \<Longrightarrow> \<not> bad F F"
  shows "map_page_with bad alloc n phys virt s = Some t \<Longrightarrow> \<not> bad phys virt \<Longrightarrow> ok (pages s) \<Longrightarrow>
    tables_ok (ram s) (pml4 s) (pool (pages s)) \<Longrightarrow> pool (pages t) \<noteq> {} \<Longrightarrow>
    tables_ok (ram t) (pml4 s) (pool (pages t)) \<and>
    maps (ram s) (ram t) (pml4 s) (pool (pages s) - pool (pages t)) virt (phys AND ADDR_MASK OR FLAGS)"
proof (induction n arbitrary: phys virt s t)
  case 0
  then show ?case by simp
next
  case (Suc n)
  let ?e = "ensure_table (map_page_with bad alloc n) alloc"
  have rec: "\<forall>F u v. map_page_with bad alloc n F F u = Some v \<longrightarrow> canonical F \<longrightarrow> ok (pages u) \<longrightarrow>
      tables_ok (ram u) (pml4 u) (pool (pages u)) \<longrightarrow> pool (pages v) \<noteq> {} \<longrightarrow>
      tables_ok (ram v) (pml4 u) (pool (pages v)) \<and>
      maps (ram u) (ram v) (pml4 u) (pool (pages u) - pool (pages v)) F (F OR FLAGS)"
    using Suc.IH good by (metis canonical_def)
  have all_keep: "\<forall>p q u v. map_page_with bad alloc n p q u = Some v \<longrightarrow> ok (pages u) \<longrightarrow>
      ok (pages v) \<and> pml4 v = pml4 u \<and> pool (pages v) \<subseteq> pool (pages u)"
    using map_keeps by blast
  note ens = ensure_correct [OF rec all_keep] and keeps = ensure_keeps [OF all_keep]
  from Suc.prems(1,2) show ?case
  proof (cases rule: map_page_SucE)
    case (1 s1 s2 s3)
    let ?r = "pml4 s" and ?i = "table_idx 39 virt" and ?j = "table_idx 30 virt" and ?k = "table_idx 21 virt"
    have k1: "ok (pages s1)" "pml4 s1 = ?r" "pool (pages s1) \<subseteq> pool (pages s)"
      using keeps [OF 1(1) Suc.prems(3)] by auto
    have k2: "ok (pages s2)" "pml4 s2 = ?r" "pool (pages s2) \<subseteq> pool (pages s1)"
      using keeps [OF 1(2) k1(1)] k1(2) by auto
    have k3: "ok (pages s3)" "pml4 s3 = ?r" "pool (pages s3) \<subseteq> pool (pages s2)"
      using keeps [OF 1(3) k2(1)] k2(2) by auto
    have ne: "pool (pages s3) \<noteq> {}" "pool (pages s2) \<noteq> {}" "pool (pages s1) \<noteq> {}"
      using Suc.prems(5) 1(4) k2(3) k3(3) by auto
    let ?a = "child s1 ?r ?i" and ?b = "child s2 (child s1 ?r ?i) ?j"
    have c1: "tables_ok (ram s1) ?r (pool (pages s1))"
      "extends (ram s) (ram s1) ?r (pool (pages s) - pool (pages s1))"
      "walk (ram s1) ?r [?i] = Some ?a"
      using ens [OF 1(1) Suc.prems(3,4), of "[]"] ne by (auto simp: idx_path_def)
    have c2: "tables_ok (ram s2) ?r (pool (pages s2))"
      "extends (ram s1) (ram s2) ?r (pool (pages s1) - pool (pages s2))"
      "walk (ram s2) ?r [?i, ?j] = Some ?b"
      using ens [OF 1(2) k1(1), of "[?i]"] c1 ne k1(2) by (auto simp: idx_path_def)
    have c3: "tables_ok (ram s3) ?r (pool (pages s3))"
      "extends (ram s2) (ram s3) ?r (pool (pages s2) - pool (pages s3))"
      "walk (ram s3) ?r (vpath virt) = Some (child s3 ?b ?k)"
      using ens [OF 1(3) k2(1), of "[?i, ?j]"] c2 ne k1(2) k2(2)
      by (auto simp: idx_path_def vpath_def)
    have can: "\<forall>F \<in> pool (pages s). canonical F" using Suc.prems(3) pool_canonical by blast
    have "extends (ram s) (ram s3) ?r (pool (pages s) - pool (pages s3))"
    proof -
      let ?n1 = "pool (pages s) - pool (pages s1)" and ?n2 = "pool (pages s1) - pool (pages s2)"
        and ?n3 = "pool (pages s2) - pool (pages s3)"
      have "pool (pages s) - pool (pages s3) = ?n1 \<union> ?n2 \<union> ?n3" using k1(3) k2(3) k3(3) by auto
      moreover have "extends (ram s) (ram s3) ?r (?n1 \<union> ?n2 \<union> ?n3)"
        using can k1(3) k2(3) by (intro extends_trans [OF extends_trans [OF c1(2) c2(2)] c3(2)]) auto
      ultimately show ?thesis by simp
    qed
    from extends_write [OF this c3(1,3)] 1(4) show ?thesis
      by (simp add: k1(2))
  qed
qed

end

section \<open>Page offsets\<close>

lemma word_less_4096: "(off :: u64) < PAGE_SIZE \<longleftrightarrow> take_bit 12 off = off"
proof -
  have "take_bit 12 off = off \<longleftrightarrow> unat off < 4096"
    by (simp add: word_unat_eq_iff unsigned_take_bit_eq take_bit_nat_eq_self_iff)
  then show ?thesis by (simp add: word_less_nat_alt PAGE_SIZE_def)
qed

lemma low_bits: "page_aligned v \<Longrightarrow> n < 12 \<Longrightarrow> \<not> bit v n"
proof -
  assume "page_aligned v" and n: "n < 12"
  then have "take_bit 12 v = 0" by (simp add: page_aligned_def mod_page_size)
  then have "\<not> bit (take_bit 12 v) n" by simp
  with n show ?thesis by (simp add: bit_take_bit_iff)
qed

lemma high_bits: "off < PAGE_SIZE \<Longrightarrow> 12 \<le> n \<Longrightarrow> \<not> bit (off :: u64) n"
  unfolding word_less_4096 by (metis bit_take_bit_iff not_le)

lemma page_offset_or:
  assumes "page_aligned v" "off < PAGE_SIZE"
  shows "v + off = v OR off"
proof -
  have "v AND off = 0"
    using low_bits [OF assms(1)] high_bits [OF assms(2)]
    by (intro bit_word_eqI) (metis bit_0_eq bit_and_iff bot_apply bot_bool_def not_le)
  then show ?thesis using word_plus_and_or [of v off] by simp
qed

lemma bit_page_offset:
  assumes "page_aligned v" "off < PAGE_SIZE"
  shows "bit (v + off) n \<longleftrightarrow> (if n < 12 then bit off n else bit v n)"
  using low_bits [OF assms(1), of n] high_bits [OF assms(2), of n]
  by (auto simp: page_offset_or [OF assms] bit_or_iff)

lemma offset_mask:
  assumes "page_aligned v" "off < PAGE_SIZE"
  shows "(v + off) AND 0xFFF = off"
proof -
  have "(0xFFF :: u64) = mask 12" by (simp add: mask_numeral)
  then have "(v + off) AND 0xFFF = take_bit 12 (v + off)" by (simp only: take_bit_eq_mask)
  also have "\<dots> = off"
    using high_bits [OF assms(2)]
    by (intro bit_word_eqI) (auto simp: bit_take_bit_iff bit_page_offset [OF assms] not_less)
  finally show ?thesis .
qed

lemma table_idx_offset:
  assumes "page_aligned v" "off < PAGE_SIZE" "12 \<le> sh"
  shows "table_idx sh (v + off) = table_idx sh v"
proof -
  have "drop_bit sh (v + off) = drop_bit sh v"
    using assms(3) by (intro bit_word_eqI) (simp add: bit_drop_bit_eq bit_page_offset [OF assms(1,2)])
  then show ?thesis by (simp add: table_idx_def)
qed

lemma vpath_offset: "page_aligned v \<Longrightarrow> off < PAGE_SIZE \<Longrightarrow> vpath (v + off) = vpath v"
  by (simp add: vpath_def table_idx_offset)

section \<open>Properties\<close>

definition vm_ok :: "phys vm \<Rightarrow> bool" where
  "vm_ok s \<longleftrightarrow> phys_ok (pages s) \<and> root_ok s \<and> tables_ok (ram s) (pml4 s) (avail (pages s))"

definition same_page :: "u64 \<Rightarrow> u64 \<Rightarrow> bool" where
  "same_page v w \<longleftrightarrow> vpath v = vpath w \<and> table_idx 12 v = table_idx 12 w"

lemma guard_canonical: "canonical F \<Longrightarrow> \<not> map_guard F F"
  using frame_aligned [of F] by (simp add: canonical_def map_guard_def page_aligned_def)

lemma map_page_main:
  assumes "vm_ok s" and "phys AND ADDR_MASK = phys" and "page_aligned virt"
  shows "\<exists>t. map_page phys virt s = Some t \<and> (avail (pages t) \<noteq> {} \<longrightarrow>
    vm_ok t \<and> pml4 t = pml4 s \<and> avail (pages t) \<subseteq> avail (pages s) \<and>
    maps (ram s) (ram t) (pml4 s) (avail (pages s) - avail (pages t)) virt (phys OR FLAGS))"
proof -
  have s: "phys_ok (pages s)" "root_ok s" "tables_ok (ram s) (pml4 s) (avail (pages s))"
    using assms(1) by (auto simp: vm_ok_def)
  obtain t where t: "map_page phys virt s = Some t" "phys_ok (pages t)" "root_ok t"
    using map_page_returns [OF s(1,2)] by blast
  have good: "\<not> map_guard phys virt"
    using assms(2,3) frame_aligned [of phys] by (simp add: map_guard_def page_aligned_def)
  note run = t(1) [unfolded map_page_def]
  have k: "pml4 t = pml4 s" "avail (pages t) \<subseteq> avail (pages s)"
    using pm.map_keeps [OF run s(1)] by auto
  have "vm_ok t \<and> maps (ram s) (ram t) (pml4 s) (avail (pages s) - avail (pages t)) virt (phys OR FLAGS)"
    if "avail (pages t) \<noteq> {}"
    using pm.map_correct [OF guard_canonical run good s(1,3) that] t(2,3) k(1) assms(2)
    by (simp add: vm_ok_def)
  with t(1) k show ?thesis by blast
qed

lemma find_self_mapped:
  assumes "canonical F" "self_mapped (ram t) (pml4 t) F" "same_page v F"
  shows "find_physaddr t v = F + (v AND 0xFFF)"
  using assms present_FLAGS [of F] mask_FLAGS [of F]
  by (simp add: find_physaddr_leaf same_page_def self_mapped_def canonical_def Let_def)

text \<open>
  A machine for the examples: eight pages from 0x1000 of which the first is in use, a PML4 at
  0x80000 and no table yet. Mapping 0x1000000000 needs five table pages, so two stay free.
\<close>

definition small_phys :: "u32 \<Rightarrow> phys" where
  "small_phys w = \<lparr>freemap = [\<lparr>fm_addr = 0x1000, blocks = 8\<rparr>], fm_descs = 1, mm_descs = 2,
     pmem_bmap = [w]\<rparr>"

definition small_vm :: "phys vm" where
  "small_vm = \<lparr>ram = (\<lambda>_. 0), pml4 = 0x80000, pages = small_phys 1\<rparr>"

lemma entry_zero [simp]: "entry (\<lambda>_. 0) b i = 0"
  unfolding entry_def by (rule bit_word_eqI) (simp add: bit_load_le)

lemma page_aligned_numeral: "page_aligned (numeral w) \<longleftrightarrow> numeral w mod (4096 :: u64) = 0"
  by (simp add: page_aligned_def PAGE_SIZE_def)

lemma small_pages:
  "all_pages (freemap (small_phys w)) = [0x1000, 0x2000, 0x3000, 0x4000, 0x5000, 0x6000, 0x7000, 0x8000]"
  by (simp add: small_phys_def pages_of_def PAGE_SIZE_def upt_rec)

lemma small_phys_ok: "phys_ok (small_phys w)"
  by (simp add: phys_ok_def small_pages ADDR_MASK_def) (simp add: small_phys_def)

lemma avail_pages: "avail ps \<subseteq> set (all_pages (freemap ps))"
  by (auto simp: avail_def)

lemma small_root: "(0x80000 :: u64) mod 4096 = 0"
  by simp

lemma small_vm_ok: "vm_ok small_vm"
proof -
  have "q = [] \<and> b = 0x80000" if "walk (\<lambda>_. 0) 0x80000 q = Some b" for q b
    using that by (cases q) auto
  moreover have "0x80000 \<notin> avail (small_phys 1)" using avail_pages [of "small_phys 1"]
    by (auto simp: small_pages)
  ultimately have "tables_ok (\<lambda>_. 0) 0x80000 (avail (small_phys 1))"
    unfolding tables_ok_def by (metis page_aligned_numeral small_root)
  then show ?thesis
    by (simp add: vm_ok_def small_vm_def small_phys_ok root_ok_def page_aligned_numeral)
qed

lemma small_allocs:
  "phys_page_alloc (small_phys 1) = Some (0x2000, small_phys 3)"
  "phys_page_alloc (small_phys 3) = Some (0x3000, small_phys 7)"
  "phys_page_alloc (small_phys 7) = Some (0x4000, small_phys 15)"
  "phys_page_alloc (small_phys 15) = Some (0x5000, small_phys 31)"
  "phys_page_alloc (small_phys 31) = Some (0x6000, small_phys 63)"
  by code_simp+

lemma map_page_with_numeral:
  "map_page_with bad alloc (numeral k) phys virt s =
     (if bad phys virt then Some s
      else do {
       s \<leftarrow> ensure_table (map_page_with bad alloc (pred_numeral k)) alloc (pml4 s) (table_idx 39 virt) s;
       let pdpt = child s (pml4 s) (table_idx 39 virt);
       s \<leftarrow> ensure_table (map_page_with bad alloc (pred_numeral k)) alloc pdpt (table_idx 30 virt) s;
       let pd = child s pdpt (table_idx 30 virt);
       s \<leftarrow> ensure_table (map_page_with bad alloc (pred_numeral k)) alloc pd (table_idx 21 virt) s;
       let pt = child s pd (table_idx 21 virt);
       Some (s\<lparr>ram := set_entry (ram s) pt (table_idx 12 virt) (phys AND ADDR_MASK OR FLAGS)\<rparr>)
      })"
  by (simp add: numeral_eq_Suc Let_def)

lemmas map_page_eval = map_page_with_numeral ensure_table_def new_table_def child_def map_guard_def
  table_idx_def mod_page_size Let_def ADDR_MASK_def FLAGS_def present_def FLAG_PRESENT_def
  page_aligned_numeral

lemma small_map:
  "\<exists>m. map_page 0x1000 0x1000000000 small_vm = Some \<lparr>ram = m, pml4 = 0x80000, pages = small_phys 63\<rparr>"
proof -
  have "page_fuel (small_phys w) = 12" for w by (simp add: page_fuel_def small_phys_def)
  then show ?thesis
    by (simp add: map_page_def small_vm_def small_allocs map_page_eval del: map_page_with.simps)
qed

lemma small_left: "0x8000 \<in> avail (small_phys 63)"
  unfolding avail_def small_pages
  by (rule CollectI, rule exI [of _ 7]) (simp add: small_phys_def bm_bit_def bit_numeral_rec)

lemma small_taken: "0x2000 \<in> avail (pages small_vm) - avail (small_phys 63)"
proof
  show "0x2000 \<in> avail (pages small_vm)"
    unfolding avail_def small_vm_def
    by (rule CollectI, rule exI [of _ 1]) (simp add: small_pages bm_bit_def, simp add: small_phys_def bit_1_iff)
  show "0x2000 \<notin> avail (small_phys 63)"
  proof
    assume "0x2000 \<in> avail (small_phys 63)"
    then obtain k where k: "k < length (all_pages (freemap (small_phys 63)))"
      "all_pages (freemap (small_phys 63)) ! k = 0x2000"
      "\<not> bm_bit (pmem_bmap (small_phys 63)) k" by (auto simp: avail_def)
    have "k = 1"
      using nth_all_pages_eq [OF small_phys_ok [of 63] k(1), of 1] k(2) by (simp add: small_pages)
    with k(3) show False by (simp add: small_phys_def bm_bit_def bit_numeral_rec)
  qed
qed

lemma small_low: "F \<in> avail (small_phys w) \<Longrightarrow> table_idx 30 F = 0"
  using avail_pages [of "small_phys w"] by (auto simp: small_pages table_idx_def)

lemma frame_find:
  assumes "vm_ok s" "pml4 t = pml4 s" "leaf_kept (ram s) (ram t) (pml4 s) N (vpath v) (table_idx 12 v)"
    and "N \<subseteq> avail (pages s)"
  shows "find_physaddr t v = find_physaddr s v \<or>
    (\<exists>F \<in> N. same_page v F \<and> find_physaddr t v = F + (v AND 0xFFF))"
proof -
  from assms(2,3) consider "leaf (ram t) (pml4 t) (vpath v) (table_idx 12 v) =
      leaf (ram s) (pml4 s) (vpath v) (table_idx 12 v)"
    | F where "F \<in> N" "same_page v F" "self_mapped (ram t) (pml4 t) F"
    by (auto simp: leaf_kept_def same_page_def)
  then show ?thesis
  proof cases
    case 1
    then show ?thesis by (simp add: find_physaddr_leaf)
  next
    case (2 F)
    then have "canonical F" using assms(1,4) pm.pool_canonical by (auto simp: vm_ok_def)
    with 2 find_self_mapped show ?thesis by blast
  qed
qed

lemma map_page_result:
  assumes "vm_ok s" and "phys AND ADDR_MASK = phys" and "page_aligned virt"
    and t: "map_page phys virt s = Some t" and ne: "avail (pages t) \<noteq> {}"
  shows "vm_ok t" and "avail (pages t) \<subseteq> avail (pages s)"
    and "off < PAGE_SIZE \<Longrightarrow> find_physaddr t (virt + off) = phys + off"
    and "\<not> same_page v virt \<Longrightarrow> find_physaddr t v = find_physaddr s v \<or>
      (\<exists>F \<in> avail (pages s) - avail (pages t). same_page v F \<and> find_physaddr t v = F + (v AND 0xFFF))"
proof -
  let ?N = "avail (pages s) - avail (pages t)"
  have M: "vm_ok t" "pml4 t = pml4 s" "avail (pages t) \<subseteq> avail (pages s)"
    "maps (ram s) (ram t) (pml4 s) ?N virt (phys OR FLAGS)"
    using map_page_main [OF assms(1-3)] t ne by auto
  then show "vm_ok t" "avail (pages t) \<subseteq> avail (pages s)" by simp_all
  have "leaf (ram t) (pml4 t) (vpath virt) (table_idx 12 virt) = phys OR FLAGS"
    using M by (simp add: maps_def)
  then show "find_physaddr t (virt + off) = phys + off" if "off < PAGE_SIZE"
    using that assms(2,3) present_FLAGS [of phys] mask_FLAGS [of phys]
    by (simp add: find_physaddr_leaf vpath_offset table_idx_offset offset_mask Let_def)
  show "find_physaddr t v = find_physaddr s v \<or>
      (\<exists>F \<in> ?N. same_page v F \<and> find_physaddr t v = F + (v AND 0xFFF))" if "\<not> same_page v virt"
  proof (rule frame_find [OF assms(1) M(2)])
    show "leaf_kept (ram s) (ram t) (pml4 s) ?N (vpath v) (table_idx 12 v)"
      using M(4) that idx_path_vpath length_vpath table_idx_less
      unfolding maps_def same_page_def by blast
  qed auto
qed

text \<open>
  C1: For a well-formed address space \<^verbatim>\<open>map_page(phys, virt)\<close> returns and, unless it used up the
  last free page, keeps the address space well formed and makes \<^verbatim>\<open>find_physaddr\<close> translate
  every byte of the page at \<^verbatim>\<open>virt\<close> to the byte at the same offset of the frame at \<^verbatim>\<open>phys\<close>.
\<close>

theorem map_page_translates:
  assumes "vm_ok s" and "phys AND ADDR_MASK = phys" and "page_aligned virt" and "off < PAGE_SIZE"
  shows "\<exists>t. map_page phys virt s = Some t \<and> (avail (pages t) \<noteq> {} \<longrightarrow>
    vm_ok t \<and> find_physaddr t (virt + off) = phys + off)"
  using map_page_main [OF assms(1-3)] map_page_result(1,3) [OF assms(1-3)] assms(4) by blast

theorem map_page_translates_witness:
  "\<exists>t. map_page 0x1000 0x1000000000 small_vm = Some t \<and> find_physaddr t 0x1000000005 = 0x1005"
  using map_page_translates [OF small_vm_ok, of "0x1000" "0x1000000000" 5] small_map small_left
  by (auto simp: ADDR_MASK_def page_aligned_numeral PAGE_SIZE_def)





end
