(* ===== verification/Heap.thy ===== *)
theory Heap
  imports PageWalk
begin

text \<open>
  The kernel and user heaps of \<^verbatim>\<open>kernel/memory/memory.c\<close>: \<^verbatim>\<open>malloc_heap\<close>, \<^verbatim>\<open>malloc\<close>, \<^verbatim>\<open>free\<close>,
  \<^verbatim>\<open>refresh_freespace\<close>, \<^verbatim>\<open>alloc_and_map\<close> and \<^verbatim>\<open>init_malloc\<close>, over the two tables of free blocks and
  allocations and the address space. The lemmas give the tables' invariant (no byte of a heap
  belongs to two blocks), its preservation by every operation, and what the operations promise
  about addresses and pages.
\<close>

section \<open>State\<close>

definition HEAPS :: nat where "HEAPS = 2"
definition FREE_SPACES :: nat where "FREE_SPACES = 0x200"
definition ALLOCATIONS :: nat where "ALLOCATIONS = 0x200"

definition kernel_heap :: u64 where "kernel_heap = 0x1800000000"
definition kernel_stack :: u64 where "kernel_stack = 0x2000000000"
definition userspace_heap :: u64 where "userspace_heap = 0x100000"
definition userspace_stack :: u64 where "userspace_stack = 0x1000000000"

record mem_t =
  m_addr :: u64
  m_size :: u64

record kstate =
  freespace :: "mem_t list list"
  allocations :: "mem_t list list"
  vm :: "phys vm"

section \<open>Operations\<close>

text \<open>Map pages to a block where no page is mapped already (the loop at the end of \<^verbatim>\<open>malloc_heap\<close>).\<close>

fun map_range :: "phys vm \<Rightarrow> u64 \<Rightarrow> nat \<Rightarrow> phys vm option" where
  "map_range v a 0 = Some v"
| "map_range v a (Suc n) =
     (if find_physaddr v a = 0 then
        (case phys_page_alloc (pages v) of
           None \<Rightarrow> None
         | Some (p, ps) \<Rightarrow>
             (case map_page p a (v\<lparr>pages := ps\<rparr>) of
                None \<Rightarrow> None
              | Some v' \<Rightarrow> map_range v' (a + PAGE_SIZE) n))
      else map_range v (a + PAGE_SIZE) n)"

definition block_pages :: "u64 \<Rightarrow> u64 \<Rightarrow> u64" where
  "block_pages a sz = CEILING (a + sz) PAGE_SIZE - a div PAGE_SIZE"

definition malloc_heap :: "u64 \<Rightarrow> int \<Rightarrow> kstate \<Rightarrow> (u64 \<times> kstate) option" where
  "malloc_heap sz heap s =
     (if heap \<ge> int HEAPS \<or> sz = 0 then Some (0, s)
      else if heap < 0 then None
      else
        let h = nat heap; fs = freespace s ! h in
        case scan (\<lambda>i. sz \<le> m_size (fs ! i)) 0 FREE_SPACES of
          None \<Rightarrow> Some (0, s)
        | Some space \<Rightarrow>
            let a = m_addr (fs ! space);
                s = s\<lparr>freespace := (freespace s)[h := fs[space :=
                      \<lparr>m_addr = m_addr (fs ! space) + sz, m_size = m_size (fs ! space) - sz\<rparr>]]\<rparr>;
                al = allocations s ! h in
            case scan (\<lambda>i. m_size (al ! i) = 0) 0 ALLOCATIONS of
              None \<Rightarrow> Some (0, s)
            | Some alloc \<Rightarrow>
                let s = s\<lparr>allocations := (allocations s)[h := al[alloc :=
                          \<lparr>m_addr = a, m_size = sz\<rparr>]]\<rparr> in
                case map_range (vm s) a (unat (block_pages a sz)) of
                  None \<Rightarrow> None
                | Some v \<Rightarrow> Some (a, s\<lparr>vm := v\<rparr>))"

definition malloc :: "u64 \<Rightarrow> kstate \<Rightarrow> (u64 \<times> kstate) option" where
  "malloc sz s = malloc_heap sz 0 s"

definition heap_of :: "u64 \<Rightarrow> nat option" where
  "heap_of a =
     (if kernel_heap \<le> a \<and> a < kernel_stack then Some 0
      else if userspace_heap \<le> a \<and> a < userspace_stack then Some 1
      else None)"

text \<open>Give a block back to the table of free blocks; \<^term>\<open>None\<close> when the table is full.\<close>

definition return_block :: "u64 \<Rightarrow> u64 \<Rightarrow> mem_t list \<Rightarrow> mem_t list option" where
  "return_block a sz fs =
     (case scan (\<lambda>i. a + sz = m_addr (fs ! i) \<or> a = m_addr (fs ! i) + m_size (fs ! i)) 0 FREE_SPACES of
        Some i \<Rightarrow>
          Some (if a + sz = m_addr (fs ! i)
            then fs[i := \<lparr>m_addr = m_addr (fs ! i) - sz, m_size = m_size (fs ! i) + sz\<rparr>]
            else fs[i := (fs ! i)\<lparr>m_size := m_size (fs ! i) + sz\<rparr>])
      | None \<Rightarrow>
          (case scan (\<lambda>i. m_size (fs ! i) = 0) 0 FREE_SPACES of
             Some i \<Rightarrow> Some (fs[i := \<lparr>m_addr = a, m_size = sz\<rparr>])
           | None \<Rightarrow> None))"

definition page_base :: "u64 \<Rightarrow> u64" where
  "page_base a = (a div PAGE_SIZE) * PAGE_SIZE"

definition free_page_at :: "u64 \<Rightarrow> phys vm \<Rightarrow> phys vm option" where
  "free_page_at a v =
     (case phys_page_free (find_physaddr v a) (pages v) of
        None \<Rightarrow> None
      | Some ps \<Rightarrow> Some (v\<lparr>pages := ps\<rparr>))"

fun free_range :: "u64 \<Rightarrow> nat \<Rightarrow> nat \<Rightarrow> phys vm \<Rightarrow> phys vm option" where
  "free_range a i 0 v = Some v"
| "free_range a i (Suc n) v =
     (case free_page_at (a + of_nat i * PAGE_SIZE) v of
        None \<Rightarrow> None
      | Some v' \<Rightarrow> free_range a (Suc i) n v')"

definition release_pages :: "u64 \<Rightarrow> u64 \<Rightarrow> mem_t list \<Rightarrow> phys vm \<Rightarrow> phys vm option" where
  "release_pages a sz al v = do {
     let npages = block_pages a sz;
     let sused = list_ex (\<lambda>e. page_base a = page_base (m_addr e + m_size e - 1)) al;
     let eused = list_ex (\<lambda>e. page_base (a + sz - 1) = page_base (m_addr e)) al;
     v \<leftarrow> (if \<not> sused then free_page_at a v else Some v);
     v \<leftarrow> (if \<not> eused then free_page_at (a + sz - 1) v else Some v);
     free_range a 1 (unat (npages - 1) - 1) v
   }"

definition free :: "u64 \<Rightarrow> kstate \<Rightarrow> kstate option" where
  "free a s =
     (case heap_of a of
        None \<Rightarrow> Some s
      | Some h \<Rightarrow>
          let al = allocations s ! h in
          (case scan (\<lambda>i. a = m_addr (al ! i)) 0 ALLOCATIONS of
             None \<Rightarrow> Some s
           | Some alloc \<Rightarrow>
               let sz = m_size (al ! alloc);
                   al = al[alloc := \<lparr>m_addr = 0, m_size = 0\<rparr>];
                   s = s\<lparr>allocations := (allocations s)[h := al]\<rparr> in
               (case return_block a sz (freespace s ! h) of
                  None \<Rightarrow> Some s
                | Some fs \<Rightarrow>
                    let s = s\<lparr>freespace := (freespace s)[h := fs]\<rparr> in
                    (case release_pages a sz al (vm s) of
                       None \<Rightarrow> None
                     | Some v \<Rightarrow> Some (s\<lparr>vm := v\<rparr>)))))"

definition refresh_entry :: "nat \<Rightarrow> u64 \<Rightarrow> nat \<Rightarrow> mem_t list \<Rightarrow> mem_t list" where
  "refresh_entry j end_addr k fs =
     (if m_addr (fs ! k) = end_addr
      then let fs = fs[j := (fs ! j)\<lparr>m_size := m_size (fs ! j) + m_size (fs ! k)\<rparr>]
        in fs[k := \<lparr>m_addr = 0, m_size = 0\<rparr>]
      else fs)"

definition refresh_block :: "nat \<Rightarrow> mem_t list \<Rightarrow> mem_t list" where
  "refresh_block j fs =
     (let end_addr = m_addr (fs ! j) + m_size (fs ! j)
      in fold (refresh_entry j end_addr) [0..<FREE_SPACES] fs)"

definition refresh_freespace :: "kstate \<Rightarrow> kstate" where
  "refresh_freespace s =
     s\<lparr>freespace := map (\<lambda>fs. fold refresh_block [0..<FREE_SPACES] fs) (freespace s)\<rparr>"

fun alloc_and_map :: "u64 \<Rightarrow> nat \<Rightarrow> phys vm \<Rightarrow> phys vm option" where
  "alloc_and_map virt 0 v = Some v"
| "alloc_and_map virt (Suc n) v =
     (case phys_page_alloc (pages v) of
        None \<Rightarrow> None
      | Some (p, ps) \<Rightarrow>
          (case map_page p virt (v\<lparr>pages := ps\<rparr>) of
             None \<Rightarrow> None
           | Some v' \<Rightarrow> alloc_and_map (virt + PAGE_SIZE) n v'))"

text \<open>\<^verbatim>\<open>free_pages\<close> follows the entries without masking their flag bits.\<close>

fun free_pages :: "u64 \<Rightarrow> nat \<Rightarrow> phys vm \<Rightarrow> phys vm" where
  "free_pages virt 0 v = v"
| "free_pages virt (Suc n) v =
     (let pdpt = entry (ram v) (pml4 v) (table_idx 39 virt);
          pd = entry (ram v) pdpt (table_idx 30 virt);
          pt = entry (ram v) pd (table_idx 21 virt);
          i = table_idx 12 virt
      in free_pages (virt + PAGE_SIZE) n
           (v\<lparr>ram := set_entry (ram v) pt i (entry (ram v) pt i AND NOT 1)\<rparr>))"

definition init_malloc :: "kstate \<Rightarrow> kstate" where
  "init_malloc s =
     (let f0 = (freespace s ! 0)[0 := \<lparr>m_addr = kernel_heap, m_size = kernel_stack - kernel_heap\<rparr>];
          f1 = (freespace s ! 1)[0 := \<lparr>m_addr = userspace_heap, m_size = userspace_stack - userspace_heap\<rparr>]
      in s\<lparr>freespace := (freespace s)[0 := f0, 1 := f1]\<rparr>)"

section \<open>Blocks\<close>

definition extent :: "mem_t \<Rightarrow> nat set" where
  "extent e = {unat (m_addr e)..<unat (m_addr e) + unat (m_size e)}"

definition cover :: "mem_t list \<Rightarrow> nat \<Rightarrow> nat" where
  "cover xs x = length (filter (\<lambda>e. x \<in> extent e) xs)"

lemma cover_simps [simp]:
  "cover [] x = 0" "cover (e # xs) x = of_bool (x \<in> extent e) + cover xs x"
  "cover (xs @ ys) x = cover xs x + cover ys x"
  by (simp_all add: cover_def)

lemma cover_update:
  "i < length xs \<Longrightarrow>
     cover (xs[i := e]) x + of_bool (x \<in> extent (xs ! i)) = cover xs x + of_bool (x \<in> extent e)"
proof (induction xs arbitrary: i)
  case (Cons y xs)
  then show ?case by (cases i) auto
qed simp

lemma cover_pos: "cover xs x \<noteq> 0 \<longleftrightarrow> (\<exists>e \<in> set xs. x \<in> extent e)"
  by (induction xs) auto

lemma cover_two:
  "i < length xs \<Longrightarrow> j < length xs \<Longrightarrow> i \<noteq> j \<Longrightarrow> x \<in> extent (xs ! i) \<Longrightarrow> x \<in> extent (xs ! j) \<Longrightarrow>
     2 \<le> cover xs x"
proof (induction xs arbitrary: i j)
  case (Cons y xs)
  have pos: "1 \<le> cover xs x" if "k < length xs" "x \<in> extent (xs ! k)" for k
    using that cover_pos [of xs x] nth_mem by fastforce
  show ?case
    using Cons.prems Cons.IH pos by (cases i; cases j) (auto simp: Suc_le_eq numeral_2_eq_2)
qed simp

lemma extent_empty [simp]: "extent \<lparr>m_addr = a, m_size = 0\<rparr> = {}" "m_size e = 0 \<Longrightarrow> extent e = {}"
  by (simp_all add: extent_def)

lemma extent_eta [simp]: "extent \<lparr>m_addr = m_addr e, m_size = m_size e\<rparr> = extent e"
  by (simp add: extent_def)

lemma extent_adjacent:
  assumes "unat (m_addr e) + unat (m_size e) = unat (m_addr f)"
    and "m_addr g = m_addr e" and "unat (m_size g) = unat (m_size e) + unat (m_size f)"
  shows "of_bool (x \<in> extent g) = (of_bool (x \<in> extent e) + of_bool (x \<in> extent f) :: nat)"
  using assms by (auto simp: extent_def)

section \<open>The invariant of the tables\<close>

definition heap_lo :: "nat \<Rightarrow> nat" where
  "heap_lo h = (if h = 0 then unat kernel_heap else unat userspace_heap)"

definition heap_hi :: "nat \<Rightarrow> nat" where
  "heap_hi h = (if h = 0 then unat kernel_stack else unat userspace_stack)"

definition block_in :: "nat \<Rightarrow> mem_t \<Rightarrow> bool" where
  "block_in h e \<longleftrightarrow> m_size e = 0 \<or>
     heap_lo h \<le> unat (m_addr e) \<and> unat (m_addr e) + unat (m_size e) \<le> heap_hi h"

definition blocks_ok :: "nat \<Rightarrow> mem_t list \<Rightarrow> mem_t list \<Rightarrow> bool" where
  "blocks_ok h fs al \<longleftrightarrow> length fs = FREE_SPACES \<and> length al = ALLOCATIONS \<and>
     (\<forall>e \<in> set fs. block_in h e) \<and> (\<forall>e \<in> set al. block_in h e) \<and>
     (\<forall>x. cover fs x + cover al x \<le> 1) \<and> (\<forall>e \<in> set al. m_size e = 0 \<longrightarrow> m_addr e = 0)"

definition heap_ok :: "kstate \<Rightarrow> bool" where
  "heap_ok s \<longleftrightarrow> length (freespace s) = HEAPS \<and> length (allocations s) = HEAPS \<and>
     (\<forall>h < HEAPS. blocks_ok h (freespace s ! h) (allocations s ! h)) \<and>
     phys_ok (pages (vm s)) \<and> root_ok (vm s)"

lemma heap_bounds: "0x100000 \<le> heap_lo h" "heap_hi h \<le> 0x2000000000" "heap_lo h < heap_hi h"
  by (simp_all add: heap_lo_def heap_hi_def kernel_heap_def userspace_heap_def kernel_stack_def
      userspace_stack_def)

lemma blocks_okD:
  assumes "blocks_ok h fs al"
  shows "length fs = FREE_SPACES" "length al = ALLOCATIONS"
    "i < FREE_SPACES \<Longrightarrow> block_in h (fs ! i)" "i < ALLOCATIONS \<Longrightarrow> block_in h (al ! i)"
    "cover fs x + cover al x \<le> 1"
    "i < ALLOCATIONS \<Longrightarrow> m_size (al ! i) = 0 \<Longrightarrow> m_addr (al ! i) = 0"
    "\<forall>e \<in> set fs. block_in h e" "\<forall>e \<in> set al. block_in h e"
    "\<forall>e \<in> set al. m_size e = 0 \<longrightarrow> m_addr e = 0"
  using assms by (auto simp: blocks_ok_def)

lemma blocks_ok_update:
  assumes "blocks_ok h fs al" and "length fs' = FREE_SPACES" and "length al' = ALLOCATIONS"
    and "\<forall>e \<in> set fs'. block_in h e" and "\<forall>e \<in> set al'. block_in h e"
    and "\<forall>e \<in> set al'. m_size e = 0 \<longrightarrow> m_addr e = 0"
    and "\<And>x. cover fs' x + cover al' x \<le> cover fs x + cover al x"
  shows "blocks_ok h fs' al'"
  using assms unfolding blocks_ok_def by (meson order_trans)

lemma set_update_all: "\<forall>e \<in> set xs. P e \<Longrightarrow> P y \<Longrightarrow> \<forall>e \<in> set (xs[i := y]). P e"
  using set_update_subset_insert by fastforce

lemma unat_add_small:
  "unat (a :: u64) + unat b < 2 ^ 64 \<Longrightarrow> unat (a + b) = unat a + unat b"
  by (simp add: unat_word_ariths)

subsection \<open>Taking a block\<close>

definition split_entry :: "u64 \<Rightarrow> mem_t \<Rightarrow> mem_t" where
  "split_entry sz e = \<lparr>m_addr = m_addr e + sz, m_size = m_size e - sz\<rparr>"

lemma split_entry_facts:
  assumes "block_in h e" and "sz \<le> m_size e" and "sz \<noteq> 0"
  shows "block_in h (split_entry sz e)" and "block_in h \<lparr>m_addr = m_addr e, m_size = sz\<rparr>"
    and "of_bool (x \<in> extent e) =
      (of_bool (x \<in> extent \<lparr>m_addr = m_addr e, m_size = sz\<rparr>) + of_bool (x \<in> extent (split_entry sz e)) :: nat)"
proof -
  have sz: "unat sz \<le> unat (m_size e)" "unat sz \<noteq> 0"
    using assms(2,3) by (simp_all add: word_le_nat_alt unat_eq_0)
  then have "m_size e \<noteq> 0" by (metis le_zero_eq unat_0)
  then have e: "heap_lo h \<le> unat (m_addr e)" "unat (m_addr e) + unat (m_size e) \<le> heap_hi h"
    using assms(1) by (auto simp: block_in_def)
  have a: "unat (m_addr e + sz) = unat (m_addr e) + unat sz"
    using e sz heap_bounds [of h] by (intro unat_add_small) simp
  have s: "unat (m_size e - sz) = unat (m_size e) - unat sz"
    using assms(2) by (rule unat_sub)
  show "block_in h (split_entry sz e)" "block_in h \<lparr>m_addr = m_addr e, m_size = sz\<rparr>"
    using e sz a s by (auto simp: block_in_def split_entry_def)
  show "of_bool (x \<in> extent e) =
      (of_bool (x \<in> extent \<lparr>m_addr = m_addr e, m_size = sz\<rparr>) + of_bool (x \<in> extent (split_entry sz e)) :: nat)"
    by (rule extent_adjacent) (use a s sz in \<open>auto simp: split_entry_def\<close>)
qed

lemma blocks_ok_split:
  assumes ok: "blocks_ok h fs al" and i: "i < FREE_SPACES" "sz \<le> m_size (fs ! i)" and sz: "sz \<noteq> 0"
  shows "cover fs x = cover (fs[i := split_entry sz (fs ! i)]) x +
      of_bool (x \<in> extent \<lparr>m_addr = m_addr (fs ! i), m_size = sz\<rparr>)"
    and "blocks_ok h (fs[i := split_entry sz (fs ! i)]) al"
proof -
  note D = blocks_okD [OF ok]
  note E = split_entry_facts [OF D(3) [OF i(1)] i(2) sz]
  show cov: "cover fs x = cover (fs[i := split_entry sz (fs ! i)]) x +
      of_bool (x \<in> extent \<lparr>m_addr = m_addr (fs ! i), m_size = sz\<rparr>)" for x
    using cover_update [of i fs "split_entry sz (fs ! i)" x] i(1) D(1) E(3) [of x] by simp
  show "blocks_ok h (fs[i := split_entry sz (fs ! i)]) al"
  proof (rule blocks_ok_update [OF ok])
    show "cover (fs[i := split_entry sz (fs ! i)]) x + cover al x \<le> cover fs x + cover al x" for x
      using cov [of x] by simp
    show "\<forall>e \<in> set (fs[i := split_entry sz (fs ! i)]). block_in h e"
      using D(7) E(1) by (rule set_update_all)
  qed (use D in simp_all)
qed

lemma blocks_ok_alloc:
  assumes ok: "blocks_ok h fs al" and i: "i < FREE_SPACES" "sz \<le> m_size (fs ! i)" and sz: "sz \<noteq> 0"
    and j: "j < ALLOCATIONS" "m_size (al ! j) = 0"
  shows "blocks_ok h (fs[i := split_entry sz (fs ! i)]) (al[j := \<lparr>m_addr = m_addr (fs ! i), m_size = sz\<rparr>])"
proof -
  let ?e = "\<lparr>m_addr = m_addr (fs ! i), m_size = sz\<rparr>"
  note D = blocks_okD [OF ok]
  note E = split_entry_facts [OF D(3) [OF i(1)] i(2) sz]
  have "cover (fs[i := split_entry sz (fs ! i)]) x + cover (al[j := ?e]) x \<le> cover fs x + cover al x" for x
    using cover_update [of j al ?e x] j D(2) blocks_ok_split(1) [OF ok i sz, of x] by simp
  then show ?thesis
    by (intro blocks_ok_update [OF ok] set_update_all) (use D E sz in simp_all)
qed

subsection \<open>Giving a block back\<close>

text \<open>Adjacency is decided on 64-bit sums, which do not wrap for blocks inside a heap.\<close>

lemma block_sum:
  assumes "block_in h e" and "m_size e \<noteq> 0"
  shows "unat (m_addr e + m_size e) = unat (m_addr e) + unat (m_size e)"
  using assms heap_bounds [of h] by (intro unat_add_small) (simp add: block_in_def)

lemma merge_before:
  assumes e: "block_in h e" and b: "block_in h \<lparr>m_addr = a, m_size = sz\<rparr>" "sz \<noteq> 0"
    and adj: "a + sz = m_addr e"
  shows "block_in h \<lparr>m_addr = m_addr e - sz, m_size = m_size e + sz\<rparr>"
    and "of_bool (x \<in> extent \<lparr>m_addr = m_addr e - sz, m_size = m_size e + sz\<rparr>) =
      (of_bool (x \<in> extent \<lparr>m_addr = a, m_size = sz\<rparr>) + of_bool (x \<in> extent e) :: nat)"
proof -
  have sum: "unat (m_addr e) = unat a + unat sz"
    using block_sum [OF b(1)] b(2) adj by simp
  have diff: "m_addr e - sz = a" using adj by (simp flip: adj)
  have size: "unat (m_size e + sz) = unat (m_size e) + unat sz"
  proof (cases "m_size e = 0")
    case False
    then show ?thesis using e sum heap_bounds [of h]
      by (intro unat_add_small) (simp add: block_in_def)
  qed simp
  have "heap_lo h \<le> unat a" "unat a + unat sz \<le> heap_hi h" using b by (auto simp: block_in_def)
  then show "block_in h \<lparr>m_addr = m_addr e - sz, m_size = m_size e + sz\<rparr>"
    using e sum size by (cases "m_size e = 0") (auto simp: block_in_def diff)
  show "of_bool (x \<in> extent \<lparr>m_addr = m_addr e - sz, m_size = m_size e + sz\<rparr>) =
      (of_bool (x \<in> extent \<lparr>m_addr = a, m_size = sz\<rparr>) + of_bool (x \<in> extent e) :: nat)"
    by (rule extent_adjacent) (simp_all add: diff sum size)
qed

lemma merge_after:
  assumes e: "block_in h e" and b: "block_in h \<lparr>m_addr = a, m_size = sz\<rparr>" "sz \<noteq> 0"
    and adj: "a = m_addr e + m_size e"
  shows "block_in h (e\<lparr>m_size := m_size e + sz\<rparr>)"
    and "of_bool (x \<in> extent (e\<lparr>m_size := m_size e + sz\<rparr>)) =
      (of_bool (x \<in> extent e) + of_bool (x \<in> extent \<lparr>m_addr = a, m_size = sz\<rparr>) :: nat)"
proof -
  have in_heap: "heap_lo h \<le> unat a" "unat a + unat sz \<le> heap_hi h" using b by (auto simp: block_in_def)
  have sum: "unat a = unat (m_addr e) + unat (m_size e)"
    using block_sum [OF e] adj by (cases "m_size e = 0") simp_all
  have size: "unat (m_size e + sz) = unat (m_size e) + unat sz"
    using in_heap sum heap_bounds [of h] by (intro unat_add_small) simp
  show "block_in h (e\<lparr>m_size := m_size e + sz\<rparr>)"
    using e in_heap sum size by (cases "m_size e = 0") (auto simp: block_in_def)
  show "of_bool (x \<in> extent (e\<lparr>m_size := m_size e + sz\<rparr>)) =
      (of_bool (x \<in> extent e) + of_bool (x \<in> extent \<lparr>m_addr = a, m_size = sz\<rparr>) :: nat)"
    by (rule extent_adjacent) (simp_all add: sum size)
qed

definition adjacent :: "u64 \<Rightarrow> u64 \<Rightarrow> mem_t \<Rightarrow> bool" where
  "adjacent a sz e \<longleftrightarrow> a + sz = m_addr e \<or> a = m_addr e + m_size e"

lemma return_block_some_iff:
  "(\<exists>fs'. return_block a sz fs = Some fs') \<longleftrightarrow>
     (\<exists>i < FREE_SPACES. adjacent a sz (fs ! i) \<or> m_size (fs ! i) = 0)"
  unfolding return_block_def adjacent_def
  by (force split: option.splits simp: scan_None_iff scan_Some_iff)

lemma return_block_ok:
  assumes r: "return_block a sz fs = Some fs'" and len: "length fs = FREE_SPACES"
    and fs: "\<forall>e \<in> set fs. block_in h e" and b: "block_in h \<lparr>m_addr = a, m_size = sz\<rparr>" "sz \<noteq> 0"
  shows "length fs' = FREE_SPACES" and "\<forall>e \<in> set fs'. block_in h e"
    and "cover fs' x = cover fs x + of_bool (x \<in> extent \<lparr>m_addr = a, m_size = sz\<rparr>)"
proof -
  have in_i: "block_in h (fs ! i)" if "i < FREE_SPACES" for i using fs len that by simp
  from r obtain i e where e: "fs' = fs[i := e]" "i < FREE_SPACES" "block_in h e"
    "\<And>x. of_bool (x \<in> extent e) =
       (of_bool (x \<in> extent \<lparr>m_addr = a, m_size = sz\<rparr>) + of_bool (x \<in> extent (fs ! i)) :: nat)"
  proof (cases "scan (\<lambda>i. a + sz = m_addr (fs ! i) \<or> a = m_addr (fs ! i) + m_size (fs ! i)) 0 FREE_SPACES")
    case None
    with r obtain i where i: "scan (\<lambda>i. m_size (fs ! i) = 0) 0 FREE_SPACES = Some i"
      "fs' = fs[i := \<lparr>m_addr = a, m_size = sz\<rparr>]"
      by (auto simp: return_block_def split: option.splits)
    show ?thesis using that [OF i(2)] scan_zeroD(1,2) [OF i(1)] b(1) by simp
  next
    case (Some i)
    note i = scan_zeroD(1,2) [OF Some]
    show ?thesis
    proof (cases "a + sz = m_addr (fs ! i)")
      case True
      then have "fs' = fs[i := \<lparr>m_addr = m_addr (fs ! i) - sz, m_size = m_size (fs ! i) + sz\<rparr>]"
        using r Some by (simp add: return_block_def)
      from that [OF this i(1)] merge_before [OF in_i [OF i(1)] b True] show ?thesis by blast
    next
      case False
      then have "fs' = fs[i := (fs ! i)\<lparr>m_size := m_size (fs ! i) + sz\<rparr>]"
        using r Some by (simp add: return_block_def)
      from that [OF this i(1)] merge_after [OF in_i [OF i(1)] b] False i(2) show ?thesis
        by (simp add: add.commute)
    qed
  qed
  show "length fs' = FREE_SPACES" using e len by simp
  show "\<forall>e \<in> set fs'. block_in h e" unfolding e(1) using fs e(3) by (rule set_update_all)
  show "cover fs' x = cover fs x + of_bool (x \<in> extent \<lparr>m_addr = a, m_size = sz\<rparr>)"
    using cover_update [of i fs e x] e(2) e(4) [of x] len by (simp add: e(1))
qed

lemma cover_remove:
  assumes "i < length al"
  shows "cover al x = cover (al[i := \<lparr>m_addr = 0, m_size = 0\<rparr>]) x + of_bool (x \<in> extent (al ! i))"
  using cover_update [OF assms, of "\<lparr>m_addr = 0, m_size = 0\<rparr>" x] by simp

lemma blocks_ok_remove:
  assumes ok: "blocks_ok h fs al" and i: "i < ALLOCATIONS"
  shows "blocks_ok h fs (al[i := \<lparr>m_addr = 0, m_size = 0\<rparr>])"
proof -
  note D = blocks_okD [OF ok]
  show ?thesis
    by (intro blocks_ok_update [OF ok] set_update_all)
      (use D i cover_remove [of i al] in \<open>simp_all add: block_in_def\<close>)
qed

lemma blocks_ok_return:
  assumes ok: "blocks_ok h fs al" and i: "i < ALLOCATIONS" "m_size (al ! i) \<noteq> 0"
    and r: "return_block (m_addr (al ! i)) (m_size (al ! i)) fs = Some fs'"
  shows "blocks_ok h fs' (al[i := \<lparr>m_addr = 0, m_size = 0\<rparr>])"
proof -
  note D = blocks_okD [OF ok]
  have b: "block_in h \<lparr>m_addr = m_addr (al ! i), m_size = m_size (al ! i)\<rparr>"
    using D(4) [OF i(1)] by (simp add: block_in_def)
  note R = return_block_ok [OF r D(1,7) b i(2)]
  have "cover fs' x + cover (al[i := \<lparr>m_addr = 0, m_size = 0\<rparr>]) x \<le> cover fs x + cover al x" for x
    using R(3) [of x] cover_remove [of i al x] i(1) D(2) by simp
  then show ?thesis
    by (intro blocks_ok_update [OF ok] R(1,2) set_update_all) (use D in \<open>simp_all add: block_in_def\<close>)
qed

section \<open>Live blocks and free space\<close>

definition live_of :: "mem_t list \<Rightarrow> u64 \<Rightarrow> u64 option" where
  "live_of al a = map_option (\<lambda>i. m_size (al ! i))
     (scan (\<lambda>i. m_size (al ! i) \<noteq> 0 \<and> m_addr (al ! i) = a) 0 (length al))"

definition live :: "nat \<Rightarrow> kstate \<Rightarrow> u64 \<Rightarrow> u64 option" where
  "live h s = live_of (allocations s ! h)"

definition spare :: "nat \<Rightarrow> kstate \<Rightarrow> nat set" where
  "spare h s = {x. cover (freespace s ! h) x \<noteq> 0}"

definition bytes :: "u64 \<Rightarrow> u64 \<Rightarrow> nat set" where
  "bytes a sz = {unat a..<unat a + unat sz}"

lemma extent_bytes: "extent e = bytes (m_addr e) (m_size e)"
  by (simp add: extent_def bytes_def)

lemma bytes_start: "sz \<noteq> 0 \<Longrightarrow> unat a \<in> bytes a sz"
  by (simp add: bytes_def unat_gt_0)

lemma live_of_None: "live_of al a = None \<longleftrightarrow> (\<forall>i < length al. m_addr (al ! i) = a \<longrightarrow> m_size (al ! i) = 0)"
  by (auto simp: live_of_def scan_None_iff)

lemma live_of_Some:
  assumes "\<And>x. cover al x \<le> 1"
  shows "live_of al a = Some sz \<longleftrightarrow> sz \<noteq> 0 \<and> (\<exists>i < length al. m_addr (al ! i) = a \<and> m_size (al ! i) = sz)"
proof
  assume "live_of al a = Some sz"
  then show "sz \<noteq> 0 \<and> (\<exists>i < length al. m_addr (al ! i) = a \<and> m_size (al ! i) = sz)"
    by (auto simp: live_of_def scan_Some_iff)
next
  assume sz: "sz \<noteq> 0 \<and> (\<exists>i < length al. m_addr (al ! i) = a \<and> m_size (al ! i) = sz)"
  then obtain i where i: "i < length al" "m_addr (al ! i) = a" "m_size (al ! i) = sz" by blast
  with sz obtain k where k: "scan (\<lambda>i. m_size (al ! i) \<noteq> 0 \<and> m_addr (al ! i) = a) 0 (length al) = Some k"
    by (cases "scan (\<lambda>i. m_size (al ! i) \<noteq> 0 \<and> m_addr (al ! i) = a) 0 (length al)")
      (auto simp: scan_None_iff)
  note K = scan_zeroD(1,2) [OF k]
  have "unat a \<in> extent (al ! i)" "unat a \<in> extent (al ! k)"
    using K(2) i sz bytes_start by (auto simp: extent_bytes)
  then have "k = i"
    using cover_two [of i al k] K(1) i(1) assms [of "unat a"] by fastforce
  with k i show "live_of al a = Some sz" by (simp add: live_of_def)
qed

lemma live_of_update:
  assumes "\<And>x. cover al x \<le> 1" and "\<And>x. cover (al[i := e]) x \<le> 1"
    and "i < length al" and "m_size (al ! i) = 0" and "m_size e \<noteq> 0"
  shows "live_of (al[i := e]) = (live_of al)(m_addr e \<mapsto> m_size e)"
proof
  fix a
  show "live_of (al[i := e]) a = ((live_of al)(m_addr e \<mapsto> m_size e)) a"
  proof (cases "a = m_addr e")
    case True
    then have "live_of (al[i := e]) a = Some (m_size e)"
      using assms(3,5) by (intro live_of_Some [OF assms(2), THEN iffD2]) auto
    with True show ?thesis by simp
  next
    case False
    have "live_of (al[i := e]) a = Some sz \<longleftrightarrow> live_of al a = Some sz" for sz
      unfolding live_of_Some [OF assms(1)] live_of_Some [OF assms(2)] using False assms(3,4)
      by (auto simp: nth_list_update)
    with False show ?thesis by (cases "live_of al a") auto
  qed
qed

lemma live_of_remove:
  assumes "\<And>x. cover al x \<le> 1" and "i < length al" and "m_size (al ! i) \<noteq> 0"
  shows "live_of (al[i := \<lparr>m_addr = 0, m_size = 0\<rparr>]) = (live_of al)(m_addr (al ! i) := None)"
proof
  let ?al = "al[i := \<lparr>m_addr = 0, m_size = 0\<rparr>]"
  fix a
  have le: "cover ?al x \<le> 1" for x
    using cover_remove [OF assms(2), of x] assms(1) [of x] by simp
  show "live_of ?al a = ((live_of al)(m_addr (al ! i) := None)) a"
  proof (cases "a = m_addr (al ! i)")
    case True
    have "m_size (?al ! j) = 0" if "j < length al" "m_addr (?al ! j) = a" for j
    proof (rule ccontr)
      assume ne: "m_size (?al ! j) \<noteq> 0"
      then have "j \<noteq> i" "m_size (al ! j) \<noteq> 0" "m_addr (al ! j) = a"
        using that assms(2) by (auto simp: nth_list_update split: if_splits)
      moreover from this have "unat a \<in> extent (al ! j)" "unat a \<in> extent (al ! i)"
        using True assms(3) bytes_start by (auto simp: extent_bytes)
      ultimately show False
        using cover_two [of i al j "unat a"] that(1) assms(1) [of "unat a"] assms(2) by simp
    qed
    with True show ?thesis by (simp add: live_of_None)
  next
    case False
    have "live_of ?al a = Some sz \<longleftrightarrow> live_of al a = Some sz" for sz
      unfolding live_of_Some [OF assms(1)] live_of_Some [OF le] using False assms(2)
      by (auto simp: nth_list_update)
    with False show ?thesis by (cases "live_of al a") auto
  qed
qed

lemma spare_apart:
  assumes "blocks_ok h fs al" and "i < ALLOCATIONS"
  shows "x \<in> extent (al ! i) \<Longrightarrow> cover fs x = 0"
proof -
  assume "x \<in> extent (al ! i)"
  then have "cover al x \<noteq> 0"
    using assms blocks_okD(2) [OF assms(1)] unfolding cover_pos by (metis nth_mem)
  with blocks_okD(5) [OF assms(1), of x] show "cover fs x = 0" by simp
qed

section \<open>malloc and free, branch by branch\<close>

lemma heap_okD:
  assumes "heap_ok s"
  shows "length (freespace s) = HEAPS" "length (allocations s) = HEAPS"
    "h < HEAPS \<Longrightarrow> blocks_ok h (freespace s ! h) (allocations s ! h)"
    "phys_ok (pages (vm s))" "root_ok (vm s)"
  using assms by (auto simp: heap_ok_def)

lemma heap_ok_update:
  assumes "heap_ok s" and "h < HEAPS" and "blocks_ok h fs al" and "phys_ok (pages v)" and "root_ok v"
  shows "heap_ok (s\<lparr>freespace := (freespace s)[h := fs], allocations := (allocations s)[h := al], vm := v\<rparr>)"
  using assms by (auto simp: heap_ok_def nth_list_update)

lemma root_ok_pages [simp]: "root_ok (v\<lparr>pages := ps\<rparr>) = root_ok v"
  by (simp add: root_ok_def)

lemma alloc_returns:
  assumes "phys_ok ps"
  shows "\<exists>p ps'. phys_page_alloc ps = Some (p, ps') \<and> phys_ok ps'"
  using assms alloc_exhausted [OF assms] alloc_takes [OF assms] by (cases "avail ps = {}") auto

lemma map_range_returns:
  "phys_ok (pages v) \<Longrightarrow> root_ok v \<Longrightarrow>
     \<exists>v'. map_range v a n = Some v' \<and> phys_ok (pages v') \<and> root_ok v'"
proof (induction n arbitrary: v a)
  case (Suc n)
  show ?case
  proof (cases "find_physaddr v a = 0")
    case True
    obtain p ps where p: "phys_page_alloc (pages v) = Some (p, ps)" "phys_ok ps"
      using alloc_returns [OF Suc.prems(1)] by blast
    then obtain v' where "map_page p a (v\<lparr>pages := ps\<rparr>) = Some v'" "phys_ok (pages v')" "root_ok v'"
      using map_page_returns [of "v\<lparr>pages := ps\<rparr>" p a] Suc.prems(2) by auto
    with True p Suc.IH show ?thesis by simp
  qed (use Suc in simp)
qed simp

lemma malloc_heap_cases:
  assumes ok: "heap_ok s" and h: "h < HEAPS" and sz: "sz \<noteq> 0"
  obtains
    (nospace) "malloc_heap sz (int h) s = Some (0, s)" "\<forall>i < FREE_SPACES. m_size (freespace s ! h ! i) < sz"
  | (full) i where "i < FREE_SPACES" "sz \<le> m_size (freespace s ! h ! i)"
      "malloc_heap sz (int h) s = Some (0, s\<lparr>freespace := (freespace s)[h :=
         (freespace s ! h)[i := split_entry sz (freespace s ! h ! i)]]\<rparr>)"
      "\<forall>j < ALLOCATIONS. m_size (allocations s ! h ! j) \<noteq> 0"
  | (got) i j v where "i < FREE_SPACES" "sz \<le> m_size (freespace s ! h ! i)"
      "j < ALLOCATIONS" "m_size (allocations s ! h ! j) = 0"
      "map_range (vm s) (m_addr (freespace s ! h ! i))
         (unat (block_pages (m_addr (freespace s ! h ! i)) sz)) = Some v"
      "phys_ok (pages v)" "root_ok v"
      "malloc_heap sz (int h) s = Some (m_addr (freespace s ! h ! i),
         s\<lparr>freespace := (freespace s)[h := (freespace s ! h)[i := split_entry sz (freespace s ! h ! i)]],
           allocations := (allocations s)[h := (allocations s ! h)[j :=
             \<lparr>m_addr = m_addr (freespace s ! h ! i), m_size = sz\<rparr>]], vm := v\<rparr>)"
      "\<forall>k < i. m_size (freespace s ! h ! k) < sz"
proof -
  let ?fs = "freespace s ! h" and ?al = "allocations s ! h"
  have head: "\<not> (int h \<ge> int HEAPS \<or> sz = 0)" "\<not> int h < 0" using h sz by auto
  show thesis
  proof (cases "scan (\<lambda>i. sz \<le> m_size (?fs ! i)) 0 FREE_SPACES")
    case None
    then have "malloc_heap sz (int h) s = Some (0, s)" using head by (simp add: malloc_heap_def)
    with None show thesis by (intro nospace) (simp_all add: scan_None_iff not_le)
  next
    case (Some i)
    note i = scan_zeroD(1,2) [OF Some] and first = Some
    show thesis
    proof (cases "scan (\<lambda>j. m_size (?al ! j) = 0) 0 ALLOCATIONS")
      case None
      then have "malloc_heap sz (int h) s = Some (0, s\<lparr>freespace := (freespace s)[h :=
          ?fs[i := split_entry sz (?fs ! i)]]\<rparr>)"
        using head Some by (simp add: malloc_heap_def split_entry_def Let_def)
      with None show thesis by (intro full [OF i]) (simp_all add: scan_None_iff)
    next
      case (Some j)
      note j = scan_zeroD(1,2) [OF Some]
      obtain v where v: "map_range (vm s) (m_addr (?fs ! i)) (unat (block_pages (m_addr (?fs ! i)) sz)) = Some v"
        "phys_ok (pages v)" "root_ok v"
        using map_range_returns heap_okD(4,5) [OF ok] by blast
      show thesis
        by (rule got [OF i j v])
          (use head first Some v(1) scan_zeroD(3) [OF first] in
            \<open>simp_all add: malloc_heap_def split_entry_def Let_def not_le\<close>)
    qed
  qed
qed

lemma heap_of_iff: "heap_of a = Some h \<longleftrightarrow> h < HEAPS \<and> heap_lo h \<le> unat a \<and> unat a < heap_hi h"
  by (auto simp: heap_of_def heap_lo_def heap_hi_def HEAPS_def kernel_heap_def kernel_stack_def
      userspace_heap_def userspace_stack_def word_le_nat_alt word_less_nat_alt less_2_cases_iff)

lemma live_in_heap:
  assumes "heap_ok s" and "h < HEAPS" and "live h s a = Some sz"
  shows "heap_of a = Some h" "sz \<noteq> 0" "heap_lo h \<le> unat a" "unat a + unat sz \<le> heap_hi h"
proof -
  note D = blocks_okD [OF heap_okD(3) [OF assms(1,2)]]
  from assms(3) obtain i where "i < ALLOCATIONS" "m_addr (allocations s ! h ! i) = a"
    "m_size (allocations s ! h ! i) = sz" "sz \<noteq> 0"
    using D(2) by (auto simp: live_def live_of_def scan_Some_iff)
  with D(4) [of i] have *: "sz \<noteq> 0" "heap_lo h \<le> unat a" "unat a + unat sz \<le> heap_hi h"
    by (auto simp: block_in_def)
  moreover have "0 < unat sz" using *(1) by (simp add: unat_gt_0)
  ultimately show "heap_of a = Some h" "sz \<noteq> 0" "heap_lo h \<le> unat a" "unat a + unat sz \<le> heap_hi h"
    using assms(2) by (auto simp: heap_of_iff)
qed

lemma free_page_keeps:
  assumes "free_page_at a v = Some v'" and "phys_ok (pages v)" and "root_ok v"
  shows "phys_ok (pages v') \<and> root_ok v' \<and> mm_descs (pages v') = mm_descs (pages v) \<and>
    fm_descs (pages v') = fm_descs (pages v) \<and> ram v' = ram v \<and> pml4 v' = pml4 v"
  using assms free_keeps by (fastforce simp: free_page_at_def split: option.splits)

lemma free_range_keeps:
  "free_range a i n v = Some v' \<Longrightarrow> phys_ok (pages v) \<Longrightarrow> root_ok v \<Longrightarrow>
     phys_ok (pages v') \<and> root_ok v' \<and> ram v' = ram v \<and> pml4 v' = pml4 v \<and>
     mm_descs (pages v') = mm_descs (pages v) \<and> fm_descs (pages v') = fm_descs (pages v)"
proof (induction n arbitrary: i v)
  case (Suc n)
  from Suc.prems(1) obtain w where w: "free_page_at (a + of_nat i * PAGE_SIZE) v = Some w"
    "free_range a (Suc i) n w = Some v'" by (auto split: option.splits)
  with Suc.IH [OF w(2)] free_page_keeps [OF w(1)] Suc.prems(2,3) show ?case by simp
qed simp

lemma release_pages_keeps:
  assumes "release_pages a sz al v = Some v'" and "phys_ok (pages v)" and "root_ok v"
  shows "phys_ok (pages v') \<and> root_ok v' \<and> ram v' = ram v \<and> pml4 v' = pml4 v \<and>
    mm_descs (pages v') = mm_descs (pages v) \<and> fm_descs (pages v') = fm_descs (pages v)"
proof -
  have step: "(if b then free_page_at x u else Some u) = Some w \<Longrightarrow> phys_ok (pages u) \<Longrightarrow> root_ok u \<Longrightarrow>
      phys_ok (pages w) \<and> root_ok w \<and> ram w = ram u \<and> pml4 w = pml4 u \<and>
      mm_descs (pages w) = mm_descs (pages u) \<and> fm_descs (pages w) = fm_descs (pages u)" for b x u w
    using free_page_keeps [of x u w] by (simp split: if_splits)
  from assms(1) obtain b c u w n where
    1: "(if b then free_page_at a v else Some v) = Some u" and
    2: "(if c then free_page_at (a + sz - 1) u else Some u) = Some w" and 3: "free_range a 1 n w = Some v'"
    unfolding release_pages_def Let_def bind_eq_Some_conv by blast
  have u: "phys_ok (pages u)" "root_ok u" using step [OF 1 assms(2,3)] by simp_all
  have w: "phys_ok (pages w)" "root_ok w" using step [OF 2 u] by simp_all
  show ?thesis using step [OF 1 assms(2,3)] step [OF 2 u] free_range_keeps [OF 3 w] by simp
qed

lemma free_cases:
  assumes ok: "heap_ok s" and f: "free a s = Some t"
  obtains
    (unknown) "t = s" "\<forall>h < HEAPS. live h s a = None"
  | (known) h i where "h < HEAPS" "heap_of a = Some h" "i < ALLOCATIONS"
      "m_addr (allocations s ! h ! i) = a" "m_size (allocations s ! h ! i) \<noteq> 0"
      "return_block a (m_size (allocations s ! h ! i)) (freespace s ! h) = None"
      "t = s\<lparr>allocations := (allocations s)[h := (allocations s ! h)[i := \<lparr>m_addr = 0, m_size = 0\<rparr>]]\<rparr>"
  | (given) h i fs v where "h < HEAPS" "heap_of a = Some h" "i < ALLOCATIONS"
      "m_addr (allocations s ! h ! i) = a" "m_size (allocations s ! h ! i) \<noteq> 0"
      "return_block a (m_size (allocations s ! h ! i)) (freespace s ! h) = Some fs"
      "phys_ok (pages v)" "root_ok v"
      "t = s\<lparr>freespace := (freespace s)[h := fs],
         allocations := (allocations s)[h := (allocations s ! h)[i := \<lparr>m_addr = 0, m_size = 0\<rparr>]], vm := v\<rparr>"
proof (cases "heap_of a")
  case None
  have "live h s a = None" if "h < HEAPS" for h
    using live_in_heap(1) [OF ok that, of a] None by (cases "live h s a") auto
  with f None unknown show thesis by (simp add: free_def)
next
  case (Some h)
  then have h: "h < HEAPS" "heap_lo h \<le> unat a" by (auto simp: heap_of_iff)
  note D = blocks_okD [OF heap_okD(3) [OF ok h(1)]]
  let ?al = "allocations s ! h"
  show thesis
  proof (cases "scan (\<lambda>i. a = m_addr (?al ! i)) 0 ALLOCATIONS")
    case None
    have "live k s a = None" if "k < HEAPS" for k
    proof (cases "k = h")
      case True
      with None D(2) show ?thesis by (auto simp: live_def live_of_None scan_None_iff)
    next
      case False
      with live_in_heap(1) [OF ok that, of a] Some show ?thesis by (cases "live k s a") auto
    qed
    with f None Some unknown show thesis by (simp add: free_def)
  next
    case i: (Some i)
    have i1: "i < ALLOCATIONS" "m_addr (?al ! i) = a" using scan_zeroD(1,2) [OF i] by auto
    have "a \<noteq> 0" using h(2) heap_bounds(1) [of h] by auto
    then have i2: "m_size (?al ! i) \<noteq> 0" using D(6) [OF i1(1)] i1(2) by auto
    show thesis
    proof (cases "return_block a (m_size (?al ! i)) (freespace s ! h)")
      case None
      with f i Some known [OF h(1) Some i1 i2] show thesis by (simp add: free_def Let_def)
    next
      case (Some fs)
      with f i \<open>heap_of a = Some h\<close> obtain v where
        "release_pages a (m_size (?al ! i)) (?al[i := \<lparr>m_addr = 0, m_size = 0\<rparr>]) (vm s) = Some v"
        "t = s\<lparr>freespace := (freespace s)[h := fs], allocations := (allocations s)[h := ?al[i := \<lparr>m_addr = 0, m_size = 0\<rparr>]],
           vm := v\<rparr>"
        by (auto simp: free_def Let_def split: option.splits)
      with given [OF h(1) \<open>heap_of a = Some h\<close> i1 i2 Some] release_pages_keeps heap_okD(4,5) [OF ok]
      show thesis by blast
    qed
  qed
qed

section \<open>The contract of a heap\<close>

definition took :: "nat \<Rightarrow> u64 \<Rightarrow> u64 \<Rightarrow> kstate \<Rightarrow> kstate \<Rightarrow> bool" where
  "took h a sz s t \<longleftrightarrow> sz \<noteq> 0 \<and> live h s a = None \<and> live h t = (live h s)(a \<mapsto> sz) \<and>
     bytes a sz \<subseteq> spare h s \<and> spare h t = spare h s - bytes a sz"

lemma other_heap:
  assumes "k \<noteq> h"
  shows "live k (s\<lparr>freespace := F[h := fs], allocations := A[h := al], vm := v\<rparr>) = live_of (A ! k)"
    and "spare k (s\<lparr>freespace := F[h := fs], allocations := A[h := al], vm := v\<rparr>) = {x. cover (F ! k) x \<noteq> 0}"
  using assms by (simp_all add: live_def spare_def)

lemma heap_ok_split:
  assumes ok: "heap_ok s" and h: "h < HEAPS" and i: "i < FREE_SPACES" "sz \<le> m_size (freespace s ! h ! i)"
    and sz: "sz \<noteq> 0"
  shows "heap_ok (s\<lparr>freespace := (freespace s)[h := (freespace s ! h)[i := split_entry sz (freespace s ! h ! i)]]\<rparr>)"
  using blocks_ok_split(2) [OF heap_okD(3) [OF ok h] i sz] ok h by (auto simp: heap_ok_def nth_list_update)

lemma malloc_got:
  assumes ok: "heap_ok s" and h: "h < HEAPS" and sz: "sz \<noteq> 0"
    and i: "i < FREE_SPACES" "sz \<le> m_size (freespace s ! h ! i)"
    and j: "j < ALLOCATIONS" "m_size (allocations s ! h ! j) = 0"
    and v: "phys_ok (pages v)" "root_ok v"
    and t: "t = s\<lparr>freespace := (freespace s)[h := (freespace s ! h)[i := split_entry sz (freespace s ! h ! i)]],
         allocations := (allocations s)[h := (allocations s ! h)[j :=
           \<lparr>m_addr = m_addr (freespace s ! h ! i), m_size = sz\<rparr>]], vm := v\<rparr>"
  shows "heap_ok t" and "took h (m_addr (freespace s ! h ! i)) sz s t"
    and "heap_lo h \<le> unat (m_addr (freespace s ! h ! i))"
proof -
  let ?fs = "freespace s ! h" and ?al = "allocations s ! h" and ?a = "m_addr (freespace s ! h ! i)"
  let ?e = "\<lparr>m_addr = ?a, m_size = sz\<rparr>"
  note B = heap_okD(3) [OF ok h] and L = heap_okD(1,2) [OF ok]
  note D = blocks_okD [OF B]
  have B': "blocks_ok h (?fs[i := split_entry sz (?fs ! i)]) (?al[j := ?e])"
    by (rule blocks_ok_alloc [OF B i sz j])
  show "heap_ok t" unfolding t using heap_ok_update [OF ok h B' v] .
  have le: "cover ?al x \<le> 1" "cover (?al[j := ?e]) x \<le> 1" for x
    using D(5) [of x] blocks_okD(5) [OF B', of x] by linarith+
  have live': "live h t = (live h s)(?a \<mapsto> sz)"
    using live_of_update [OF le] j D(2) sz L h by (simp add: t live_def)
  have "block_in h ?e" by (rule split_entry_facts(2) [OF D(3) [OF i(1)] i(2) sz])
  then show lo: "heap_lo h \<le> unat ?a" using sz by (simp add: block_in_def)
  have sub: "x \<in> bytes ?a sz \<Longrightarrow> cover ?fs x \<noteq> 0" for x
    using blocks_ok_split(1) [OF B i sz, of x] by (simp add: extent_bytes)
  have "live h s ?a = None"
  proof (cases "live h s ?a")
    case (Some z)
    then obtain k where "k < ALLOCATIONS" "m_addr (?al ! k) = ?a" "m_size (?al ! k) = z" "z \<noteq> 0"
      using D(2) by (auto simp: live_def live_of_Some [OF le(1)])
    then have "cover ?fs (unat ?a) = 0"
      by (intro spare_apart [OF B]) (auto simp: extent_bytes bytes_start)
    with sub [of "unat ?a"] bytes_start [OF sz] show ?thesis by simp
  qed
  moreover have "spare h t = spare h s - bytes ?a sz"
  proof -
    have "cover (?fs[i := split_entry sz (?fs ! i)]) x = (if x \<in> bytes ?a sz then 0 else cover ?fs x)" for x
      using blocks_ok_split(1) [OF B i sz, of x] D(5) [of x]
      by (cases "x \<in> bytes ?a sz") (simp_all add: extent_bytes)
    then show ?thesis using L h by (auto simp: t spare_def)
  qed
  ultimately show "took h ?a sz s t" using live' sub sz by (auto simp: took_def spare_def)
qed

lemma malloc_spec:
  assumes ok: "heap_ok s" and h: "h < HEAPS"
  shows "\<exists>a t. malloc_heap sz (int h) s = Some (a, t) \<and> heap_ok t \<and>
    (\<forall>k. k \<noteq> h \<longrightarrow> live k t = live k s \<and> spare k t = spare k s) \<and>
    (if a = 0 then live h t = live h s \<and> spare h t \<subseteq> spare h s else took h a sz s t)"
proof (cases "sz = 0")
  case True
  then show ?thesis using ok by (simp add: malloc_heap_def)
next
  case sz: False
  from ok h sz show ?thesis
  proof (cases rule: malloc_heap_cases)
    case nospace
    with ok show ?thesis by simp
  next
    case (full i)
    have "cover ((freespace s ! h)[i := split_entry sz (freespace s ! h ! i)]) x \<le> cover (freespace s ! h) x" for x
      using blocks_ok_split(1) [OF heap_okD(3) [OF ok h] full(1,2) sz, of x] by simp
    then have "x \<in> spare h (s\<lparr>freespace := (freespace s)[h :=
        (freespace s ! h)[i := split_entry sz (freespace s ! h ! i)]]\<rparr>) \<Longrightarrow> x \<in> spare h s" for x
      using heap_okD(1) [OF ok] h by (simp add: spare_def) (metis le_zero_eq not_gr_zero)
    with heap_ok_split [OF ok h full(1,2) sz] full(3) show ?thesis
      by (auto simp: live_def spare_def)
  next
    case (got i j v)
    note G = malloc_got [OF ok h sz got(1-4,6,7) refl]
    have "m_addr (freespace s ! h ! i) \<noteq> 0" using G(3) heap_bounds(1) [of h] by auto
    with G(1,2) got(8) show ?thesis
      by (simp add: other_heap) (simp add: live_def spare_def)
  qed
qed

definition gave :: "nat \<Rightarrow> u64 \<Rightarrow> kstate \<Rightarrow> kstate \<Rightarrow> bool" where
  "gave h a s t \<longleftrightarrow> live h t = (live h s)(a := None) \<and> spare h s \<subseteq> spare h t \<and>
     spare h t \<subseteq> spare h s \<union> (case live h s a of None \<Rightarrow> {} | Some sz \<Rightarrow> bytes a sz)"

lemma gave_unknown:
  "live h s a = None \<Longrightarrow> live h t = live h s \<Longrightarrow> spare h t = spare h s \<Longrightarrow> gave h a s t"
  by (auto simp: gave_def fun_upd_idem)

lemma live_entry:
  assumes "heap_ok s" and "h < HEAPS" and "i < ALLOCATIONS"
    and "m_addr (allocations s ! h ! i) = a" and "m_size (allocations s ! h ! i) \<noteq> 0"
  shows "live h s a = Some (m_size (allocations s ! h ! i))"
    and "live_of ((allocations s ! h)[i := \<lparr>m_addr = 0, m_size = 0\<rparr>]) = (live h s)(a := None)"
proof -
  note D = blocks_okD [OF heap_okD(3) [OF assms(1,2)]]
  have le: "cover (allocations s ! h) x \<le> 1" for x using D(5) [of x] by simp
  show "live h s a = Some (m_size (allocations s ! h ! i))"
    using assms(3-5) D(2) by (auto simp: live_def live_of_Some [OF le])
  show "live_of ((allocations s ! h)[i := \<lparr>m_addr = 0, m_size = 0\<rparr>]) = (live h s)(a := None)"
    using live_of_remove [OF le, of i] assms(3-5) D(2) by (simp add: live_def)
qed

lemma free_spec:
  assumes ok: "heap_ok s" and f: "free a s = Some t"
  shows "heap_ok t \<and> (\<forall>k < HEAPS. gave k a s t)"
proof -
  have elsewhere: "live k s a = None" if "heap_of a = Some h" "k \<noteq> h" "k < HEAPS" for h k
    using live_in_heap(1) [OF ok that(3), of a] that by (cases "live k s a") auto
  from ok f show ?thesis
  proof (cases rule: free_cases)
    case unknown
    with ok gave_unknown show ?thesis by blast
  next
    case (known h i)
    let ?al = "(allocations s ! h)[i := \<lparr>m_addr = 0, m_size = 0\<rparr>]"
    have B: "blocks_ok h (freespace s ! h) ?al"
      by (rule blocks_ok_remove [OF heap_okD(3) [OF ok known(1)] known(3)])
    have ok': "heap_ok t" using ok B known(1) unfolding known(7)
      by (auto simp: heap_ok_def nth_list_update)
    have "gave k a s t" if k: "k < HEAPS" for k
    proof (cases "k = h")
      case True
      then show ?thesis
        using live_entry [OF ok known(1,3,4,5)] heap_okD(2) [OF ok] k
        by (auto simp: gave_def known(7) live_def spare_def)
    next
      case False
      then show ?thesis
        using elsewhere [OF known(2) False k] by (intro gave_unknown) (simp_all add: known(7) live_def spare_def)
    qed
    with ok' show ?thesis by simp
  next
    case (given h i fs v)
    let ?al = "(allocations s ! h)[i := \<lparr>m_addr = 0, m_size = 0\<rparr>]" and ?sz = "m_size (allocations s ! h ! i)"
    note H = heap_okD(3) [OF ok given(1)]
    note D = blocks_okD [OF H] and L = heap_okD(1,2) [OF ok]
    have B: "blocks_ok h fs ?al"
      by (rule blocks_ok_return [OF H given(3,5)]) (simp add: given(4,6))
    have ok': "heap_ok t" unfolding given(9) by (rule heap_ok_update [OF ok given(1) B given(7,8)])
    have in_heap: "block_in h \<lparr>m_addr = a, m_size = ?sz\<rparr>"
      using D(4) [OF given(3)] given(4) by (simp add: block_in_def)
    have "gave k a s t" if k: "k < HEAPS" for k
    proof (cases "k = h")
      case True
      have "spare h t = spare h s \<union> bytes a ?sz"
        using return_block_ok(3) [OF given(6) D(1,7) in_heap given(5)] L given(1)
        by (auto simp: given(9) spare_def extent_bytes split: if_splits)
      then show ?thesis
        using live_entry [OF ok given(1,3,4,5)] L k True
        by (auto simp: gave_def given(9) live_def)
    next
      case False
      then show ?thesis
        using elsewhere [OF given(2) False k]
        by (intro gave_unknown) (simp_all add: given(9) live_def spare_def)
    qed
    with ok' show ?thesis by simp
  qed
qed

subsection \<open>A client of the contract\<close>

definition separated :: "(u64 \<Rightarrow> u64 option) \<Rightarrow> nat set \<Rightarrow> bool" where
  "separated lv sp \<longleftrightarrow>
     (\<forall>a sz. lv a = Some sz \<longrightarrow> sz \<noteq> 0 \<and> bytes a sz \<inter> sp = {}) \<and>
     (\<forall>a sz b sz'. lv a = Some sz \<longrightarrow> lv b = Some sz' \<longrightarrow> a \<noteq> b \<longrightarrow> bytes a sz \<inter> bytes b sz' = {})"

definition footprint :: "(u64 \<Rightarrow> u64 option) \<Rightarrow> nat set \<Rightarrow> nat set" where
  "footprint lv sp = sp \<union> {x. \<exists>a sz. lv a = Some sz \<and> x \<in> bytes a sz}"

locale allocator =
  fixes take :: "u64 \<Rightarrow> 's \<Rightarrow> (u64 \<times> 's) option"
    and give :: "u64 \<Rightarrow> 's \<Rightarrow> 's option"
    and lv :: "'s \<Rightarrow> u64 \<Rightarrow> u64 option"
    and sp :: "'s \<Rightarrow> nat set"
    and ok :: "'s \<Rightarrow> bool"
  assumes take_returns: "ok s \<Longrightarrow> \<exists>a t. take sz s = Some (a, t)"
    and take_ok: "ok s \<Longrightarrow> take sz s = Some (a, t) \<Longrightarrow> ok t"
    and take_block: "ok s \<Longrightarrow> take sz s = Some (a, t) \<Longrightarrow> a \<noteq> 0 \<Longrightarrow>
      sz \<noteq> 0 \<and> lv t = (lv s)(a \<mapsto> sz) \<and> bytes a sz \<subseteq> sp s \<and> sp t = sp s - bytes a sz"
    and take_none: "ok s \<Longrightarrow> take sz s = Some (0, t) \<Longrightarrow> lv t = lv s \<and> sp t \<subseteq> sp s"
    and give_ok: "ok s \<Longrightarrow> give a s = Some t \<Longrightarrow> ok t"
    and give_live: "ok s \<Longrightarrow> give a s = Some t \<Longrightarrow> lv t = (lv s)(a := None)"
    and give_spare: "ok s \<Longrightarrow> give a s = Some t \<Longrightarrow>
      sp t \<subseteq> sp s \<union> (case lv s a of None \<Rightarrow> {} | Some sz \<Rightarrow> bytes a sz)"
begin

lemma take_separated:
  assumes "ok s" and "take sz s = Some (a, t)" and "separated (lv s) (sp s)"
  shows "separated (lv t) (sp t)"
proof (cases "a = 0")
  case True
  with take_none [of s sz t] assms show ?thesis by (auto simp: separated_def)
next
  case False
  with take_block [OF assms(1,2)] assms(3) show ?thesis
    by (simp add: separated_def disjoint_iff) blast
qed

lemma give_separated:
  assumes "ok s" and "give a s = Some t" and "separated (lv s) (sp s)"
  shows "separated (lv t) (sp t)"
proof -
  have "bytes b z \<inter> sp t = {}" if "b \<noteq> a" "lv s b = Some z" for b z
    using give_spare [OF assms(1,2)] assms(3) that by (cases "lv s a") (simp_all add: separated_def disjoint_iff, blast+)
  with give_live [OF assms(1,2)] assms(3) show ?thesis by (simp add: separated_def)
qed

lemma take_footprint:
  assumes "ok s" and "take sz s = Some (a, t)"
  shows "footprint (lv t) (sp t) \<subseteq> footprint (lv s) (sp s)"
proof (cases "a = 0")
  case True
  with take_none [of s sz t] assms show ?thesis by (auto simp: footprint_def)
next
  case False
  with take_block [OF assms] show ?thesis by (auto simp: footprint_def split: if_splits)
qed

lemma give_footprint:
  assumes "ok s" and "give a s = Some t"
  shows "footprint (lv t) (sp t) \<subseteq> footprint (lv s) (sp s)"
  using give_spare [OF assms] give_live [OF assms]
  by (auto simp: footprint_def split: if_splits option.splits)

lemma take_give:
  assumes "ok s" and "take sz s = Some (a, t)" and "a \<noteq> 0" and "lv s a = None" and "give a t = Some u"
  shows "lv u = lv s \<and> sp u \<subseteq> sp s"
  using take_block [OF assms(1-3)] give_live [OF take_ok [OF assms(1,2)] assms(5)]
    give_spare [OF take_ok [OF assms(1,2)] assms(5)] assms(4)
  by (auto simp: fun_upd_idem)

end

lemma heap_allocator:
  assumes "h < HEAPS"
  shows "allocator (\<lambda>sz. malloc_heap sz (int h)) free (live h) (spare h) heap_ok"
proof
  fix s sz a t
  assume ok: "heap_ok s"
  note M = malloc_spec [OF ok assms, of sz]
  show "\<exists>a t. malloc_heap sz (int h) s = Some (a, t)" using M by blast
  show "heap_ok t" if "malloc_heap sz (int h) s = Some (a, t)" using M that by auto
  show "sz \<noteq> 0 \<and> live h t = (live h s)(a \<mapsto> sz) \<and> bytes a sz \<subseteq> spare h s \<and> spare h t = spare h s - bytes a sz"
    if "malloc_heap sz (int h) s = Some (a, t)" "a \<noteq> 0"
    using M that by (auto simp: took_def)
  show "live h t = live h s \<and> spare h t \<subseteq> spare h s" if "malloc_heap sz (int h) s = Some (0, t)"
    using M that by auto
next
  fix s a t
  assume "heap_ok s" "free a s = Some t"
  with free_spec assms show "heap_ok t" "live h t = (live h s)(a := None)"
    "spare h t \<subseteq> spare h s \<union> (case live h s a of None \<Rightarrow> {} | Some sz \<Rightarrow> bytes a sz)"
    by (auto simp: gave_def)
qed

interpretation kheap: allocator "\<lambda>sz. malloc_heap sz (int 0)" free "live 0" "spare 0" heap_ok
  by (rule heap_allocator) (simp add: HEAPS_def)

interpretation uheap: allocator "\<lambda>sz. malloc_heap sz (int 1)" free "live 1" "spare 1" heap_ok
  by (rule heap_allocator) (simp add: HEAPS_def)

subsection \<open>free returns\<close>

lemma free_page_total:
  assumes "phys_ok (pages v)" and "mm_descs (pages v) = fm_descs (pages v)"
  shows "\<exists>v'. free_page_at a v = Some v'"
  using free_total [OF assms, of "find_physaddr v a"] by (auto simp: free_page_at_def)

lemma free_range_total:
  "phys_ok (pages v) \<Longrightarrow> root_ok v \<Longrightarrow> mm_descs (pages v) = fm_descs (pages v) \<Longrightarrow>
     \<exists>v'. free_range a i n v = Some v'"
proof (induction n arbitrary: i v)
  case (Suc n)
  from free_page_total [OF Suc.prems(1,3)] obtain w
    where w: "free_page_at (a + of_nat i * PAGE_SIZE) v = Some w" by blast
  with Suc free_page_keeps [OF w] show ?case by simp
qed simp

lemma release_pages_total:
  assumes "phys_ok (pages v)" and "root_ok v" and "mm_descs (pages v) = fm_descs (pages v)"
  shows "\<exists>v'. release_pages a sz al v = Some v'"
proof -
  have step: "\<exists>w. (if b then free_page_at x u else Some u) = Some w \<and> phys_ok (pages w) \<and> root_ok w \<and>
      mm_descs (pages w) = fm_descs (pages w)"
    if "phys_ok (pages u)" "root_ok u" "mm_descs (pages u) = fm_descs (pages u)" for b x u
    using free_page_total [OF that(1,3), of x] free_page_keeps [of x u] that by (cases b) force+
  define b where "b = (\<not> list_ex (\<lambda>e. page_base a = page_base (m_addr e + m_size e - 1)) al)"
  define c where "c = (\<not> list_ex (\<lambda>e. page_base (a + sz - 1) = page_base (m_addr e)) al)"
  obtain u where u: "(if b then free_page_at a v else Some v) = Some u" "phys_ok (pages u)" "root_ok u"
    "mm_descs (pages u) = fm_descs (pages u)" using step [OF assms] by blast
  obtain w where w: "(if c then free_page_at (a + sz - 1) u else Some u) = Some w" "phys_ok (pages w)"
    "root_ok w" "mm_descs (pages w) = fm_descs (pages w)" using step [OF u(2-4)] by blast
  show ?thesis
    using u(1) w(1) free_range_total [OF w(2-4)]
    by (simp add: release_pages_def b_def [symmetric] c_def [symmetric])
qed

lemma free_returns_ok:
  assumes ok: "heap_ok s" and mm: "mm_descs (pages (vm s)) = fm_descs (pages (vm s))"
  shows "\<exists>t. free a s = Some t"
proof -
  have R: "release_pages x sz al (vm s) \<noteq> None" for x sz al
    using release_pages_total [OF heap_okD(4,5) [OF ok] mm, of x sz al] by auto
  show ?thesis by (simp add: free_def Let_def R split: option.split)
qed

lemma free_flat:
  assumes "heap_ok s" and "free a s = Some t" and "mm_descs (pages (vm s)) = fm_descs (pages (vm s))"
  shows "mm_descs (pages (vm t)) = fm_descs (pages (vm t))"
proof -
  have "mm_descs (pages v) = fm_descs (pages v)" if "release_pages x sz al (vm s) = Some v" for x sz al v
    using release_pages_keeps [OF that heap_okD(4,5) [OF assms(1)]] assms(3) by simp
  with assms(2,3) show ?thesis by (auto simp: free_def Let_def split: option.splits)
qed

text \<open>
  The allocator's contract again, with the invariant that the memory map has as many descriptors
  as the free map: everything that only allocates keeps it.
\<close>

definition phys_flat :: "phys \<Rightarrow> bool" where
  "phys_flat ps \<longleftrightarrow> phys_ok ps \<and> mm_descs ps = fm_descs ps"

lemma alloc_flat: "phys_flat ps \<Longrightarrow> phys_page_alloc ps = Some (p, ps') \<Longrightarrow> phys_flat ps'"
  using phys_ok_bmap by (auto simp: phys_flat_def phys_page_alloc_eq split: option.splits)

interpretation flat: page_source phys_page_alloc avail phys_flat
proof
  fix ps p
  show "phys_flat ps \<Longrightarrow> avail ps \<noteq> {} \<Longrightarrow> \<exists>p a'. phys_page_alloc ps = Some (p, a') \<and> p \<in> avail ps \<and>
      avail a' = avail ps - {p} \<and> phys_flat a'"
    using pm.takes [of ps] alloc_flat unfolding phys_flat_def by blast
  show "phys_flat ps \<Longrightarrow> avail ps = {} \<Longrightarrow> phys_page_alloc ps = Some (0, ps)"
    by (simp add: phys_flat_def pm.exhausted)
  then show "phys_flat ps \<Longrightarrow> avail ps = {} \<Longrightarrow> phys_page_alloc ps = None \<or> phys_page_alloc ps = Some (0, ps)"
    by blast
  show "finite (avail ps)" by (rule pm.finite_pages)
  show "phys_flat ps \<Longrightarrow> p \<in> avail ps \<Longrightarrow> p AND ADDR_MASK = p \<and> p < 0x1000000000000"
    using pm.page_frame [of ps p] by (simp add: phys_flat_def)
qed

lemma map_range_flat: "map_range v a n = Some v' \<Longrightarrow> phys_flat (pages v) \<Longrightarrow> phys_flat (pages v')"
proof (induction n arbitrary: v a)
  case (Suc n)
  show ?case
  proof (cases "find_physaddr v a = 0")
    case True
    with Suc.prems(1) obtain p ps w where w: "phys_page_alloc (pages v) = Some (p, ps)"
      "map_page p a (v\<lparr>pages := ps\<rparr>) = Some w" "map_range w (a + PAGE_SIZE) n = Some v'"
      by (auto split: option.splits)
    have "phys_flat (pages w)"
      using flat.map_keeps [OF w(2) [unfolded map_page_def]] alloc_flat [OF Suc.prems(2) w(1)] by simp
    with Suc.IH [OF w(3)] show ?thesis by blast
  qed (use Suc in simp)
qed simp

lemma malloc_flat:
  assumes "heap_ok s" and "h < HEAPS" and "malloc_heap sz (int h) s = Some (a, t)"
    and "mm_descs (pages (vm s)) = fm_descs (pages (vm s))"
  shows "mm_descs (pages (vm t)) = fm_descs (pages (vm t))"
proof (cases "sz = 0")
  case True
  with assms(3,4) show ?thesis by (simp add: malloc_heap_def)
next
  case False
  from assms(1,2) False show ?thesis
  proof (cases rule: malloc_heap_cases)
    case (got i j v)
    with map_range_flat [OF got(5)] heap_okD(4) [OF assms(1)] assms(3,4) show ?thesis
      by (auto simp: phys_flat_def)
  qed (use assms(3,4) in auto)
qed

section \<open>Reachable states\<close>

text \<open>
  The tables are static arrays, all zero when \<^verbatim>\<open>init_malloc\<close> runs. From then on the kernel
  allocates, frees and maps pages in any order.
\<close>

definition boot_tables :: "kstate \<Rightarrow> bool" where
  "boot_tables s \<longleftrightarrow>
     freespace s = replicate HEAPS (replicate FREE_SPACES \<lparr>m_addr = 0, m_size = 0\<rparr>) \<and>
     allocations s = replicate HEAPS (replicate ALLOCATIONS \<lparr>m_addr = 0, m_size = 0\<rparr>) \<and>
     phys_ok (pages (vm s)) \<and> root_ok (vm s)"

inductive heap_step :: "kstate \<Rightarrow> kstate \<Rightarrow> bool" where
  step_malloc: "malloc_heap sz heap s = Some (a, t) \<Longrightarrow> heap_step s t"
| step_free: "free a s = Some t \<Longrightarrow> heap_step s t"
| step_map: "map_page p a (vm s) = Some v \<Longrightarrow> heap_step s (s\<lparr>vm := v\<rparr>)"
| step_alloc_map: "alloc_and_map a n (vm s) = Some v \<Longrightarrow> heap_step s (s\<lparr>vm := v\<rparr>)"

inductive heap_reach :: "kstate \<Rightarrow> bool" where
  reach_init: "boot_tables s \<Longrightarrow> heap_reach (init_malloc s)"
| reach_step: "heap_reach s \<Longrightarrow> heap_step s t \<Longrightarrow> heap_reach t"

lemma alloc_and_map_keeps:
  "alloc_and_map a n v = Some v' \<Longrightarrow> phys_ok (pages v) \<Longrightarrow> root_ok v \<Longrightarrow> phys_ok (pages v') \<and> root_ok v'"
proof (induction n arbitrary: a v)
  case (Suc n)
  obtain p ps where p: "phys_page_alloc (pages v) = Some (p, ps)" "phys_ok ps"
    using alloc_returns [OF Suc.prems(2)] by blast
  moreover obtain w where "map_page p a (v\<lparr>pages := ps\<rparr>) = Some w" "phys_ok (pages w)" "root_ok w"
    using map_page_returns [of "v\<lparr>pages := ps\<rparr>" p a] p(2) Suc.prems(3) by auto
  ultimately show ?case using Suc.prems(1) Suc.IH [of "a + PAGE_SIZE" w] by simp
qed simp

definition heap_safe :: "nat \<Rightarrow> kstate \<Rightarrow> bool" where
  "heap_safe h s \<longleftrightarrow> separated (live h s) (spare h s) \<and>
     footprint (live h s) (spare h s) \<subseteq> {heap_lo h..<heap_hi h}"

lemma heap_safe_vm [simp]: "heap_safe h (s\<lparr>vm := v\<rparr>) = heap_safe h s"
  by (simp add: heap_safe_def live_def spare_def)

lemma heap_ok_vm: "heap_ok s \<Longrightarrow> phys_ok (pages v) \<Longrightarrow> root_ok v \<Longrightarrow> heap_ok (s\<lparr>vm := v\<rparr>)"
  by (simp add: heap_ok_def)

lemma malloc_bad_heap: "malloc_heap sz heap s = Some (a, t) \<Longrightarrow> \<not> (\<exists>h < HEAPS. heap = int h) \<Longrightarrow> t = s"
proof -
  assume m: "malloc_heap sz heap s = Some (a, t)" and "\<not> (\<exists>h < HEAPS. heap = int h)"
  then have "heap < 0 \<or> int HEAPS \<le> heap" by (metis nat_0_le nat_less_iff not_le)
  with m show "t = s" by (auto simp: malloc_heap_def split: if_splits)
qed

lemma malloc_safe:
  assumes ok: "heap_ok s" and m: "malloc_heap sz heap s = Some (a, t)" and k: "k < HEAPS" "heap_safe k s"
  shows "heap_ok t \<and> heap_safe k t"
proof (cases "\<exists>h < HEAPS. heap = int h")
  case True
  then obtain h where h: "h < HEAPS" "heap = int h" by blast
  note M = malloc_spec [OF ok h(1), of sz]
  show ?thesis
  proof (cases "k = h")
    case True
    note A = heap_allocator [OF h(1)]
    have m': "malloc_heap sz (int h) s = Some (a, t)" using m h by simp
    show ?thesis
      using allocator.take_separated [OF A ok m'] allocator.take_footprint [OF A ok m']
        allocator.take_ok [OF A ok m'] k True by (auto simp: heap_safe_def)
  next
    case False
    with M m h k show ?thesis by (auto simp: heap_safe_def)
  qed
next
  case False
  with malloc_bad_heap [OF m] ok k show ?thesis by simp
qed

lemma free_safe:
  assumes ok: "heap_ok s" and f: "free a s = Some t" and k: "k < HEAPS" "heap_safe k s"
  shows "heap_ok t \<and> heap_safe k t"
proof -
  note A = heap_allocator [OF k(1)]
  show ?thesis
    using allocator.give_separated [OF A ok f] allocator.give_footprint [OF A ok f]
      allocator.give_ok [OF A ok f] k by (auto simp: heap_safe_def)
qed

lemma step_safe:
  assumes "heap_step s t" and "heap_ok s" and "k < HEAPS" and "heap_safe k s"
  shows "heap_ok t \<and> heap_safe k t"
  using assms(1)
proof cases
  case (step_map p a v)
  have "phys_ok (pages v) \<and> root_ok v"
    using map_page_returns [OF heap_okD(4,5) [OF assms(2)], of p a] step_map by auto
  with step_map assms show ?thesis by (simp add: heap_ok_vm)
next
  case (step_alloc_map a n v)
  with alloc_and_map_keeps [OF step_alloc_map(2) heap_okD(4,5) [OF assms(2)]] assms show ?thesis
    by (simp add: heap_ok_vm)
qed (use assms malloc_safe free_safe in blast)+

lemma cover_replicate [simp]: "cover (replicate n \<lparr>m_addr = 0, m_size = 0\<rparr>) x = 0"
  by (induction n) simp_all

lemma live_of_replicate [simp]: "live_of (replicate n \<lparr>m_addr = 0, m_size = 0\<rparr>) a = None"
  by (simp add: live_of_None)

definition whole_heap :: "nat \<Rightarrow> mem_t" where
  "whole_heap h = (if h = 0 then \<lparr>m_addr = kernel_heap, m_size = kernel_stack - kernel_heap\<rparr>
     else \<lparr>m_addr = userspace_heap, m_size = userspace_stack - userspace_heap\<rparr>)"

lemma extent_whole [simp]: "extent (whole_heap h) = {heap_lo h..<heap_hi h}"
  by (simp add: extent_def whole_heap_def heap_lo_def heap_hi_def kernel_heap_def kernel_stack_def
      userspace_heap_def userspace_stack_def)

lemma init_malloc_tables:
  assumes "boot_tables s" and "h < HEAPS"
  shows "freespace (init_malloc s) ! h = (replicate FREE_SPACES \<lparr>m_addr = 0, m_size = 0\<rparr>)[0 := whole_heap h]"
    and "allocations (init_malloc s) ! h = replicate ALLOCATIONS \<lparr>m_addr = 0, m_size = 0\<rparr>"
    and "cover (freespace (init_malloc s) ! h) x = of_bool (x \<in> {heap_lo h..<heap_hi h})"
proof -
  have h: "h = 0 \<or> h = 1" using assms(2) by (auto simp: HEAPS_def)
  show fs: "freespace (init_malloc s) ! h = (replicate FREE_SPACES \<lparr>m_addr = 0, m_size = 0\<rparr>)[0 := whole_heap h]"
    using h assms(1) by (auto simp: init_malloc_def boot_tables_def whole_heap_def Let_def HEAPS_def)
  show "allocations (init_malloc s) ! h = replicate ALLOCATIONS \<lparr>m_addr = 0, m_size = 0\<rparr>"
    using assms by (simp add: init_malloc_def boot_tables_def Let_def)
  show "cover (freespace (init_malloc s) ! h) x = of_bool (x \<in> {heap_lo h..<heap_hi h})"
    using cover_update [of 0 "replicate FREE_SPACES \<lparr>m_addr = 0, m_size = 0\<rparr>" "whole_heap h" x]
    by (simp add: fs FREE_SPACES_def)
qed

lemma init_malloc_ok:
  assumes "boot_tables s"
  shows "heap_ok (init_malloc s)" and "h < HEAPS \<Longrightarrow> heap_safe h (init_malloc s)"
    and "h < HEAPS \<Longrightarrow> spare h (init_malloc s) = {heap_lo h..<heap_hi h} \<and> live h (init_malloc s) = Map.empty"
proof -
  note T = init_malloc_tables [OF assms]
  have "block_in h (whole_heap h)" for h
    by (simp add: block_in_def whole_heap_def heap_lo_def heap_hi_def kernel_heap_def kernel_stack_def
      userspace_heap_def userspace_stack_def)
  then have "\<forall>e \<in> set ((replicate FREE_SPACES \<lparr>m_addr = 0, m_size = 0\<rparr>)[0 := whole_heap h]). block_in h e" for h
    by (intro set_update_all) (simp_all add: block_in_def)
  then have "blocks_ok h (freespace (init_malloc s) ! h) (allocations (init_malloc s) ! h)" if "h < HEAPS" for h
    using T [OF that] by (simp add: blocks_ok_def block_in_def)
  then show "heap_ok (init_malloc s)"
    using assms by (auto simp: heap_ok_def) (simp_all add: init_malloc_def boot_tables_def Let_def)
  show *: "spare h (init_malloc s) = {heap_lo h..<heap_hi h} \<and> live h (init_malloc s) = Map.empty"
    if "h < HEAPS" for h
    using T [OF that] by (auto simp: spare_def live_def)
  show "heap_safe h (init_malloc s)" if "h < HEAPS"
    using * [OF that] by (simp add: heap_safe_def separated_def footprint_def)
qed

lemma heap_reach_safe:
  "heap_reach s \<Longrightarrow> heap_ok s \<and> (\<forall>h < HEAPS. heap_safe h s)"
proof (induction rule: heap_reach.induct)
  case (reach_init s)
  with init_malloc_ok show ?case by blast
next
  case (reach_step s t)
  with step_safe show ?case by (metis HEAPS_def zero_less_numeral)
qed

section \<open>Properties\<close>

text \<open>A machine for the examples: the tables after \<^verbatim>\<open>init_malloc\<close> over a given address space.\<close>

definition boot_state :: "phys vm \<Rightarrow> kstate" where
  "boot_state v = \<lparr>freespace = replicate HEAPS (replicate FREE_SPACES \<lparr>m_addr = 0, m_size = 0\<rparr>),
     allocations = replicate HEAPS (replicate ALLOCATIONS \<lparr>m_addr = 0, m_size = 0\<rparr>), vm = v\<rparr>"

lemma boot_state_tables: "phys_ok (pages v) \<Longrightarrow> root_ok v \<Longrightarrow> boot_tables (boot_state v)"
  by (simp add: boot_tables_def boot_state_def)

definition flat_vm :: "phys vm" where
  "flat_vm = small_vm\<lparr>pages := (small_phys 1)\<lparr>mm_descs := 1\<rparr>\<rparr>"

lemma flat_ok: "phys_ok (pages flat_vm)" "root_ok flat_vm"
  using small_phys_ok [of 1] small_vm_ok by (simp_all add: flat_vm_def phys_ok_def small_phys_def vm_ok_def)

definition fresh :: kstate where
  "fresh = init_malloc (boot_state flat_vm)"

lemma fresh_ok: "heap_ok fresh" "h < HEAPS \<Longrightarrow> spare h fresh = {heap_lo h..<heap_hi h} \<and> live h fresh = Map.empty"
  using init_malloc_ok [OF boot_state_tables [OF flat_ok]] by (auto simp: fresh_def)

lemma fresh_space: "freespace fresh ! h ! 0 = whole_heap h" if "h < HEAPS"
  using init_malloc_tables(1) [OF boot_state_tables [OF flat_ok] that]
  by (simp add: fresh_def FREE_SPACES_def)

lemma fresh_slot: "m_size (allocations fresh ! h ! 0) = 0" if "h < HEAPS"
  using init_malloc_tables(2) [OF boot_state_tables [OF flat_ok] that]
  by (simp add: fresh_def ALLOCATIONS_def)

lemma fresh_malloc: "\<exists>t. malloc_heap 5000 0 fresh = Some (kernel_heap, t)"
proof -
  have h: "0 < HEAPS" by (simp add: HEAPS_def)
  have i: "scan (\<lambda>i. 5000 \<le> m_size (freespace fresh ! 0 ! i)) 0 FREE_SPACES = Some 0"
    using fresh_space [OF h]
    by (intro scan_head) (simp_all add: whole_heap_def kernel_heap_def kernel_stack_def FREE_SPACES_def)
  have j: "scan (\<lambda>j. m_size (allocations fresh ! 0 ! j) = 0) 0 ALLOCATIONS = Some 0"
    using fresh_slot [OF h] by (intro scan_head) (simp_all add: ALLOCATIONS_def)
  obtain v where "map_range (vm fresh) kernel_heap (unat (block_pages kernel_heap 5000)) = Some v"
    using map_range_returns heap_okD(4,5) [OF fresh_ok(1)] by blast
  with i j fresh_space [OF h] show ?thesis
    by (simp add: malloc_heap_def HEAPS_def Let_def whole_heap_def)
qed

text \<open>
  C6: \<^verbatim>\<open>malloc_heap\<close> returns for every size on either heap. A non-null result is a block of the
  requested size that was free space of that heap, becomes the live block at its address and is
  no longer free; a null result leaves the live blocks as they were. The other heap is untouched
  and the tables stay well formed.
\<close>

theorem malloc_heap_spec:
  assumes "heap_ok s" and "h < HEAPS"
  shows "\<exists>a t. malloc_heap sz (int h) s = Some (a, t) \<and> heap_ok t \<and>
    (\<forall>k. k \<noteq> h \<longrightarrow> live k t = live k s \<and> spare k t = spare k s) \<and>
    (if a = 0 then live h t = live h s \<and> spare h t \<subseteq> spare h s
     else sz \<noteq> 0 \<and> live h s a = None \<and> live h t = (live h s)(a \<mapsto> sz) \<and>
       bytes a sz \<subseteq> spare h s \<and> spare h t = spare h s - bytes a sz)"
  using malloc_spec [OF assms, of sz] unfolding took_def .

theorem malloc_heap_spec_witness:
  "\<exists>t. malloc_heap 5000 0 fresh = Some (kernel_heap, t) \<and> live 0 t kernel_heap = Some 5000"
  using malloc_heap_spec [OF fresh_ok(1), of 0 5000] fresh_malloc
  by (auto simp: HEAPS_def kernel_heap_def)

text \<open>
  A request fails only when no entry of the heap's table of free blocks is large enough or the
  table of allocations is full; otherwise \<^verbatim>\<open>malloc_heap\<close> takes the first entry that is large
  enough and returns its start.
\<close>

theorem malloc_first_fit:
  assumes "heap_ok s" and "h < HEAPS" and "sz \<noteq> 0"
  shows "\<exists>a t. malloc_heap sz (int h) s = Some (a, t) \<and>
    (a = 0 \<longleftrightarrow> (\<forall>i < FREE_SPACES. m_size (freespace s ! h ! i) < sz) \<or>
       (\<forall>j < ALLOCATIONS. m_size (allocations s ! h ! j) \<noteq> 0)) \<and>
    (a \<noteq> 0 \<longrightarrow> (\<exists>i < FREE_SPACES. a = m_addr (freespace s ! h ! i) \<and> sz \<le> m_size (freespace s ! h ! i) \<and>
       (\<forall>k < i. m_size (freespace s ! h ! k) < sz)))"
  using assms
proof (cases rule: malloc_heap_cases)
  case (got i j v)
  have "heap_lo h \<le> unat (m_addr (freespace s ! h ! i))"
    by (rule malloc_got(3) [OF assms got(1-4,6,7) refl])
  then have "m_addr (freespace s ! h ! i) \<noteq> 0" using heap_bounds(1) [of h] by auto
  moreover have "\<not> (\<forall>i < FREE_SPACES. m_size (freespace s ! h ! i) < sz)"
    using got(1,2) by (auto simp: not_less)
  ultimately show ?thesis using got by auto
qed (auto simp: not_less)

theorem malloc_first_fit_witness:
  "\<exists>a t. malloc_heap 5000 0 fresh = Some (a, t) \<and>
    (\<exists>i < FREE_SPACES. a = m_addr (freespace fresh ! 0 ! i) \<and> 5000 \<le> m_size (freespace fresh ! 0 ! i))"
  using malloc_first_fit [OF fresh_ok(1), of 0 5000] fresh_malloc by (auto simp: HEAPS_def kernel_heap_def)

text \<open>
  When the table of allocations is full, \<^verbatim>\<open>malloc_heap\<close> has already cut the block off the free
  space when it notices: it returns null, and the block is neither free nor live any more.
\<close>

theorem malloc_full_table_loses_block:
  assumes "heap_ok s" and "h < HEAPS" and "sz \<noteq> 0" and "\<forall>j < ALLOCATIONS. m_size (allocations s ! h ! j) \<noteq> 0"
    and "i < FREE_SPACES" and "sz \<le> m_size (freespace s ! h ! i)"
  shows "\<exists>t. malloc_heap sz (int h) s = Some (0, t) \<and> live h t = live h s \<and> spare h t \<subset> spare h s"
  using assms(1-3)
proof (cases rule: malloc_heap_cases)
  case (full k)
  let ?fs = "freespace s ! h" and ?a = "m_addr (freespace s ! h ! k)"
  let ?t = "s\<lparr>freespace := (freespace s)[h := ?fs[k := split_entry sz (?fs ! k)]]\<rparr>"
  note B = heap_okD(3) [OF assms(1,2)] and L = heap_okD(1) [OF assms(1)]
  have c: "cover ?fs x = cover (?fs[k := split_entry sz (?fs ! k)]) x + of_bool (x \<in> bytes ?a sz)" for x
    using blocks_ok_split(1) [OF B full(1,2) assms(3), of x] by (simp add: extent_bytes)
  have "cover ?fs (unat ?a) = 1" "cover (?fs[k := split_entry sz (?fs ! k)]) (unat ?a) = 0"
    using c [of "unat ?a"] blocks_okD(5) [OF B, of "unat ?a"] bytes_start [OF assms(3), of ?a] by simp_all
  then have "unat ?a \<in> spare h s - spare h ?t" using L assms(2) by (simp add: spare_def)
  moreover have "spare h ?t \<subseteq> spare h s" using c L assms(2) by (auto simp: spare_def)
  ultimately have "spare h ?t \<subset> spare h s" by blast
  with full(3) show ?thesis by (auto simp: live_def)
next
  case nospace
  with assms(5,6) show ?thesis by (meson not_le)
next
  case (got i j v)
  with assms(4) show ?thesis by blast
qed

definition small_blocks :: "nat \<Rightarrow> mem_t list" where
  "small_blocks n = map (\<lambda>i. \<lparr>m_addr = kernel_heap + 16 * of_nat i, m_size = 16\<rparr>) [0..<n]"

definition crowded :: kstate where
  "crowded = (boot_state flat_vm)\<lparr>
     freespace := [(replicate FREE_SPACES \<lparr>m_addr = 0, m_size = 0\<rparr>)[0 := \<lparr>m_addr = 0x1900000000, m_size = 0x1000\<rparr>],
       replicate FREE_SPACES \<lparr>m_addr = 0, m_size = 0\<rparr>],
     allocations := [small_blocks ALLOCATIONS, replicate ALLOCATIONS \<lparr>m_addr = 0, m_size = 0\<rparr>]\<rparr>"

lemma small_block_addr: "i \<le> 512 \<Longrightarrow> unat (kernel_heap + 16 * of_nat i) = 0x1800000000 + 16 * i"
proof -
  assume i: "i \<le> 512"
  then have "unat (of_nat i :: u64) = i" by (intro unat_of_nat_small) simp
  then have "unat (16 * of_nat i :: u64) = 16 * i" using i by (simp add: unat_word_ariths)
  with i show ?thesis by (subst unat_add_small) (simp_all add: kernel_heap_def)
qed

lemma cover_small_blocks:
  "n \<le> 512 \<Longrightarrow> cover (small_blocks n) x = of_bool (0x1800000000 \<le> x \<and> x < 0x1800000000 + 16 * n)"
proof (induction n)
  case (Suc n)
  then have "x \<in> extent \<lparr>m_addr = kernel_heap + 16 * of_nat n, m_size = 16\<rparr> \<longleftrightarrow>
      0x1800000000 + 16 * n \<le> x \<and> x < 0x1800000000 + 16 * n + 16"
    by (simp add: extent_def small_block_addr)
  with Suc show ?case by (auto simp: small_blocks_def)
qed (simp add: small_blocks_def)

lemma crowded_ok: "heap_ok crowded"
proof -
  let ?z = "\<lparr>m_addr = 0, m_size = 0\<rparr>" and ?e = "\<lparr>m_addr = 0x1900000000, m_size = 0x1000\<rparr>"
  have len: "length (small_blocks n) = n" for n by (simp add: small_blocks_def)
  have in0: "\<forall>e \<in> set (small_blocks ALLOCATIONS). block_in 0 e \<and> m_size e \<noteq> 0"
    by (auto simp: small_blocks_def block_in_def small_block_addr ALLOCATIONS_def heap_lo_def heap_hi_def
        kernel_stack_def kernel_heap_def [THEN arg_cong [of _ _ unat]])
  have "\<forall>e \<in> set ((replicate FREE_SPACES ?z)[0 := ?e]). block_in 0 e"
    by (intro set_update_all)
      (simp_all add: block_in_def heap_lo_def heap_hi_def kernel_heap_def kernel_stack_def)
  moreover have "cover ((replicate FREE_SPACES ?z)[0 := ?e]) x = of_bool (x \<in> extent ?e)" for x
    using cover_update [of 0 "replicate FREE_SPACES ?z" ?e x] by (simp add: FREE_SPACES_def)
  ultimately have "blocks_ok 0 ((replicate FREE_SPACES ?z)[0 := ?e]) (small_blocks ALLOCATIONS)"
    using in0 cover_small_blocks [of ALLOCATIONS]
    by (auto simp: blocks_ok_def len ALLOCATIONS_def extent_def)
  then show ?thesis
    using flat_ok by (auto simp: heap_ok_def crowded_def boot_state_def HEAPS_def less_2_cases_iff
        blocks_ok_def block_in_def)
qed

theorem malloc_full_table_loses_block_witness:
  "\<exists>t. malloc_heap 16 0 crowded = Some (0, t) \<and> spare 0 t \<subset> spare 0 crowded"
proof -
  have "\<forall>j < ALLOCATIONS. m_size (allocations crowded ! 0 ! j) \<noteq> 0"
    by (simp add: crowded_def small_blocks_def)
  with malloc_full_table_loses_block [OF crowded_ok, of 0 16 0] show ?thesis
    by (auto simp: HEAPS_def FREE_SPACES_def crowded_def)
qed


lemma crowded_live: "live 0 crowded kernel_heap = Some 16"
proof -
  have "0 < HEAPS" by (simp add: HEAPS_def)
  with live_entry(1) [OF crowded_ok this, of 0 kernel_heap] show ?thesis
    by (simp add: crowded_def small_blocks_def ALLOCATIONS_def)
qed


text \<open>Whether the space of a freed block finds a place in the table of free blocks.\<close>

definition has_slot :: "nat \<Rightarrow> u64 \<Rightarrow> u64 \<Rightarrow> kstate \<Rightarrow> bool" where
  "has_slot h a sz s \<longleftrightarrow>
     (\<exists>i < FREE_SPACES. adjacent a sz (freespace s ! h ! i) \<or> m_size (freespace s ! h ! i) = 0)"

lemma free_spare:
  assumes ok: "heap_ok s" and h: "h < HEAPS" and l: "live h s a = Some sz" and f: "free a s = Some t"
  shows "spare h t = (if has_slot h a sz s then spare h s \<union> bytes a sz else spare h s)"
proof -
  have same: "k = h" if "heap_of a = Some k" for k using live_in_heap(1) [OF ok h l] that by simp
  have size: "m_size (allocations s ! h ! i) = sz"
    if "i < ALLOCATIONS" "m_addr (allocations s ! h ! i) = a" "m_size (allocations s ! h ! i) \<noteq> 0" for i
    using live_entry(1) [OF ok h that] l by simp
  from ok f show ?thesis
  proof (cases rule: free_cases)
    case unknown
    with h l show ?thesis by simp
  next
    case (known k i)
    then have k: "k = h" using same by simp
    then have "\<not> has_slot h a sz s"
      using known(3-6) size return_block_some_iff [of a sz "freespace s ! h"] by (auto simp: has_slot_def)
    then show ?thesis by (simp add: known(7) spare_def)
  next
    case (given k i fs v)
    then have k: "k = h" using same by simp
    then have sz: "m_size (allocations s ! h ! i) = sz" using given(3-5) size by simp
    note D = blocks_okD [OF heap_okD(3) [OF ok h]]
    have "block_in h \<lparr>m_addr = a, m_size = sz\<rparr>" "sz \<noteq> 0"
      using D(4) [OF given(3)] given(4,5) sz k by (auto simp: block_in_def)
    then have "spare h t = spare h s \<union> bytes a sz"
      using return_block_ok(3) [of a sz "freespace s ! h" fs h] given(6) D(1,7) sz k h heap_okD(1) [OF ok]
      by (auto simp: given(9) spare_def extent_bytes split: if_splits)
    moreover have "has_slot h a sz s"
      using given(6) sz k return_block_some_iff [of a sz "freespace s ! h"] by (auto simp: has_slot_def)
    ultimately show ?thesis by simp
  qed
qed

text \<open>
  The space of a freed block becomes free again exactly when the table of free blocks has an
  empty entry or one that the block is adjacent to; otherwise it is lost.
\<close>

theorem free_recycles:
  assumes "heap_ok s" and "h < HEAPS" and "live h s a = Some sz" and "free a s = Some t"
  shows "spare h t = (if has_slot h a sz s then spare h s \<union> bytes a sz else spare h s)"
  using assms by (rule free_spare)

lemma crowded_free: "\<exists>t. free kernel_heap crowded = Some t"
  using free_returns_ok [OF crowded_ok]
  by (simp add: crowded_def boot_state_def flat_vm_def small_phys_def)

theorem free_recycles_witness:
  "\<exists>t. free kernel_heap crowded = Some t \<and> spare 0 t = spare 0 crowded \<union> bytes kernel_heap 16"
proof -
  obtain t where t: "free kernel_heap crowded = Some t" using crowded_free by blast
  have "has_slot 0 kernel_heap 16 crowded"
    unfolding has_slot_def by (rule exI [of _ 1]) (simp add: crowded_def FREE_SPACES_def)
  with free_recycles [OF crowded_ok _ crowded_live t] t show ?thesis by (auto simp: HEAPS_def)
qed



text \<open>
  C5: In every state that any sequence of \<^verbatim>\<open>malloc_heap\<close>, \<^verbatim>\<open>free\<close>, \<^verbatim>\<open>map_page\<close> and
  \<^verbatim>\<open>alloc_and_map\<close> calls can reach from \<^verbatim>\<open>init_malloc\<close> on zeroed tables, live blocks are
  nonempty, lie inside their heap, do not overlap each other and do not overlap free space.
\<close>

theorem heap_reach_no_overlap:
  assumes "heap_reach s" and "h < HEAPS" and "live h s a = Some sz"
  shows "sz \<noteq> 0 \<and> heap_lo h \<le> unat a \<and> unat a + unat sz \<le> heap_hi h \<and> bytes a sz \<inter> spare h s = {} \<and>
    (\<forall>b sz'. live h s b = Some sz' \<longrightarrow> a \<noteq> b \<longrightarrow> bytes a sz \<inter> bytes b sz' = {})"
proof -
  have s: "heap_ok s" "heap_safe h s" using heap_reach_safe [OF assms(1)] assms(2) by auto
  then have "separated (live h s) (spare h s)" by (simp add: heap_safe_def)
  with assms(3) live_in_heap [OF s(1) assms(2,3)] show ?thesis
    unfolding separated_def by metis
qed

lemma fresh_reach: "heap_reach fresh"
  unfolding fresh_def by (intro reach_init boot_state_tables flat_ok)

lemma fresh_live: "malloc_heap 5000 0 fresh = Some (kernel_heap, t) \<Longrightarrow> live 0 t kernel_heap = Some 5000"
  using malloc_spec [OF fresh_ok(1), of 0 5000] by (auto simp: HEAPS_def took_def kernel_heap_def)

theorem heap_reach_no_overlap_witness:
  "\<exists>t. malloc_heap 5000 0 fresh = Some (kernel_heap, t) \<and> bytes kernel_heap 5000 \<inter> spare 0 t = {}"
proof -
  obtain t where t: "malloc_heap 5000 0 fresh = Some (kernel_heap, t)" using fresh_malloc by blast
  have "heap_reach t" using fresh_reach step_malloc [OF t] by (rule reach_step)
  with heap_reach_no_overlap [OF this, of 0 kernel_heap 5000] fresh_live [OF t] t show ?thesis
    by (auto simp: HEAPS_def)
qed

end
