(* ===== verification/HeapPages.thy ===== *)
theory HeapPages
  imports Heap
begin

text \<open>
  The pages behind a heap block: what the mapping loop of \<^verbatim>\<open>malloc_heap\<close> establishes for a block
  that starts on a page boundary, and that it maps nothing for one that does not.
\<close>

section \<open>The mapping loop\<close>

lemma aligned_canonical: "page_aligned y \<Longrightarrow> y < 0x1000000000000 \<Longrightarrow> canonical y"
  unfolding canonical_def
proof
  assume y: "page_aligned y" "y < 0x1000000000000"
  show "y AND ADDR_MASK = y"
  proof (rule bit_word_eqI)
    fix n
    show "bit (y AND ADDR_MASK) n = bit y n"
      using low_bits [OF y(1), of n] bit_above_48 [OF y(2), of n]
      by (cases "n < 12"; cases "48 \<le> n") (auto simp: bit_and_iff bit_ADDR_MASK)
  qed
qed simp

lemma not_same_page:
  assumes "page_aligned y" and "y < 0x1000000000000" and "canonical F" and "y \<noteq> F" and "off < PAGE_SIZE"
  shows "\<not> same_page (y + off) F"
  using path_inj [OF aligned_canonical [OF assms(1,2)] assms(3)] assms
  by (auto simp: same_page_def vpath_offset table_idx_offset)

lemma page_aligned_add: "page_aligned (a + PAGE_SIZE) \<longleftrightarrow> page_aligned a"
proof -
  have "(4096 :: nat) dvd 2 ^ 64" by simp
  then show ?thesis
    by (simp add: page_aligned_unat unat_word_ariths PAGE_SIZE_def dvd_mod_iff)
qed

lemma page_aligned_add_pages: "page_aligned a \<Longrightarrow> page_aligned (a + of_nat i * PAGE_SIZE)"
proof (induction i)
  case (Suc i)
  then show ?case
    using page_aligned_add [of "a + of_nat i * PAGE_SIZE"] by (simp add: algebra_simps)
qed simp

lemma tables_ok_mono: "tables_ok m r P \<Longrightarrow> Q \<subseteq> P \<Longrightarrow> tables_ok m r Q"
  unfolding tables_ok_def by blast

text \<open>One iteration on an aligned address with no translation: a frame is taken and mapped there.\<close>

definition apart_from_heap :: "u64 \<Rightarrow> phys \<Rightarrow> bool" where
  "apart_from_heap lo ps \<longleftrightarrow> (\<forall>F \<in> avail ps. F \<noteq> 0 \<and> F < lo)"

lemma map_one:
  assumes v: "vm_ok v" "apart_from_heap lo (pages v)" and a: "page_aligned a" "lo \<le> a" "a < 0x1000000000000"
    and p: "phys_page_alloc (pages v) = Some (p, ps)" and w: "map_page p a (v\<lparr>pages := ps\<rparr>) = Some w"
    and ne: "avail (pages w) \<noteq> {}"
  shows "vm_ok w" and "avail (pages w) \<subseteq> avail (pages v)"
    and "off < PAGE_SIZE \<Longrightarrow> find_physaddr w (a + off) \<noteq> 0"
    and "page_aligned y \<Longrightarrow> lo \<le> y \<Longrightarrow> y < 0x1000000000000 \<Longrightarrow> y \<noteq> a \<Longrightarrow> off < PAGE_SIZE \<Longrightarrow>
      find_physaddr w (y + off) = find_physaddr v (y + off)"
proof -
  have ok: "phys_ok (pages v)" "root_ok v" "tables_ok (ram v) (pml4 v) (avail (pages v))"
    using v(1) by (simp_all add: vm_ok_def)
  have "avail (pages v) \<noteq> {}"
  proof
    assume e: "avail (pages v) = {}"
    with alloc_exhausted [OF ok(1)] p have "ps = pages v" by simp
    with pm.map_keeps [OF w [unfolded map_page_def]] e ok(1) ne show False by simp
  qed
  with alloc_takes [OF ok(1)] p have t: "p \<in> avail (pages v)" "avail ps = avail (pages v) - {p}" "phys_ok ps"
    by auto
  then have frame: "p AND ADDR_MASK = p" "p < 0x1000000000000" "p \<noteq> 0"
    using avail_frame [OF ok(1)] v(2) by (auto simp: apart_from_heap_def)
  have v': "vm_ok (v\<lparr>pages := ps\<rparr>)"
    using ok t tables_ok_mono [OF ok(3)] by (auto simp: vm_ok_def)
  note R = map_page_result [OF v' frame(1) a(1) w ne]
  show "vm_ok w" "avail (pages w) \<subseteq> avail (pages v)" using R(1,2) t(2) by auto
  show "find_physaddr w (a + off) \<noteq> 0" if off: "off < PAGE_SIZE"
  proof -
    have "unat off < 4096" using off by (simp add: word_less_nat_alt PAGE_SIZE_def)
    moreover have "unat p < 0x1000000000000" using frame(2) by (simp add: word_less_nat_alt)
    ultimately have "unat (p + off) = unat p + unat off" by (intro unat_add_small) simp
    moreover have "unat p \<noteq> 0" using frame(3) by (simp add: unat_eq_0)
    ultimately have "p + off \<noteq> 0" by (metis add_is_0 unat_0)
    with R(3) [OF off] show ?thesis by simp
  qed
  show "find_physaddr w (y + off) = find_physaddr v (y + off)"
    if y: "page_aligned y" "lo \<le> y" "y < 0x1000000000000" "y \<noteq> a" and off: "off < PAGE_SIZE"
  proof -
    have "\<not> same_page (y + off) a"
      using not_same_page [OF y(1,3) aligned_canonical [OF a(1,3)] y(4) off] .
    moreover have "\<not> same_page (y + off) F" if "F \<in> avail ps" for F
    proof -
      have "canonical F" using pm.pool_canonical [OF t(3) that] .
      moreover have "y \<noteq> F" using v(2) y(2) that t(2) by (auto simp: apart_from_heap_def)
      ultimately show ?thesis using not_same_page [OF y(1,3) _ _ off] by blast
    qed
    ultimately have "find_physaddr w (y + off) = find_physaddr (v\<lparr>pages := ps\<rparr>) (y + off)"
      using R(4) by auto
    then show ?thesis by (simp add: find_physaddr_leaf)
  qed
qed


lemma alloc_avail:
  assumes "phys_ok ps" and "phys_page_alloc ps = Some (p, ps')"
  shows "phys_ok ps'" and "avail ps' \<subseteq> avail ps"
  using alloc_takes [OF assms(1)] alloc_exhausted [OF assms(1)] assms
  by (cases "avail ps = {}"; auto)+

lemma map_range_avail:
  "map_range v a n = Some v' \<Longrightarrow> phys_ok (pages v) \<Longrightarrow> avail (pages v') \<subseteq> avail (pages v)"
proof (induction n arbitrary: v a)
  case (Suc n)
  show ?case
  proof (cases "find_physaddr v a = 0")
    case True
    with Suc.prems(1) obtain p ps w where w: "phys_page_alloc (pages v) = Some (p, ps)"
      "map_page p a (v\<lparr>pages := ps\<rparr>) = Some w" "map_range w (a + PAGE_SIZE) n = Some v'"
      by (auto split: option.splits)
    note ps = alloc_avail [OF Suc.prems(2) w(1)]
    have "phys_ok (pages w)" "avail (pages w) \<subseteq> avail ps"
      using pm.map_keeps [OF w(2) [unfolded map_page_def]] ps(1) by auto
    with Suc.IH [OF w(3)] ps(2) show ?thesis by blast
  qed (use Suc in simp)
qed simp

lemma map_range_maps:
  assumes "vm_ok v" and "apart_from_heap lo (pages v)" and "page_aligned a" and "lo \<le> a"
    and "unat a + n * 4096 \<le> 0x1000000000000"
    and "map_range v a n = Some v'" and "avail (pages v') \<noteq> {}"
  shows "vm_ok v' \<and> avail (pages v') \<subseteq> avail (pages v) \<and>
    (\<forall>y. page_aligned y \<longrightarrow> lo \<le> y \<longrightarrow> y < 0x1000000000000 \<longrightarrow> find_physaddr v y \<noteq> 0 \<longrightarrow>
      (\<forall>off < PAGE_SIZE. find_physaddr v' (y + off) = find_physaddr v (y + off))) \<and>
    (\<forall>i < n. find_physaddr v' (a + of_nat i * PAGE_SIZE) \<noteq> 0)"
  using assms
proof (induction n arbitrary: v a)
  case (Suc n)
  let ?b = "a + PAGE_SIZE"
  have pos: "0 < PAGE_SIZE" by (simp add: PAGE_SIZE_def)
  have a48: "a < 0x1000000000000" using Suc.prems(5) by (simp add: word_less_nat_alt)
  have ub: "unat ?b = unat a + 4096"
    using Suc.prems(5) by (subst unat_add_small) simp_all
  have b: "page_aligned ?b" "lo \<le> ?b" "unat ?b + n * 4096 \<le> 0x1000000000000"
    using Suc.prems(3,4,5) ub by (simp_all add: page_aligned_add word_le_nat_alt)
  show ?case
  proof (cases "find_physaddr v a = 0")
    case True
    with Suc.prems(6) obtain p ps w where w: "phys_page_alloc (pages v) = Some (p, ps)"
      "map_page p a (v\<lparr>pages := ps\<rparr>) = Some w" "map_range w ?b n = Some v'"
      by (auto split: option.splits)
    have "phys_ok (pages w)"
      using pm.map_keeps [OF w(2) [unfolded map_page_def]] alloc_avail(1) [OF _ w(1)] Suc.prems(1)
      by (simp add: vm_ok_def)
    then have ne: "avail (pages w) \<noteq> {}" using map_range_avail [OF w(3)] Suc.prems(7) by blast
    note M = map_one [OF Suc.prems(1,2,3,4) a48 w(1,2) ne]
    have apart: "apart_from_heap lo (pages w)"
      using Suc.prems(2) M(2) by (auto simp: apart_from_heap_def)
    note IH = Suc.IH [OF M(1) apart b w(3) Suc.prems(7)]
    have fst: "find_physaddr w a \<noteq> 0" using M(3) [of 0] by (simp add: PAGE_SIZE_def)
    have "find_physaddr v' (y + off) = find_physaddr v (y + off)"
      if y: "page_aligned y" "lo \<le> y" "y < 0x1000000000000" "find_physaddr v y \<noteq> 0" "off < PAGE_SIZE" for y off
    proof -
      have "y \<noteq> a" using True y(4) by auto
      then have "find_physaddr w (y + o') = find_physaddr v (y + o')" if "o' < PAGE_SIZE" for o'
        using M(4) y that by blast
      from this [of 0] this [of off] IH y pos show ?thesis by simp
    qed
    moreover have "find_physaddr v' (a + of_nat i * PAGE_SIZE) \<noteq> 0" if "i < Suc n" for i
    proof (cases i)
      case 0
      have "find_physaddr v' (a + 0) = find_physaddr w (a + 0)"
        using IH Suc.prems(3,4) a48 fst pos by blast
      with fst 0 show ?thesis by simp
    next
      case (Suc j)
      with that IH show ?thesis by (simp add: algebra_simps)
    qed
    ultimately show ?thesis using IH M(2) by blast
  next
    case False
    with Suc.prems(6) have r: "map_range v ?b n = Some v'" by simp
    note IH = Suc.IH [OF Suc.prems(1,2) b r Suc.prems(7)]
    have "find_physaddr v' (a + of_nat i * PAGE_SIZE) \<noteq> 0" if "i < Suc n" for i
    proof (cases i)
      case 0
      have "find_physaddr v' (a + 0) = find_physaddr v (a + 0)"
        using IH Suc.prems(3,4) a48 False pos by blast
      with False 0 show ?thesis by simp
    next
      case (Suc j)
      with that IH show ?thesis by (simp add: algebra_simps)
    qed
    with IH show ?thesis by blast
  qed
qed simp


lemma map_page_unaligned: "\<not> page_aligned a \<Longrightarrow> map_page p a v = Some v"
proof -
  assume "\<not> page_aligned a"
  moreover obtain n where "page_fuel (pages v) = Suc n" by (cases "page_fuel (pages v)") (simp_all add: page_fuel_def)
  ultimately show ?thesis by (simp add: map_page_def map_guard_def page_aligned_def)
qed

lemma map_range_unaligned:
  "\<not> page_aligned a \<Longrightarrow> map_range v a n = Some v' \<Longrightarrow> ram v' = ram v \<and> pml4 v' = pml4 v"
proof (induction n arbitrary: v a)
  case (Suc n)
  have b: "\<not> page_aligned (a + PAGE_SIZE)" using Suc.prems(1) by (simp add: page_aligned_add)
  from Suc.prems obtain w where "map_range w (a + PAGE_SIZE) n = Some v'" "ram w = ram v" "pml4 w = pml4 v"
    by (auto simp: map_page_unaligned split: if_splits option.splits)
  with Suc.IH [OF b] show ?case by simp
qed simp

lemma find_physaddr_offset:
  assumes "page_aligned y" and "off < PAGE_SIZE" and "find_physaddr v y \<noteq> 0"
  shows "find_physaddr v (y + off) = find_physaddr v y + off" and "find_physaddr v (y + off) \<noteq> 0"
proof -
  let ?e = "leaf (ram v) (pml4 v) (vpath y) (table_idx 12 y)"
  have "y AND 0xFFF = 0" using offset_mask [OF assms(1), of 0] by (simp add: PAGE_SIZE_def)
  then have f: "present ?e" "find_physaddr v y = ?e AND ADDR_MASK"
    using assms(3) by (auto simp: find_physaddr_leaf Let_def split: if_splits)
  then show eq: "find_physaddr v (y + off) = find_physaddr v y + off"
    using assms(1,2)
    by (simp add: find_physaddr_leaf vpath_offset table_idx_offset offset_mask Let_def)
  obtain n where n: "bit (?e AND ADDR_MASK) n" using assms(3) f(2) by (metis bit_eqI bit_0_eq bot_apply bot_bool_def)
  have "(?e AND ADDR_MASK) + off = (?e AND ADDR_MASK) OR off" by (rule page_offset_or) (simp_all add: assms(2))
  then have "bit (find_physaddr v (y + off)) n" using n by (simp add: eq f(2) bit_or_iff)
  then show "find_physaddr v (y + off) \<noteq> 0" by auto
qed

section \<open>Blocks that malloc returns\<close>

lemma unat_block_pages:
  assumes "page_aligned a" and "unat a + unat sz < 0x2000000000000"
  shows "unat (block_pages a sz) = (unat sz + 4095) div 4096"
proof -
  obtain k where k: "unat a = 4096 * k" using assms(1) by (auto simp: page_aligned_unat)
  have "unat (a + sz) = unat a + unat sz" using assms(2) by (intro unat_add_small) simp
  then have "unat (a + sz + PAGE_SIZE) = unat a + unat sz + 4096"
    using assms(2) by (subst unat_add_small) (simp_all add: PAGE_SIZE_def)
  then have "unat (a + sz + PAGE_SIZE - 1) = unat a + unat sz + 4095"
    by (subst unat_sub) (simp_all add: word_le_nat_alt)
  then have c: "unat (CEILING (a + sz) PAGE_SIZE) = (unat a + unat sz + 4095) div 4096"
    by (simp add: CEILING_def unat_div)
  also have "\<dots> = k + (unat sz + 4095) div 4096" by (simp add: k add.assoc)
  finally have c: "unat (CEILING (a + sz) PAGE_SIZE) = k + (unat sz + 4095) div 4096" .
  have d: "unat (a div PAGE_SIZE) = k" by (simp add: unat_div k)
  show ?thesis unfolding block_pages_def
    by (subst unat_sub) (simp_all add: word_le_nat_alt c d)
qed

lemma malloc_block_mapped:
  assumes ok: "heap_ok s" "vm_ok (vm s)" "apart_from_heap kernel_heap (pages (vm s))"
    and m: "malloc sz s = Some (a, t)" "a \<noteq> 0" "page_aligned a" and ne: "avail (pages (vm t)) \<noteq> {}"
    and off: "off < sz"
  shows "vm_ok (vm t) \<and> find_physaddr (vm t) (a + off) \<noteq> 0"
proof -
  have sz: "sz \<noteq> 0" using off by auto
  have m0: "malloc_heap sz (int 0) s = Some (a, t)" using m(1) by (simp add: malloc_def)
  have h: "0 < HEAPS" by (simp add: HEAPS_def)
  from ok(1) h sz show ?thesis
  proof (cases rule: malloc_heap_cases)
    case (got i j v)
    have v: "map_range (vm s) a (unat (block_pages a sz)) = Some v" "vm t = v"
      using got m0 by auto
    have "live 0 t a = Some sz" "heap_ok t"
      using malloc_spec [OF ok(1), of 0 sz] m0 m(2) by (auto simp: took_def HEAPS_def)
    then have "heap_lo 0 \<le> unat a" "unat a + unat sz \<le> heap_hi 0"
      using live_in_heap [of t 0 a sz] by (auto simp: HEAPS_def)
    then have a: "kernel_heap \<le> a" "unat a + unat sz \<le> 0x2000000000"
      by (auto simp: heap_lo_def heap_hi_def word_le_nat_alt kernel_stack_def)
    let ?n = "unat (block_pages a sz)" and ?i = "unat off div 4096" and ?o = "off mod PAGE_SIZE"
    have n: "?n = (unat sz + 4095) div 4096" using a(2) by (intro unat_block_pages m(3)) simp
    have "unat off < unat sz" using off by (simp add: word_less_nat_alt)
    then have i: "?i < ?n" unfolding n by (simp add: less_Suc_eq_le div_le_mono flip: Suc_le_eq)
    have "unat a + ?n * 4096 \<le> 0x1000000000000" using a(2) unfolding n by (simp add: div_times_less_eq_dividend)
    then have M: "vm_ok v" "find_physaddr v (a + of_nat ?i * PAGE_SIZE) \<noteq> 0"
      using map_range_maps [OF ok(2,3) m(3) a(1) _ v(1)] ne v(2) i by auto
    have o: "?o < PAGE_SIZE" by (simp add: word_less_nat_alt unat_mod PAGE_SIZE_def)
    have "?i < 2 ^ 64" using unat_u64_less [of off] by simp
    then have "of_nat ?i = off div PAGE_SIZE" by (simp add: word_unat_eq_iff unat_div PAGE_SIZE_def)
    then have "a + off = a + of_nat ?i * PAGE_SIZE + ?o"
      using div_mult_mod_eq [of off PAGE_SIZE] by (simp add: add.assoc)
    moreover have "page_aligned (a + of_nat ?i * PAGE_SIZE)"
      using m(3) by (rule page_aligned_add_pages)
    ultimately show ?thesis using find_physaddr_offset(2) [OF _ o M(2)] M(1) v(2) by metis
  qed (use m0 m(2) in \<open>auto simp: HEAPS_def\<close>)
qed

section \<open>Properties\<close>

lemma small_apart: "apart_from_heap kernel_heap (small_phys w)"
  using avail_pages [of "small_phys w"]
  by (auto simp: apart_from_heap_def small_pages kernel_heap_def)

text \<open>A kernel heap with a single free block, over a given address space.\<close>

definition one_block :: "phys vm \<Rightarrow> mem_t \<Rightarrow> kstate" where
  "one_block v e = (boot_state v)\<lparr>freespace := [(replicate FREE_SPACES \<lparr>m_addr = 0, m_size = 0\<rparr>)[0 := e],
     replicate FREE_SPACES \<lparr>m_addr = 0, m_size = 0\<rparr>]\<rparr>"

lemma one_block_ok:
  assumes "phys_ok (pages v)" and "root_ok v" and "block_in 0 e"
  shows "heap_ok (one_block v e)"
proof -
  let ?z = "\<lparr>m_addr = 0, m_size = 0\<rparr>"
  have "\<forall>d \<in> set ((replicate FREE_SPACES ?z)[0 := e]). block_in 0 d"
    using assms(3) by (intro set_update_all) (simp_all add: block_in_def)
  moreover have "cover ((replicate FREE_SPACES ?z)[0 := e]) x = of_bool (x \<in> extent e)" for x
    using cover_update [of 0 "replicate FREE_SPACES ?z" e x] by (simp add: FREE_SPACES_def)
  ultimately have "blocks_ok 0 ((replicate FREE_SPACES ?z)[0 := e]) (replicate ALLOCATIONS ?z)"
    by (simp add: blocks_ok_def block_in_def)
  with assms(1,2) show ?thesis
    by (auto simp: heap_ok_def one_block_def boot_state_def HEAPS_def less_2_cases_iff blocks_ok_def block_in_def)
qed

lemma one_block_malloc:
  assumes "sz \<noteq> 0" and "sz \<le> m_size e"
    and "map_range v (m_addr e) (unat (block_pages (m_addr e) sz)) = Some v'"
  shows "\<exists>t. malloc_heap sz 0 (one_block v e) = Some (m_addr e, t) \<and> vm t = v'"
proof -
  let ?s = "one_block v e"
  have i: "scan (\<lambda>i. sz \<le> m_size (freespace ?s ! 0 ! i)) 0 FREE_SPACES = Some 0"
    using assms(2) by (intro scan_head) (simp_all add: one_block_def FREE_SPACES_def)
  have j: "scan (\<lambda>j. m_size (allocations ?s ! 0 ! j) = 0) 0 ALLOCATIONS = Some 0"
    by (intro scan_head) (simp_all add: one_block_def boot_state_def HEAPS_def ALLOCATIONS_def)
  have e: "freespace ?s ! 0 ! 0 = e" "vm ?s = v"
    by (simp_all add: one_block_def boot_state_def FREE_SPACES_def)
  show ?thesis using assms i j by (simp add: malloc_heap_def HEAPS_def Let_def e)
qed

lemma small_allocs':
  "phys_page_alloc (small_phys 63) = Some (0x7000, small_phys 127)"
  by code_simp

lemma small_block:
  "\<exists>m. map_range small_vm kernel_heap 1 = Some \<lparr>ram = m, pml4 = 0x80000, pages = small_phys 127\<rparr>"
proof -
  have fuel: "page_fuel (small_phys w) = 12" for w by (simp add: page_fuel_def small_phys_def)
  have "find_physaddr small_vm kernel_heap = 0" by (simp add: find_physaddr_def small_vm_def)
  with fuel show ?thesis
    by (simp add: kernel_heap_def map_page_def small_vm_def small_allocs small_allocs' map_page_eval
        del: map_page_with.simps)
qed

lemma small_left': "0x8000 \<in> avail (small_phys 127)"
  unfolding avail_def small_pages
  by (rule CollectI, rule exI [of _ 7]) (simp add: small_phys_def bm_bit_def bit_numeral_rec)

text \<open>
  C9: When a block that \<^verbatim>\<open>malloc\<close> returns starts on a page boundary, every byte of it translates to
  physical memory afterwards and the address space stays well formed, provided that physical
  memory is not used up and all physical pages lie below the kernel heap and above page 0.
\<close>

theorem malloc_maps_aligned_block:
  assumes "heap_ok s" and "vm_ok (vm s)" and "apart_from_heap kernel_heap (pages (vm s))"
    and "malloc sz s = Some (a, t)" and "a \<noteq> 0" and "page_aligned a" and "avail (pages (vm t)) \<noteq> {}"
    and "off < sz"
  shows "vm_ok (vm t) \<and> find_physaddr (vm t) (a + off) \<noteq> 0"
  using assms by (rule malloc_block_mapped)

theorem malloc_maps_aligned_block_witness:
  "\<exists>t. malloc 4096 (one_block small_vm (whole_heap 0)) = Some (kernel_heap, t) \<and>
    find_physaddr (vm t) (kernel_heap + 5) \<noteq> 0"
proof -
  let ?s = "one_block small_vm (whole_heap 0)"
  have "block_in 0 (whole_heap 0)"
    by (simp add: block_in_def whole_heap_def heap_lo_def heap_hi_def kernel_heap_def kernel_stack_def)
  then have ok: "heap_ok ?s" "vm ?s = small_vm"
    using small_vm_ok one_block_ok by (auto simp: vm_ok_def) (simp add: one_block_def boot_state_def)
  obtain m where m: "map_range small_vm kernel_heap 1 = Some \<lparr>ram = m, pml4 = 0x80000, pages = small_phys 127\<rparr>"
    using small_block by blast
  have n: "unat (block_pages kernel_heap 4096) = 1" by (simp add: block_pages_def CEILING_def kernel_heap_def PAGE_SIZE_def)
  obtain t where t: "malloc 4096 ?s = Some (kernel_heap, t)"
    "vm t = \<lparr>ram = m, pml4 = 0x80000, pages = small_phys 127\<rparr>"
    using one_block_malloc [of 4096 "whole_heap 0" small_vm] m n
    by (auto simp: malloc_def whole_heap_def kernel_heap_def kernel_stack_def)
  have "page_aligned kernel_heap" by (simp add: kernel_heap_def page_aligned_numeral)
  with malloc_maps_aligned_block [OF ok(1) _ _ t(1), of 5] ok(2) small_vm_ok small_apart [of 1] small_left' t
  show ?thesis by (auto simp: small_vm_def kernel_heap_def)
qed

text \<open>
  When the free block that \<^verbatim>\<open>malloc_heap\<close> uses does not start on a page boundary, the call maps
  nothing: no translation changes, so the part of the block beyond the pages that earlier blocks
  had mapped stays inaccessible (\<^verbatim>\<open>map_page\<close> rejects the unaligned addresses).
\<close>

theorem malloc_unaligned_maps_nothing:
  assumes "heap_ok s" and "h < HEAPS" and "malloc_heap sz (int h) s = Some (a, t)" and "\<not> page_aligned a"
  shows "find_physaddr (vm t) x = find_physaddr (vm s) x"
proof -
  have "a \<noteq> 0" using assms(4) by auto
  moreover from this assms(1-3) have "sz \<noteq> 0"
    by (auto simp: malloc_heap_def split: if_splits)
  ultimately show ?thesis
    using assms
  proof (cases rule: malloc_heap_cases [OF assms(1,2) \<open>sz \<noteq> 0\<close>])
    case (3 i j v)
    then have "vm t = v" "map_range (vm s) a (unat (block_pages a sz)) = Some v" using assms(3) by auto
    with map_range_unaligned [OF assms(4)] show ?thesis by (simp add: find_physaddr_leaf)
  qed auto
qed

theorem malloc_unaligned_maps_nothing_witness:
  "\<exists>t. malloc_heap 5000 0 (one_block flat_vm \<lparr>m_addr = 0x1900000010, m_size = 0x10000\<rparr>) = Some (0x1900000010, t) \<and>
    find_physaddr (vm t) (0x1900000010 + 4096) = 0"
proof -
  let ?e = "\<lparr>m_addr = 0x1900000010, m_size = 0x10000\<rparr>"
  have ok: "heap_ok (one_block flat_vm ?e)"
    by (rule one_block_ok [OF flat_ok])
      (simp add: block_in_def heap_lo_def heap_hi_def kernel_heap_def kernel_stack_def)
  obtain v where "map_range flat_vm 0x1900000010 (unat (block_pages 0x1900000010 5000)) = Some v"
    using map_range_returns [OF flat_ok] by blast
  with one_block_malloc [of 5000 ?e flat_vm v] obtain t where
    t: "malloc_heap 5000 0 (one_block flat_vm ?e) = Some (0x1900000010, t)" by auto
  have "find_physaddr (vm (one_block flat_vm ?e)) x = 0" for x
    by (simp add: one_block_def boot_state_def flat_vm_def small_vm_def find_physaddr_def)
  with malloc_unaligned_maps_nothing [OF ok, of 0 5000 "0x1900000010" t] t show ?thesis
    by (simp add: HEAPS_def page_aligned_numeral)
qed

end
