(* ===== verification/KernelInit.thy ===== *)
theory KernelInit
  imports HeapPages
begin

text \<open>
  Start-up of the memory system: the globals taken from the boot loader (\<^verbatim>\<open>init_globals\<close> in
  \<^verbatim>\<open>arch/x86_64/init.h\<close>), the kernel's own page tables (\<^verbatim>\<open>init_paging\<close> in \<^verbatim>\<open>memory/paging.c\<close>) and
  \<^verbatim>\<open>init_memory\<close>. The properties concern where the allocator's own tables end up.
\<close>

section \<open>State and operations\<close>

record bootinfo_t =
  b_memmap :: u64
  b_mm_descs :: u64
  b_freemap :: u64
  b_fm_descs :: u64
  b_k_paddr :: u64
  b_k_vaddr :: u64
  b_k_size :: u64
  b_k_stack_paddr :: u64
  b_mb_addr :: u64
  b_mb_pages :: u64
  b_efi_rs :: u64
  b_fb_addr :: u64
  b_fb_size :: u64
  b_fb_w :: u32
  b_fb_h :: u32
  b_fb_pixperline :: u32

record globals =
  memmap_addr :: u64
  mm_descs_g :: u64
  freemap_addr :: u64
  fm_descs_g :: u64
  kernel_paddr :: u64
  kernel_vaddr :: u64
  kernel_size :: u64
  kernel_stack_paddr :: u64
  pmem_bmap_addr :: u64
  memory_pages :: u64
  pmem_bmap_pages :: u64
  efi_rs :: u64
  fb_addr :: u64
  fb_size :: u64
  fb_width :: u32
  fb_height :: u32
  fb_line :: u32

definition init_globals :: "bootinfo_t \<Rightarrow> globals" where
  "init_globals b =
     \<lparr>memmap_addr = b_memmap b, mm_descs_g = b_mm_descs b,
      freemap_addr = b_freemap b, fm_descs_g = b_fm_descs b,
      kernel_paddr = b_k_paddr b, kernel_vaddr = b_k_vaddr b, kernel_size = b_k_size b,
      kernel_stack_paddr = b_k_stack_paddr b,
      pmem_bmap_addr = b_mb_addr b, memory_pages = b_mb_pages b,
      pmem_bmap_pages = CEILING (b_mb_pages b) (8 * 4096 * 4096),
      efi_rs = b_efi_rs b,
      fb_addr = b_fb_addr b, fb_size = b_fb_size b, fb_width = b_fb_w b, fb_height = b_fb_h b,
      fb_line = b_fb_pixperline b\<rparr>"

text \<open>The three loops of \<^verbatim>\<open>init_paging\<close> that map a run of pages while a condition holds.\<close>

partial_function (option) map_while :: "(u64 \<Rightarrow> u64 \<Rightarrow> bool) \<Rightarrow> u64 \<Rightarrow> u64 \<Rightarrow> phys vm \<Rightarrow> phys vm option" where
  "map_while c addr1 addr2 v =
     (if c addr1 addr2
      then (case map_page addr1 addr2 v of
              None \<Rightarrow> None
            | Some v' \<Rightarrow> map_while c (addr1 + PAGE_SIZE) (addr2 + PAGE_SIZE) v')
      else Some v)"

definition fb_vaddr :: u64 where "fb_vaddr = 0x8000000000"

text \<open>The third component of the result is the value loaded into CR3.\<close>

definition init_paging :: "globals \<Rightarrow> phys vm \<Rightarrow> (globals \<times> phys vm \<times> u64) option" where
  "init_paging g v = do {
     let v = v\<lparr>ram := fst (memset (ram v) (pml4 v) 0 PAGE_SIZE)\<rparr>;
     v \<leftarrow> map_while (\<lambda>addr1 addr2. addr2 < kernel_vaddr g + kernel_size g) (kernel_paddr g) (kernel_vaddr g) v;
     v \<leftarrow> map_page (kernel_stack_paddr g) (kernel_stack - PAGE_SIZE) v;
     v \<leftarrow> map_while (\<lambda>addr1 addr2. addr1 < fb_addr g + fb_size g) (fb_addr g) fb_vaddr v;
     let g = g\<lparr>fb_addr := fb_vaddr\<rparr>;
     v \<leftarrow> map_while (\<lambda>addr1 addr2. addr1 < pmem_bmap_addr g + pmem_bmap_pages g)
        (pmem_bmap_addr g) (kernel_heap + PAGE_SIZE) v;
     v \<leftarrow> map_page (freemap_addr g) kernel_heap v;
     let cr3 = find_physaddr v (pml4 v);
     Some (g\<lparr>freemap_addr := kernel_heap, pmem_bmap_addr := kernel_heap + PAGE_SIZE\<rparr>, v, cr3)
   }"

definition init_memory :: "globals \<Rightarrow> kstate \<Rightarrow> (globals \<times> kstate \<times> u64) option" where
  "init_memory g s =
     (case init_paging g (vm s) of
        None \<Rightarrow> None
      | Some (g, v, cr3) \<Rightarrow> Some (g, init_malloc (s\<lparr>vm := v\<rparr>), cr3))"

section \<open>Properties\<close>

lemma init_paging_cells:
  "init_paging g v = Some (g', v', cr3) \<Longrightarrow>
     freemap_addr g' = kernel_heap \<and> pmem_bmap_addr g' = kernel_heap + PAGE_SIZE"
  by (auto simp: init_paging_def bind_eq_Some_conv Let_def)

lemma map_page_keeps: "map_page p a v = Some v' \<Longrightarrow> phys_ok (pages v) \<Longrightarrow> root_ok v \<Longrightarrow> phys_ok (pages v') \<and> root_ok v'"
  using map_page_returns [of v p a] by auto

lemma map_while_keeps:
  assumes "map_while c a1 a2 v = Some v'"
  shows "phys_ok (pages v) \<and> root_ok v \<longrightarrow> phys_ok (pages v') \<and> root_ok v'"
proof (rule map_while.raw_induct [where P =
      "\<lambda>c a1 a2 v v'. phys_ok (pages v) \<and> root_ok v \<longrightarrow> phys_ok (pages v') \<and> root_ok v'", OF _ assms])
  fix rec :: "(u64 \<Rightarrow> u64 \<Rightarrow> bool) \<Rightarrow> u64 \<Rightarrow> u64 \<Rightarrow> phys vm \<Rightarrow> phys vm option"
    and c :: "u64 \<Rightarrow> u64 \<Rightarrow> bool" and a1 a2 and v v' :: "phys vm"
  assume IH: "\<And>c a1 a2 v v'. rec c a1 a2 v = Some v' \<Longrightarrow>
        phys_ok (pages v) \<and> root_ok v \<longrightarrow> phys_ok (pages v') \<and> root_ok v'"
    and run: "(if c a1 a2 then case map_page a1 a2 v of None \<Rightarrow> None
                | Some w \<Rightarrow> rec c (a1 + PAGE_SIZE) (a2 + PAGE_SIZE) w else Some v) = Some v'"
  show "phys_ok (pages v) \<and> root_ok v \<longrightarrow> phys_ok (pages v') \<and> root_ok v'"
  proof (cases "c a1 a2")
    case True
    with run obtain w where w: "map_page a1 a2 v = Some w" "rec c (a1 + PAGE_SIZE) (a2 + PAGE_SIZE) w = Some v'"
      by (auto split: option.splits)
    with map_page_keeps [OF w(1)] IH [OF w(2)] show ?thesis by blast
  qed (use run in simp)
qed

lemma map_while_returns:
  assumes "\<not> c (a1 + of_nat n * PAGE_SIZE) (a2 + of_nat n * PAGE_SIZE)" and "phys_ok (pages v)" and "root_ok v"
  shows "\<exists>v'. map_while c a1 a2 v = Some v'"
  using assms
proof (induction n arbitrary: a1 a2 v)
  case 0
  then show ?case by (subst map_while.simps) simp
next
  case (Suc n)
  obtain w where w: "map_page a1 a2 v = Some w" "phys_ok (pages w)" "root_ok w"
    using map_page_returns Suc.prems(2,3) by blast
  have "\<not> c (a1 + PAGE_SIZE + of_nat n * PAGE_SIZE) (a2 + PAGE_SIZE + of_nat n * PAGE_SIZE)"
    using Suc.prems(1) by (simp add: algebra_simps)
  from Suc.IH [OF this w(2,3)] show ?case by (subst map_while.simps) (simp add: w(1))
qed

text \<open>A loop to a fixed bound leaves it: the bound lies a page below the top of the address space.\<close>

lemma run_passes:
  fixes a e :: u64
  assumes "unat e \<le> 2 ^ 64 - 4096"
  shows "\<exists>n. \<not> a + of_nat n * PAGE_SIZE < e"
proof -
  let ?n = "(unat e - unat a + 4095) div 4096"
  have "unat a < 2 ^ 64" using unsigned_less [of a] by simp
  moreover have "?n * 4096 \<le> unat e - unat a + 4095" "unat e - unat a \<le> ?n * 4096" "unat e < unat a \<Longrightarrow> ?n = 0"
    by auto
  ultimately have b: "unat e \<le> unat a + ?n * 4096" "unat a + ?n * 4096 < 2 ^ 64"
    using assms by (cases "unat e < unat a"; simp)+
  from b(2) have "unat (a + of_nat ?n * PAGE_SIZE) = unat a + ?n * 4096"
    by (simp add: unat_word_ariths unat_of_nat mod_mult_left_eq mod_add_right_eq)
  with b(1) show ?thesis by (intro exI [of _ ?n]) (simp add: word_less_nat_alt)
qed

lemma root_ok_ram [simp]: "root_ok (v\<lparr>ram := m\<rparr>) = root_ok v"
  by (simp add: root_ok_def)

lemma init_paging_keeps:
  assumes "init_paging g v = Some (g', v', cr3)" and "phys_ok (pages v)" and "root_ok v"
  shows "phys_ok (pages v') \<and> root_ok v'"
proof -
  let ?v = "v\<lparr>ram := fst (memset (ram v) (pml4 v) 0 PAGE_SIZE)\<rparr>"
  from assms(1) obtain v1 v2 v3 v4 where
    "map_while (\<lambda>addr1 addr2. addr2 < kernel_vaddr g + kernel_size g) (kernel_paddr g) (kernel_vaddr g) ?v = Some v1"
    "map_page (kernel_stack_paddr g) (kernel_stack - PAGE_SIZE) v1 = Some v2"
    "map_while (\<lambda>addr1 addr2. addr1 < fb_addr g + fb_size g) (fb_addr g) fb_vaddr v2 = Some v3"
    "map_while (\<lambda>addr1 addr2. addr1 < pmem_bmap_addr g + pmem_bmap_pages g) (pmem_bmap_addr g)
       (kernel_heap + PAGE_SIZE) v3 = Some v4"
    "map_page (freemap_addr g) kernel_heap v4 = Some v'"
    by (auto simp: init_paging_def bind_eq_Some_conv Let_def)
  note steps = map_while_keeps [OF this(1)] map_page_keeps [OF this(2)] map_while_keeps [OF this(3)]
    map_while_keeps [OF this(4)] map_page_keeps [OF this(5)]
  have "phys_ok (pages ?v)" "root_ok ?v" using assms(2,3) by simp_all
  with steps show ?thesis by blast
qed

text \<open>The ends of the three mapped runs stay a page below the top of the address space.\<close>

definition runs_end :: "globals \<Rightarrow> bool" where
  "runs_end g \<longleftrightarrow>
     unat (kernel_vaddr g + kernel_size g) \<le> 2 ^ 64 - 4096 \<and>
     unat (fb_addr g + fb_size g) \<le> 2 ^ 64 - 4096 \<and>
     unat (pmem_bmap_addr g + pmem_bmap_pages g) \<le> 2 ^ 64 - 4096"

lemma map_while_to:
  assumes "unat e \<le> 2 ^ 64 - 4096" and "phys_ok (pages v)" and "root_ok v"
  shows "\<exists>v'. map_while (\<lambda>addr1 addr2. addr1 < e) a1 a2 v = Some v' \<and> phys_ok (pages v') \<and> root_ok v'"
    and "\<exists>v'. map_while (\<lambda>addr1 addr2. addr2 < e) a1 a2 v = Some v' \<and> phys_ok (pages v') \<and> root_ok v'"
proof -
  obtain n where "\<not> a1 + of_nat n * PAGE_SIZE < e" using run_passes [OF assms(1)] by blast
  then obtain v' where "map_while (\<lambda>addr1 addr2. addr1 < e) a1 a2 v = Some v'"
    using map_while_returns [of "\<lambda>addr1 addr2. addr1 < e" a1 n a2, OF _ assms(2,3)] by auto
  with map_while_keeps [OF this] assms(2,3)
  show "\<exists>v'. map_while (\<lambda>addr1 addr2. addr1 < e) a1 a2 v = Some v' \<and> phys_ok (pages v') \<and> root_ok v'" by blast
next
  obtain n where "\<not> a2 + of_nat n * PAGE_SIZE < e" using run_passes [OF assms(1)] by blast
  then obtain v' where "map_while (\<lambda>addr1 addr2. addr2 < e) a1 a2 v = Some v'"
    using map_while_returns [of "\<lambda>addr1 addr2. addr2 < e" a1 n a2, OF _ assms(2,3)] by auto
  with map_while_keeps [OF this] assms(2,3)
  show "\<exists>v'. map_while (\<lambda>addr1 addr2. addr2 < e) a1 a2 v = Some v' \<and> phys_ok (pages v') \<and> root_ok v'" by blast
qed

lemma init_paging_returns:
  assumes "phys_ok (pages v)" and "root_ok v" and "runs_end g"
  shows "\<exists>g' v' cr3. init_paging g v = Some (g', v', cr3)"
proof -
  let ?v = "v\<lparr>ram := fst (memset (ram v) (pml4 v) 0 PAGE_SIZE)\<rparr>"
  note e = assms(3) [unfolded runs_end_def]
  have v: "phys_ok (pages ?v)" "root_ok ?v" using assms(1,2) by simp_all
  obtain v1 where v1: "map_while (\<lambda>addr1 addr2. addr2 < kernel_vaddr g + kernel_size g)
      (kernel_paddr g) (kernel_vaddr g) ?v = Some v1" "phys_ok (pages v1)" "root_ok v1"
    using map_while_to(2) [OF _ v] e by blast
  obtain v2 where v2: "map_page (kernel_stack_paddr g) (kernel_stack - PAGE_SIZE) v1 = Some v2"
      "phys_ok (pages v2)" "root_ok v2"
    using map_page_returns [OF v1(2,3)] by blast
  obtain v3 where v3: "map_while (\<lambda>addr1 addr2. addr1 < fb_addr g + fb_size g) (fb_addr g) fb_vaddr v2 = Some v3"
      "phys_ok (pages v3)" "root_ok v3"
    using map_while_to(1) [OF _ v2(2,3)] e by blast
  obtain v4 where v4: "map_while (\<lambda>addr1 addr2. addr1 < pmem_bmap_addr g + pmem_bmap_pages g) (pmem_bmap_addr g)
       (kernel_heap + PAGE_SIZE) v3 = Some v4" "phys_ok (pages v4)" "root_ok v4"
    using map_while_to(1) [OF _ v3(2,3)] e by blast
  obtain v5 where v5: "map_page (freemap_addr g) kernel_heap v4 = Some v5"
    using map_page_returns [OF v4(2,3)] by blast
  show ?thesis by (simp add: init_paging_def Let_def v1(1) v2(1) v3(1) v4(1) v5)
qed

text \<open>
  \<^verbatim>\<open>init_paging\<close> maps a single page of the bitmap of physical pages for every machine of up to
  \<open>2 ^ 39\<close> pages: the loop's bound adds the number of bitmap pages, itself computed with one
  factor of 4096 too many, to a byte address. (A bitmap needs one page per 32768 pages.)
\<close>

theorem init_paging_maps_one_bitmap_page:
  assumes "g = init_globals b" and "0 < b_mb_pages b" and "b_mb_pages b \<le> 0x8000000000"
    and "unat (b_mb_addr b) + 8192 < 2 ^ 64"
  shows "map_while (\<lambda>addr1 addr2. addr1 < pmem_bmap_addr g + pmem_bmap_pages g) (pmem_bmap_addr g) (kernel_heap + PAGE_SIZE) v =
    map_page (pmem_bmap_addr g) (kernel_heap + PAGE_SIZE) v"
proof -
  let ?n = "pmem_bmap_pages g" and ?b = "pmem_bmap_addr g"
  have m: "1 \<le> unat (b_mb_pages b)" "unat (b_mb_pages b) \<le> 0x8000000000"
    using assms(2,3) by (simp_all add: word_le_nat_alt word_less_nat_alt)
  have "unat (b_mb_pages b + 0x8000000 - 1) = unat (b_mb_pages b) + 0x7FFFFFF"
    using m by (subst unat_sub) (simp_all add: unat_add_small word_le_nat_alt)
  then have n: "unat ?n = (unat (b_mb_pages b) + 0x7FFFFFF) div 0x8000000"
    by (simp add: assms(1) init_globals_def CEILING_def unat_div)
  then have n: "1 \<le> unat ?n" "unat ?n \<le> 4096" using m by auto
  have b: "unat ?b + 8192 < 2 ^ 64" using assms(1,4) by (simp add: init_globals_def)
  have first: "?b < ?b + ?n" "\<not> ?b + PAGE_SIZE < ?b + ?n"
    using n b by (simp_all add: word_less_nat_alt unat_add_small)
  have stop: "map_while (\<lambda>addr1 addr2. addr1 < ?b + ?n) (?b + PAGE_SIZE) a w = Some w" for a w
    using first(2) by (subst map_while.simps) simp
  show ?thesis using first(1) by (subst map_while.simps) (simp add: stop split: option.split)
qed

definition demo_boot :: bootinfo_t where
  "demo_boot = \<lparr>b_memmap = 0, b_mm_descs = 2, b_freemap = 0x9000, b_fm_descs = 1, b_k_paddr = 0, b_k_vaddr = 0x1000000000,
     b_k_size = 0, b_k_stack_paddr = 0xA000, b_mb_addr = 0xB000, b_mb_pages = 0x100000, b_efi_rs = 0,
     b_fb_addr = 0, b_fb_size = 0, b_fb_w = 0, b_fb_h = 0, b_fb_pixperline = 0\<rparr>"

theorem init_paging_maps_one_bitmap_page_witness:
  "map_while (\<lambda>addr1 addr2. addr1 < 0xB001) 0xB000 (kernel_heap + PAGE_SIZE) demo_vm =
    map_page 0xB000 (kernel_heap + PAGE_SIZE) demo_vm"
  using init_paging_maps_one_bitmap_page [of "init_globals demo_boot" demo_boot demo_vm]
  by (simp add: init_globals_def demo_boot_def CEILING_def)

lemma first_malloc:
  assumes "boot_tables s" and "init_memory g s = Some (g', s', cr3)" and "sz \<noteq> 0" and "unat sz \<le> 0x800000000"
  shows "\<exists>t. malloc sz s' = Some (freemap_addr g', t)"
proof -
  from assms(2) obtain v where v: "init_paging g (vm s) = Some (g', v, cr3)" "s' = init_malloc (s\<lparr>vm := v\<rparr>)"
    by (auto simp: init_memory_def split: option.splits)
  have "phys_ok (pages v) \<and> root_ok v" using init_paging_keeps [OF v(1)] assms(1) by (simp add: boot_tables_def)
  then have b: "boot_tables (s\<lparr>vm := v\<rparr>)" using assms(1) by (simp add: boot_tables_def)
  have h: "0 < HEAPS" by (simp add: HEAPS_def)
  note T = init_malloc_tables(1,2) [OF b h] and ok = init_malloc_ok(1) [OF b]
  have e: "freespace s' ! 0 ! 0 = whole_heap 0" "m_size (allocations s' ! 0 ! 0) = 0"
    using T by (simp_all add: v(2) FREE_SPACES_def ALLOCATIONS_def)
  have i: "scan (\<lambda>i. sz \<le> m_size (freespace s' ! 0 ! i)) 0 FREE_SPACES = Some 0"
    using assms(4) by (intro scan_head) (simp_all add: e FREE_SPACES_def whole_heap_def kernel_heap_def
        kernel_stack_def word_le_nat_alt)
  have j: "scan (\<lambda>j. m_size (allocations s' ! 0 ! j) = 0) 0 ALLOCATIONS = Some 0"
    by (intro scan_head) (simp_all add: e ALLOCATIONS_def)
  have a: "m_addr (whole_heap 0) = kernel_heap" by (simp add: whole_heap_def)
  obtain w where "map_range (vm s') kernel_heap (unat (block_pages kernel_heap sz)) = Some w"
    using map_range_returns heap_okD(4,5) [OF ok] v(2) by blast
  with i j assms(3) init_paging_cells [OF v(1)] show ?thesis
    by (simp add: malloc_def malloc_heap_def HEAPS_def Let_def e a)
qed

text \<open>
  C29: \<^verbatim>\<open>init_memory\<close> on zeroed tables returns whenever its mapped runs end a page below the top of the
  address space, and the first request after it, of any size that fits, returns the address at
  which \<^verbatim>\<open>init_paging\<close> has just placed the free map: the kernel heap includes the pages that hold
  the page allocator's own tables.
\<close>

theorem first_malloc_returns_freemap:
  assumes "boot_tables s" and "runs_end g"
  shows "\<exists>g' s' cr3. init_memory g s = Some (g', s', cr3) \<and>
    (\<forall>sz. sz \<noteq> 0 \<and> unat sz \<le> 0x800000000 \<longrightarrow> (\<exists>t. malloc sz s' = Some (freemap_addr g', t)))"
proof -
  obtain g' v' cr3 where "init_paging g (vm s) = Some (g', v', cr3)"
    using init_paging_returns [OF _ _ assms(2)] assms(1) unfolding boot_tables_def by blast
  then have i: "init_memory g s = Some (g', init_malloc (s\<lparr>vm := v'\<rparr>), cr3)" by (simp add: init_memory_def)
  with first_malloc [OF assms(1) i] show ?thesis by blast
qed

theorem first_malloc_returns_freemap_witness:
  "\<exists>g' s' cr3. init_memory (init_globals demo_boot) (boot_state flat_vm) = Some (g', s', cr3) \<and>
    (\<exists>t. malloc 160000 s' = Some (freemap_addr g', t))"
proof -
  have "runs_end (init_globals demo_boot)"
    by (simp add: runs_end_def init_globals_def demo_boot_def CEILING_def)
  from first_malloc_returns_freemap [OF boot_state_tables [OF flat_ok] this] obtain g' s' cr3 where
    *: "init_memory (init_globals demo_boot) (boot_state flat_vm) = Some (g', s', cr3)"
      "\<forall>sz. sz \<noteq> 0 \<and> unat sz \<le> 0x800000000 \<longrightarrow> (\<exists>t. malloc sz s' = Some (freemap_addr g', t))" by blast
  have "\<exists>t. malloc 160000 s' = Some (freemap_addr g', t)" using *(2) [rule_format, of 160000] by simp
  with *(1) show ?thesis by blast
qed

end
