(* ===== verification/PortIO.thy ===== *)
theory PortIO
  imports Prelude
begin

text \<open>
  Port and model-specific-register accesses (\<^verbatim>\<open>kernel/arch/x86_64/cpu/IO.c\<close>) as a trace of
  events, and the interrupt controllers' driver (\<^verbatim>\<open>ints/PIC.c\<close>). What the hardware answers is a
  parameter: a \<open>device\<close> is any function from the trace so far to the value read. The section on
  the 8259A states the documented protocol of the two controllers as an abstract machine that
  reads the trace, and the properties say what the driver's traces do to it.
\<close>

section \<open>Port accesses\<close>

datatype io_event =
    OutB u16 u8
  | OutW u16 u16
  | InB u16 u8
  | InW u16 u16
  | RdMsr u32 u64
  | WrMsr u32 u64

type_synonym trace = "io_event list"

record device =
  dev_inb :: "trace \<Rightarrow> u16 \<Rightarrow> u8"
  dev_inw :: "trace \<Rightarrow> u16 \<Rightarrow> u16"
  dev_msr :: "trace \<Rightarrow> u32 \<Rightarrow> u64"

definition inb :: "device \<Rightarrow> u16 \<Rightarrow> trace \<Rightarrow> u8 \<times> trace" where
  "inb d port t = (let v = dev_inb d t port in (v, t @ [InB port v]))"

definition outb :: "u16 \<Rightarrow> u8 \<Rightarrow> trace \<Rightarrow> trace" where
  "outb port v t = t @ [OutB port v]"

definition inw :: "device \<Rightarrow> u16 \<Rightarrow> trace \<Rightarrow> u16 \<times> trace" where
  "inw d port t = (let v = dev_inw d t port in (v, t @ [InW port v]))"

definition outw :: "u16 \<Rightarrow> u16 \<Rightarrow> trace \<Rightarrow> trace" where
  "outw port v t = t @ [OutW port v]"

definition rdmsr :: "device \<Rightarrow> u32 \<Rightarrow> trace \<Rightarrow> u64 \<times> trace" where
  "rdmsr d msr t = (let v = dev_msr d t msr in (v, t @ [RdMsr msr v]))"

definition wrmsr :: "u32 \<Rightarrow> u64 \<Rightarrow> trace \<Rightarrow> trace" where
  "wrmsr msr v t = t @ [WrMsr msr v]"

definition iowait :: "trace \<Rightarrow> trace" where
  "iowait t = outb 0x80 0x80 t"

section \<open>The interrupt controllers\<close>

definition PIC1_CMD :: u16 where "PIC1_CMD = 0x20"
definition PIC1_DAT :: u16 where "PIC1_DAT = 0x21"
definition PIC2_CMD :: u16 where "PIC2_CMD = 0xA0"
definition PIC2_DAT :: u16 where "PIC2_DAT = 0xA1"
definition EOI :: u8 where "EOI = 0x20"

definition piceoi :: "bool \<Rightarrow> trace \<Rightarrow> trace" where
  "piceoi isslave t =
     (let t = (if isslave then outb PIC2_CMD EOI t else t)
      in outb PIC1_CMD EOI t)"

definition remappic :: "device \<Rightarrow> u8 \<Rightarrow> u8 \<Rightarrow> trace \<Rightarrow> trace" where
  "remappic d master slave t =
     (let (mm, t) = inb d PIC1_DAT t;
          (sm, t) = inb d PIC2_DAT t;
          t = iowait (outb PIC1_CMD 0x11 t);
          t = iowait (outb PIC2_CMD 0x11 t);
          t = iowait (outb PIC1_DAT master t);
          t = iowait (outb PIC2_DAT slave t);
          t = iowait (outb PIC1_DAT 4 t);
          t = iowait (outb PIC2_DAT 2 t);
          t = iowait (outb PIC1_DAT 1 t);
          t = iowait (outb PIC2_DAT 1 t);
          t = outb PIC1_DAT mm t
      in outb PIC2_DAT sm t)"

text \<open>
  The masks are computed in \<^verbatim>\<open>int\<close>: shifting \<^verbatim>\<open>1\<close> by 32 or more has no defined value (\<^term>\<open>None\<close>),
  and the conversion to the byte argument of \<^verbatim>\<open>outb\<close> drops the bits above the eighth.
\<close>

definition shifted_one :: "nat \<Rightarrow> u32 option" where
  "shifted_one n = (if n < 32 then Some (push_bit n 1) else None)"

definition maskirq :: "device \<Rightarrow> u8 \<Rightarrow> trace \<Rightarrow> trace option" where
  "maskirq d irq t =
     (if irq < 8 then do {
        one \<leftarrow> shifted_one (unat irq);
        let (v, t) = inb d PIC1_DAT t;
        Some (outb PIC1_DAT (ucast (ucast v OR one)) t)
      }
      else do {
        one \<leftarrow> shifted_one (unat irq - 8);
        let (v, t) = inb d PIC2_DAT t;
        Some (outb PIC2_DAT (ucast (ucast v OR one)) t)
      })"

definition unmaskirq :: "device \<Rightarrow> u8 \<Rightarrow> trace \<Rightarrow> trace option" where
  "unmaskirq d irq t =
     (if irq < 8 then do {
        one \<leftarrow> shifted_one (unat irq);
        let (v, t) = inb d PIC1_DAT t;
        Some (outb PIC1_DAT (ucast (ucast v AND NOT one)) t)
      }
      else do {
        one \<leftarrow> shifted_one (unat irq - 8);
        let (v, t) = inb d PIC2_DAT t;
        Some (outb PIC2_DAT (ucast (ucast v AND NOT one)) t)
      })"

section \<open>The 8259A protocol\<close>

text \<open>
  One controller: after a command byte with bit 4 set it takes three initialisation words on its
  data port (the vector offset first; the command byte 0x11 announces the fourth word, which is
  always sent here), afterwards writes to the data port set the interrupt mask.
\<close>

record pic =
  icw :: nat
  vector :: u8
  imr :: u8

definition pic_write :: "u16 \<Rightarrow> io_event \<Rightarrow> pic \<Rightarrow> pic" where
  "pic_write cmd e p = (case e of
     OutB port v \<Rightarrow>
       (if port = cmd then (if bit v 4 then p\<lparr>icw := 3, imr := 0\<rparr> else p)
        else if port = cmd + 1 then
          (if icw p = 3 then p\<lparr>icw := 2, vector := v\<rparr>
           else if icw p = 0 then p\<lparr>imr := v\<rparr>
           else p\<lparr>icw := icw p - 1\<rparr>)
        else p)
   | _ \<Rightarrow> p)"

definition pic_after :: "u16 \<Rightarrow> trace \<Rightarrow> pic \<Rightarrow> pic" where
  "pic_after cmd t p = fold (pic_write cmd) t p"

definition pic_start :: pic where
  "pic_start = \<lparr>icw = 0, vector = 0, imr = 0\<rparr>"

text \<open>A machine with the two controllers: reading a data port returns that controller's mask.\<close>

definition has_pics :: "device \<Rightarrow> bool" where
  "has_pics d \<longleftrightarrow> (\<forall>t. dev_inb d t PIC1_DAT = imr (pic_after PIC1_CMD t pic_start)) \<and>
     (\<forall>t. dev_inb d t PIC2_DAT = imr (pic_after PIC2_CMD t pic_start))"

lemma pic_after_simps [simp]:
  "pic_after cmd [] p = p"
  "pic_after cmd (e # t) p = pic_after cmd t (pic_write cmd e p)"
  "pic_after cmd (t @ u) p = pic_after cmd u (pic_after cmd t p)"
  by (simp_all add: pic_after_def)

lemmas port_defs = inb_def outb_def inw_def outw_def rdmsr_def wrmsr_def iowait_def Let_def
lemmas pic_defs = PIC1_CMD_def PIC1_DAT_def PIC2_CMD_def PIC2_DAT_def EOI_def

definition pics :: "trace \<Rightarrow> pic \<times> pic" where
  "pics t = (pic_after PIC1_CMD t pic_start, pic_after PIC2_CMD t pic_start)"

lemma remappic_trace:
  "remappic d master slave t = (let mm = dev_inb d t PIC1_DAT; sm = dev_inb d (t @ [InB PIC1_DAT mm]) PIC2_DAT
     in t @ [InB PIC1_DAT mm, InB PIC2_DAT sm, OutB PIC1_CMD 0x11, OutB 0x80 0x80, OutB PIC2_CMD 0x11, OutB 0x80 0x80,
       OutB PIC1_DAT master, OutB 0x80 0x80, OutB PIC2_DAT slave, OutB 0x80 0x80,
       OutB PIC1_DAT 4, OutB 0x80 0x80, OutB PIC2_DAT 2, OutB 0x80 0x80,
       OutB PIC1_DAT 1, OutB 0x80 0x80, OutB PIC2_DAT 1, OutB 0x80 0x80,
       OutB PIC1_DAT mm, OutB PIC2_DAT sm])"
  by (simp add: remappic_def port_defs)

lemma remappic_state:
  assumes "has_pics d" and "pics t = (m, s)" and "icw m = 0" and "icw s = 0"
  shows "pics (remappic d master slave t) = (m\<lparr>vector := master\<rparr>, s\<lparr>vector := slave\<rparr>)"
proof -
  have m: "pic_after 0x20 t pic_start = m" "pic_after 0xA0 t pic_start = s"
    using assms(2) by (auto simp: pics_def pic_defs)
  have "dev_inb d t PIC1_DAT = imr m" "dev_inb d (t @ [InB PIC1_DAT (imr m)]) PIC2_DAT = imr s"
    using assms(1) m by (simp_all add: has_pics_def pic_write_def PIC1_CMD_def PIC2_CMD_def)
  then show ?thesis
    using assms(3,4) m by (simp add: remappic_trace Let_def pics_def pic_defs pic_write_def bit_numeral_rec)
qed

section \<open>Properties\<close>

text \<open>
  On a machine with two 8259A controllers that are not in the middle of an initialisation,
  \<^verbatim>\<open>remappic\<close> moves their interrupts to the two given vectors, leaves both ready and keeps
  both masks.
\<close>

theorem remappic_remaps:
  assumes "has_pics d" and "pics t = (m, s)" and "icw m = 0" and "icw s = 0"
  shows "pics (remappic d master slave t) = (m\<lparr>vector := master\<rparr>, s\<lparr>vector := slave\<rparr>)"
  using assms by (rule remappic_state)

definition pic_device :: device where
  "pic_device = \<lparr>dev_inb = (\<lambda>t port. if port = PIC1_DAT then imr (pic_after PIC1_CMD t pic_start)
       else if port = PIC2_DAT then imr (pic_after PIC2_CMD t pic_start) else 0),
     dev_inw = (\<lambda>_ _. 0), dev_msr = (\<lambda>_ _. 0)\<rparr>"

lemma has_pics_device: "has_pics pic_device"
  by (simp add: has_pics_def pic_device_def pic_defs)

theorem remappic_remaps_witness:
  "pics (remappic pic_device 0x20 0x28 []) = (pic_start\<lparr>vector := 0x20\<rparr>, pic_start\<lparr>vector := 0x28\<rparr>)"
  using remappic_remaps [OF has_pics_device, of "[]" pic_start pic_start]
  by (simp add: pics_def) (simp add: pic_start_def)

definition masked :: "trace \<Rightarrow> nat \<Rightarrow> bool" where
  "masked t n = (if n < 8 then bit (imr (fst (pics t))) n else bit (imr (snd (pics t))) (n - 8))"

lemma bit_mask_byte:
  fixes v :: u8
  assumes "k < 8" and "n < 8"
  shows "bit (ucast ((ucast v :: u32) OR push_bit k 1) :: u8) n \<longleftrightarrow> n = k \<or> bit v n"
    and "bit (ucast ((ucast v :: u32) AND NOT (push_bit k 1)) :: u8) n \<longleftrightarrow> n \<noteq> k \<and> bit v n"
  using assms by (auto simp: bit_ucast_iff bit_or_iff bit_and_iff bit_not_iff bit_exp_iff)

lemma irq_masks_state:
  assumes "has_pics d" and "pics t = (m, s)" and "icw m = 0" and "icw s = 0" and "irq < 16" and "n < 16"
  shows "\<exists>t' t''. maskirq d irq t = Some t' \<and> unmaskirq d irq t = Some t'' \<and>
    (masked t' n \<longleftrightarrow> n = unat irq \<or> masked t n) \<and> (masked t'' n \<longleftrightarrow> n \<noteq> unat irq \<and> masked t n)"
proof -
  have m: "pic_after 0x20 t pic_start = m" "pic_after 0xA0 t pic_start = s"
    using assms(2) by (auto simp: pics_def pic_defs)
  have r: "dev_inb d t PIC1_DAT = imr m" "dev_inb d t PIC2_DAT = imr s"
    using assms(1) m by (simp_all add: has_pics_def PIC1_CMD_def PIC2_CMD_def)
  have i: "unat irq < 16" using assms(5) by (simp add: word_less_nat_alt)
  have lt: "irq < 8 \<longleftrightarrow> unat irq < 8" by (simp add: word_less_nat_alt)
  show ?thesis
  proof (cases "unat irq < 8")
    case True
    then show ?thesis
      using assms(3,4,6) m r bit_mask_byte [of "unat irq" n "imr m"]
      by (simp add: maskirq_def unmaskirq_def lt shifted_one_def port_defs masked_def pics_def
          pic_write_def PIC1_CMD_def PIC2_CMD_def PIC1_DAT_def PIC2_DAT_def)
  next
    case False
    then show ?thesis
      using assms(3,4,6) m r i bit_mask_byte [of "unat irq - 8" "n - 8" "imr s"]
      by (auto simp add: maskirq_def unmaskirq_def lt shifted_one_def port_defs masked_def pics_def
          pic_write_def PIC1_CMD_def PIC2_CMD_def PIC1_DAT_def PIC2_DAT_def)
  qed
qed

text \<open>
  \<^verbatim>\<open>maskirq\<close> and \<^verbatim>\<open>unmaskirq\<close> return for each of the sixteen interrupt lines and set,
  respectively clear, exactly that line's bit in the controllers' masks (lines 0 to 7 on the
  master, 8 to 15 on the slave).
\<close>

theorem irq_masks:
  assumes "has_pics d" and "pics t = (m, s)" and "icw m = 0" and "icw s = 0" and "irq < 16" and "n < 16"
  shows "\<exists>t' t''. maskirq d irq t = Some t' \<and> unmaskirq d irq t = Some t'' \<and>
    (masked t' n \<longleftrightarrow> n = unat irq \<or> masked t n) \<and> (masked t'' n \<longleftrightarrow> n \<noteq> unat irq \<and> masked t n)"
  using assms by (rule irq_masks_state)

theorem irq_masks_witness:
  "\<exists>t'. unmaskirq pic_device 9 [OutB PIC2_DAT 255] = Some t' \<and> \<not> masked t' 9"
  using irq_masks [OF has_pics_device, of "[OutB PIC2_DAT 255]" pic_start "pic_start\<lparr>imr := 255\<rparr>" 9 9]
  by (auto simp: pics_def pic_write_def pic_defs pic_start_def)

end
