(* ===== verification/Disk.thy ===== *)
theory Disk
  imports PortIO
begin

text \<open>
  The programmed-I/O disk driver (\<^verbatim>\<open>kernel/disk/PIO.c\<close>): sector reads and writes as port traces
  over byte memory. The loops that wait for the drive may wait forever, so the operations are
  partial (\<^term>\<open>None\<close>). The section on drives states the documented LBA48 register protocol as an
  abstract drive that decodes the trace.
\<close>

section \<open>Operations\<close>

definition ATA_PRIMARY :: u16 where "ATA_PRIMARY = 0x1F0"
definition ATA_SECOND :: u16 where "ATA_SECOND = 0x170"

definition DAT :: u16 where "DAT = 0"
definition SEC :: u16 where "SEC = 2"
definition LBALO :: u16 where "LBALO = 3"
definition LBAMID :: u16 where "LBAMID = 4"
definition LBAHI :: u16 where "LBAHI = 5"
definition DHR :: u16 where "DHR = 6"
definition STS :: u16 where "STS = 7"
definition ATA_CMD :: u16 where "ATA_CMD = 7"

definition DRQ :: u8 where "DRQ = 0x08"
definition BSY :: u8 where "BSY = 0x80"

definition ATA_READ :: u8 where "ATA_READ = 0x24"
definition ATA_WRITE :: u8 where "ATA_WRITE = 0x34"
definition IDENTIFY :: u8 where "IDENTIFY = 0xEC"

partial_function (option) poll :: "device \<Rightarrow> u16 \<Rightarrow> u8 \<Rightarrow> trace \<Rightarrow> trace option" where
  "poll d port status t =
     (case inb d (port + STS) t of (v, t) \<Rightarrow> if v AND status \<noteq> 0 then poll d port status t else Some t)"

partial_function (option) antipoll :: "device \<Rightarrow> u16 \<Rightarrow> u8 \<Rightarrow> trace \<Rightarrow> trace option" where
  "antipoll d port status t =
     (case inb d (port + STS) t of (v, t) \<Rightarrow> if v AND status = 0 then antipoll d port status t else Some t)"

primrec inb_times :: "nat \<Rightarrow> device \<Rightarrow> u16 \<Rightarrow> trace \<Rightarrow> trace" where
  "inb_times 0 d port t = t"
| "inb_times (Suc n) d port t = inb_times n d port (snd (inb d port t))"

definition smalldelay :: "device \<Rightarrow> trace \<Rightarrow> trace" where
  "smalldelay d t = inb_times 15 d (ATA_PRIMARY + STS) t"

definition disk_port :: "u32 \<Rightarrow> u16" where
  "disk_port disk = (if disk \<ge> 2 then ATA_SECOND else ATA_PRIMARY)"

text \<open>The register writes that select drive, sectors and command, in LBA48 order.\<close>

definition send_command :: "u16 \<Rightarrow> u8 \<Rightarrow> u64 \<Rightarrow> u16 \<Rightarrow> u8 \<Rightarrow> trace \<Rightarrow> trace" where
  "send_command port outcmd LBA count cmd t =
     (let t = outb (port + DHR) outcmd t;
          t = outb (port + SEC) (ucast (drop_bit 8 count)) t;
          t = outb (port + LBALO) (ucast (drop_bit 24 LBA)) t;
          t = outb (port + LBAMID) (ucast (drop_bit 32 LBA)) t;
          t = outb (port + LBAHI) (ucast (drop_bit 40 LBA)) t;
          t = outb (port + SEC) (ucast count) t;
          t = outb (port + LBALO) (ucast LBA) t;
          t = outb (port + LBAMID) (ucast (drop_bit 8 LBA)) t;
          t = outb (port + LBAHI) (ucast (drop_bit 16 LBA)) t
      in outb (port + ATA_CMD) cmd t)"

primrec read_words :: "nat \<Rightarrow> device \<Rightarrow> u16 \<Rightarrow> u64 \<Rightarrow> mem \<Rightarrow> trace \<Rightarrow> mem \<times> trace" where
  "read_words 0 d port buf m t = (m, t)"
| "read_words (Suc n) d port buf m t =
     (let (v, t) = inw d (port + DAT) t in read_words n d port (buf + 2) (store_le m buf 2 v) t)"

primrec read_sectors :: "nat \<Rightarrow> device \<Rightarrow> u16 \<Rightarrow> u64 \<Rightarrow> mem \<Rightarrow> trace \<Rightarrow> (mem \<times> trace) option" where
  "read_sectors 0 d port buf m t = Some (m, t)"
| "read_sectors (Suc n) d port buf m t = do {
     let t = smalldelay d t;
     t \<leftarrow> poll d port BSY t;
     t \<leftarrow> antipoll d port DRQ t;
     let (m, t) = read_words 256 d port buf m t;
     read_sectors n d port (buf + 512) m t
   }"

definition readsectorpio ::
  "device \<Rightarrow> u64 \<Rightarrow> u16 \<Rightarrow> u64 \<Rightarrow> u32 \<Rightarrow> mem \<Rightarrow> trace \<Rightarrow> (mem \<times> trace) option" where
  "readsectorpio d LBA count buffer disk m t = do {
     let port = disk_port disk;
     let outcmd = (if disk mod 2 \<noteq> 0 then 0x50 else 0x40);
     t \<leftarrow> poll d port BSY t;
     let t = send_command port outcmd LBA count ATA_READ t;
     read_sectors (unat count) d port buffer m t
   }"

text \<open>The data loop of \<^verbatim>\<open>writesectorpio\<close> sends each 16-bit word with \<^verbatim>\<open>outb\<close>, which takes a byte.\<close>

primrec write_words :: "nat \<Rightarrow> u16 \<Rightarrow> u64 \<Rightarrow> mem \<Rightarrow> trace \<Rightarrow> trace" where
  "write_words 0 port buf m t = t"
| "write_words (Suc n) port buf m t =
     write_words n port (buf + 2) m (outb (port + DAT) (ucast (load_le m buf 2 :: u16)) t)"

primrec write_sectors :: "nat \<Rightarrow> device \<Rightarrow> u16 \<Rightarrow> u64 \<Rightarrow> mem \<Rightarrow> trace \<Rightarrow> trace option" where
  "write_sectors 0 d port buf m t = Some t"
| "write_sectors (Suc n) d port buf m t = do {
     let t = smalldelay d t;
     t \<leftarrow> poll d port BSY t;
     t \<leftarrow> antipoll d port DRQ t;
     write_sectors n d port (buf + 512) m (write_words 256 port buf m t)
   }"

definition writesectorpio ::
  "device \<Rightarrow> u64 \<Rightarrow> u16 \<Rightarrow> u64 \<Rightarrow> u32 \<Rightarrow> mem \<Rightarrow> trace \<Rightarrow> trace option" where
  "writesectorpio d LBA count buffer disk m t = do {
     let port = disk_port disk;
     let outcmd = (if disk mod 2 \<noteq> 0 then 0x50 else 0x40);
     t \<leftarrow> poll d port BSY t;
     let t = send_command port outcmd LBA count ATA_WRITE t;
     write_sectors (unat count) d port buffer m t
   }"

subsection \<open>Identification and partition tables\<close>

text \<open>
  The part of \<^verbatim>\<open>init_disk\<close> that asks one drive for its size: 256 words are read, of which words
  100 to 103 are or-ed into the \<^verbatim>\<open>blocks\<close> field (which \<^verbatim>\<open>malloc\<close> left as it was).
\<close>

primrec inw_times :: "nat \<Rightarrow> device \<Rightarrow> u16 \<Rightarrow> trace \<Rightarrow> trace" where
  "inw_times 0 d port t = t"
| "inw_times (Suc n) d port t = inw_times n d port (snd (inw d port t))"

primrec read_blocks :: "nat \<Rightarrow> nat \<Rightarrow> device \<Rightarrow> u16 \<Rightarrow> u64 \<Rightarrow> trace \<Rightarrow> u64 \<times> trace" where
  "read_blocks 0 i d port blocks t = (blocks, t)"
| "read_blocks (Suc n) i d port blocks t =
     (let (v, t) = inw d (port + DAT) t
      in read_blocks n (i + 16) d port (blocks OR push_bit i (ucast v)) t)"

definition identify_disk :: "device \<Rightarrow> u32 \<Rightarrow> u64 \<Rightarrow> trace \<Rightarrow> (u64 \<times> trace) option" where
  "identify_disk d disk blocks t = do {
     let port = disk_port disk;
     let outcmd = (if disk mod 2 \<noteq> 0 then 0xB0 else 0xA0);
     t \<leftarrow> poll d port BSY t;
     let t = outb (port + DHR) outcmd t;
     let t = outb (port + SEC) 0 t;
     let t = outb (port + LBALO) 0 t;
     let t = outb (port + LBAMID) 0 t;
     let t = outb (port + LBAHI) 0 t;
     let t = outb (port + ATA_CMD) IDENTIFY t;
     let t = inw_times 100 d (port + DAT) t;
     let (blocks, t) = read_blocks 4 0 d port blocks t;
     Some (blocks, inw_times 152 d (port + DAT) t)
   }"

text \<open>
  A field of four bytes of the boot sector is put together in \<^verbatim>\<open>int\<close> and then widened to the
  unsigned 64-bit \<^verbatim>\<open>LBA\<close>, so a set top bit is extended.
\<close>

definition int_field :: "mem \<Rightarrow> u64 \<Rightarrow> u64" where
  "int_field m a = scast (ucast (m a) OR push_bit 8 (ucast (m (a + 1))) OR push_bit 16 (ucast (m (a + 2))) OR
     push_bit 24 (ucast (m (a + 3))) :: u32)"

definition part_loc :: "mem \<Rightarrow> u64 \<Rightarrow> nat \<Rightarrow> u64" where
  "part_loc m buffer i = int_field m (buffer + 0x1BE + 16 * of_nat i + 0x8)"

definition part_size :: "mem \<Rightarrow> u64 \<Rightarrow> nat \<Rightarrow> u64" where
  "part_size m buffer i = int_field m (buffer + 0x1BE + 16 * of_nat i + 0xC)"

section \<open>A drive\<close>

text \<open>
  The registers behind a port base: count and address registers keep their last two values; a
  command fixes the run of sectors and starts counting the words transferred.
\<close>

record ata =
  r_sec :: "u8 \<times> u8"
  r_lo :: "u8 \<times> u8"
  r_mid :: "u8 \<times> u8"
  r_hi :: "u8 \<times> u8"
  r_dhr :: u8
  r_cmd :: u8
  r_pos :: nat

definition ata_event :: "u16 \<Rightarrow> io_event \<Rightarrow> ata \<Rightarrow> ata" where
  "ata_event port e a = (case e of
     OutB p v \<Rightarrow>
       (if p = port + SEC then a\<lparr>r_sec := (v, fst (r_sec a))\<rparr>
        else if p = port + LBALO then a\<lparr>r_lo := (v, fst (r_lo a))\<rparr>
        else if p = port + LBAMID then a\<lparr>r_mid := (v, fst (r_mid a))\<rparr>
        else if p = port + LBAHI then a\<lparr>r_hi := (v, fst (r_hi a))\<rparr>
        else if p = port + DHR then a\<lparr>r_dhr := v\<rparr>
        else if p = port + ATA_CMD then a\<lparr>r_cmd := v, r_pos := 0\<rparr>
        else a)
   | InW p v \<Rightarrow> if p = port + DAT then a\<lparr>r_pos := r_pos a + 1\<rparr> else a
   | _ \<Rightarrow> a)"

definition ata_start :: ata where
  "ata_start = \<lparr>r_sec = (0, 0), r_lo = (0, 0), r_mid = (0, 0), r_hi = (0, 0), r_dhr = 0, r_cmd = 0, r_pos = 0\<rparr>"

definition ata_after :: "u16 \<Rightarrow> trace \<Rightarrow> ata" where
  "ata_after port t = fold (ata_event port) t ata_start"

definition ata_lba :: "ata \<Rightarrow> u64" where
  "ata_lba a = ucast (fst (r_lo a)) OR push_bit 8 (ucast (fst (r_mid a))) OR push_bit 16 (ucast (fst (r_hi a))) OR
     push_bit 24 (ucast (snd (r_lo a))) OR push_bit 32 (ucast (snd (r_mid a))) OR push_bit 40 (ucast (snd (r_hi a)))"

definition ata_count :: "ata \<Rightarrow> u16" where
  "ata_count a = ucast (fst (r_sec a)) OR push_bit 8 (ucast (snd (r_sec a)))"

lemma ata_after_append [simp]: "ata_after port (t @ u) = fold (ata_event port) u (ata_after port t)"
  by (simp add: ata_after_def)

lemmas ata_ports = DAT_def SEC_def LBALO_def LBAMID_def LBAHI_def DHR_def STS_def ATA_CMD_def
  ATA_PRIMARY_def ATA_SECOND_def

lemma six_bytes:
  assumes "r_lo a = (ucast LBA, ucast (drop_bit 24 LBA))" and "r_mid a = (ucast (drop_bit 8 LBA), ucast (drop_bit 32 LBA))"
    and "r_hi a = (ucast (drop_bit 16 LBA), ucast (drop_bit 40 LBA))"
  shows "ata_lba a = take_bit 48 LBA"
proof (rule bit_word_eqI)
  fix n
  assume "n < LENGTH(64)"
  then consider "n < 8" | "8 \<le> n" "n < 16" | "16 \<le> n" "n < 24" | "24 \<le> n" "n < 32" | "32 \<le> n" "n < 40"
    | "40 \<le> n" "n < 48" | "48 \<le> n" "n < 64" by fastforce
  then show "bit (ata_lba a) n = bit (take_bit 48 LBA) n"
    by cases (auto simp: ata_lba_def assms bit_or_iff bit_push_bit_iff bit_ucast_iff bit_drop_bit_eq bit_take_bit_iff)
qed

lemma two_bytes: "(ucast (ucast (c :: u16) :: u8) OR push_bit 8 (ucast (ucast (drop_bit 8 c) :: u8)) :: u16) = c"
proof (rule bit_word_eqI)
  fix n
  assume "n < LENGTH(16)"
  then consider "n < 8" | "8 \<le> n" "n < 16" by fastforce
  then show "bit (ucast (ucast c :: u8) OR push_bit 8 (ucast (ucast (drop_bit 8 c) :: u8)) :: u16) n = bit c n"
    by cases (auto simp: bit_or_iff bit_push_bit_iff bit_ucast_iff bit_drop_bit_eq)
qed

lemma send_command_decodes:
  assumes "port = ATA_PRIMARY \<or> port = ATA_SECOND"
  shows "\<exists>u. send_command port outcmd LBA count cmd t = t @ u \<and>
    (let a = fold (ata_event port) u a0 in ata_lba a = take_bit 48 LBA \<and> ata_count a = count \<and>
      r_dhr a = outcmd \<and> r_cmd a = cmd \<and> r_pos a = 0)"
  using assms two_bytes [of count]
  by (elim disjE) (simp_all add: send_command_def outb_def Let_def ata_event_def ata_ports ata_count_def six_bytes)

text \<open>
  What the driver relies on: waiting comes to an end, and after a read command the data register
  delivers the words of the addressed sectors of the selected drive one after the other.
\<close>

definition drive :: "device \<Rightarrow> u16 \<Rightarrow> (bool \<Rightarrow> u64 \<Rightarrow> nat \<Rightarrow> u16) \<Rightarrow> bool" where
  "drive d port img \<longleftrightarrow>
     (\<forall>t. \<exists>n. dev_inb d (inb_times n d (port + STS) t) (port + STS) AND BSY = 0) \<and>
     (\<forall>t. \<exists>n. dev_inb d (inb_times n d (port + STS) t) (port + STS) AND DRQ \<noteq> 0) \<and>
     (\<forall>t. r_cmd (ata_after port t) = ATA_READ \<longrightarrow>
        dev_inw d t (port + DAT) = (let a = ata_after port t in
          img (bit (r_dhr a) 4) (ata_lba a + of_nat (r_pos a div 256)) (r_pos a mod 256)))"

lemma ata_inb_times [simp]: "ata_after port (inb_times n d p t) = ata_after port t"
  by (induction n arbitrary: t) (simp_all add: inb_def Let_def ata_event_def)

lemma poll_ends:
  "dev_inb d (inb_times n d (port + STS) t) (port + STS) AND st = 0 \<Longrightarrow>
     \<exists>k. poll d port st t = Some (inb_times k d (port + STS) t)"
proof (induction n arbitrary: t)
  case 0
  then have "poll d port st t = Some (inb_times 1 d (port + STS) t)"
    by (subst poll.simps) (simp add: inb_def Let_def)
  then show ?case by blast
next
  case (Suc n)
  then obtain k where "poll d port st (snd (inb d (port + STS) t)) = Some (inb_times (Suc k) d (port + STS) t)"
    by auto
  moreover have "poll d port st t = (if fst (inb d (port + STS) t) AND st \<noteq> 0
      then poll d port st (snd (inb d (port + STS) t)) else Some (inb_times 1 d (port + STS) t))"
    by (subst poll.simps) (simp add: inb_def Let_def)
  ultimately show ?case by metis
qed

lemma antipoll_ends:
  "dev_inb d (inb_times n d (port + STS) t) (port + STS) AND st \<noteq> 0 \<Longrightarrow>
     \<exists>k. antipoll d port st t = Some (inb_times k d (port + STS) t)"
proof (induction n arbitrary: t)
  case 0
  then have "antipoll d port st t = Some (inb_times 1 d (port + STS) t)"
    by (subst antipoll.simps) (simp add: inb_def Let_def)
  then show ?case by blast
next
  case (Suc n)
  then obtain k where "antipoll d port st (snd (inb d (port + STS) t)) = Some (inb_times (Suc k) d (port + STS) t)"
    by auto
  moreover have "antipoll d port st t = (if fst (inb d (port + STS) t) AND st = 0
      then antipoll d port st (snd (inb d (port + STS) t)) else Some (inb_times 1 d (port + STS) t))"
    by (subst antipoll.simps) (simp add: inb_def Let_def)
  ultimately show ?case by metis
qed

lemma drive_waits:
  assumes "drive d port img"
  shows "\<exists>t'. poll d port BSY t = Some t' \<and> ata_after port t' = ata_after port t"
    and "\<exists>t'. antipoll d port DRQ t = Some t' \<and> ata_after port t' = ata_after port t"
  using poll_ends [of d _ port t BSY] antipoll_ends [of d _ port t DRQ] assms ata_inb_times
  unfolding drive_def by metis+

text \<open>Byte \<open>off\<close> of the run of sectors that starts at \<^term>\<open>lba\<close>.\<close>

definition sector_byte :: "(u64 \<Rightarrow> nat \<Rightarrow> u16) \<Rightarrow> u64 \<Rightarrow> nat \<Rightarrow> u8" where
  "sector_byte img lba off =
     ucast (drop_bit (8 * (off mod 2)) (img (lba + of_nat (off div 512)) (off div 2 mod 256)))"

lemma read_words_data:
  assumes d: "drive d port img"
  shows "r_cmd (ata_after port t) = ATA_READ \<Longrightarrow> 2 * n \<le> 2 ^ 32 \<Longrightarrow> a = ata_after port t \<Longrightarrow>
    \<exists>m' t'. read_words n d port buf m t = (m', t') \<and> ata_after port t' = a\<lparr>r_pos := r_pos a + n\<rparr> \<and>
      (\<forall>x. m' x = (if unat (x - buf) < 2 * n
         then sector_byte (img (bit (r_dhr a) 4)) (ata_lba a) (2 * r_pos a + unat (x - buf)) else m x))"
proof (induction n arbitrary: buf m t a)
  case 0
  then show ?case by simp
next
  case (Suc n)
  let ?v = "dev_inw d t (port + DAT)" and ?p = "r_pos a"
  let ?t = "t @ [InW (port + DAT) ?v]" and ?m = "store_le m buf 2 ?v" and ?a = "a\<lparr>r_pos := ?p + 1\<rparr>"
  have v: "?v = img (bit (r_dhr a) 4) (ata_lba a + of_nat (?p div 256)) (?p mod 256)"
    using d Suc.prems by (simp add: drive_def Let_def)
  have at: "ata_after port ?t = ?a" using Suc.prems(3) by (simp add: ata_event_def)
  have lba: "ata_lba (a\<lparr>r_pos := i\<rparr>) = ata_lba a" for i by (simp add: ata_lba_def)
  have cmd: "r_cmd (ata_after port ?t) = ATA_READ" using at Suc.prems(1,3) by simp
  have le: "2 * n \<le> 2 ^ 32" using Suc.prems(2) by simp
  obtain m' t' where m': "read_words n d port (buf + 2) ?m ?t = (m', t')"
    "ata_after port t' = ?a\<lparr>r_pos := r_pos ?a + n\<rparr>"
    "\<And>x. m' x = (if unat (x - (buf + 2)) < 2 * n
       then sector_byte (img (bit (r_dhr ?a) 4)) (ata_lba ?a) (2 * r_pos ?a + unat (x - (buf + 2))) else ?m x)"
    using Suc.IH [OF cmd le at [symmetric], of "buf + 2" ?m] by blast
  have "m' x = (if unat (x - buf) < 2 * Suc n
      then sector_byte (img (bit (r_dhr a) 4)) (ata_lba a) (2 * ?p + unat (x - buf)) else m x)" for x
  proof (cases "unat (x - buf) < 2")
    case True
    then have "x - buf = 0 \<or> x - buf = 1" by (auto simp: word_unat_eq_iff)
    then have "unat (x - buf - 2) \<ge> 2 ^ 64 - 2" by auto
    then have "2 ^ 64 - 2 \<le> unat (x - (buf + 2))" by (simp only: diff_diff_eq)
    then have "m' x = ?m x" using Suc.prems(2) by (simp add: m'(3))
    moreover have "(2 * ?p + unat (x - buf)) div 2 = ?p" "(2 * ?p + unat (x - buf)) div 512 = ?p div 256"
      "(2 * ?p + unat (x - buf)) mod 2 = unat (x - buf)" using True by auto
    ultimately show ?thesis using True by (simp add: store_le_def sector_byte_def v)
  next
    case False
    then have "2 \<le> x - buf" by (simp add: word_le_nat_alt)
    then have "unat (x - (buf + 2)) = unat (x - buf) - 2" using unat_sub [of 2 "x - buf"] by (simp add: diff_diff_eq)
    moreover obtain k where "unat (x - buf) = 2 + k" using False le_Suc_ex by (metis not_less)
    ultimately show ?thesis by (simp add: m'(3) lba store_le_def)
  qed
  with m'(1,2) show ?case by (simp add: inw_def Let_def)
qed

lemma read_sectors_data:
  assumes d: "drive d port img"
  shows "r_cmd (ata_after port t) = ATA_READ \<Longrightarrow> n \<le> 2 ^ 16 \<Longrightarrow> a = ata_after port t \<Longrightarrow>
    \<exists>m' t'. read_sectors n d port buf m t = Some (m', t') \<and>
      (\<forall>x. m' x = (if unat (x - buf) < 512 * n
         then sector_byte (img (bit (r_dhr a) 4)) (ata_lba a) (2 * r_pos a + unat (x - buf)) else m x))"
proof (induction n arbitrary: buf m t a)
  case 0
  then show ?case by simp
next
  case (Suc n)
  obtain t1 where t1: "poll d port BSY (smalldelay d t) = Some t1" "ata_after port t1 = a"
    using drive_waits(1) [OF d] Suc.prems(3) by (metis smalldelay_def ata_inb_times)
  obtain t2 where t2: "antipoll d port DRQ t1 = Some t2" "ata_after port t2 = a"
    using drive_waits(2) [OF d] t1(2) by metis
  let ?a = "a\<lparr>r_pos := r_pos a + 256\<rparr>" and ?b = "buf + 512"
  have cmd: "r_cmd (ata_after port t2) = ATA_READ" using t2 Suc.prems(1,3) by simp
  have "(2 :: nat) * 256 \<le> 2 ^ 32" by simp
  from read_words_data [OF d cmd this t2(2) [symmetric], of buf m] obtain m3 t3 where
    t3: "read_words 256 d port buf m t2 = (m3, t3)" "ata_after port t3 = ?a"
    "\<And>x. m3 x = (if unat (x - buf) < 512
       then sector_byte (img (bit (r_dhr a) 4)) (ata_lba a) (2 * r_pos a + unat (x - buf)) else m x)"
    by auto
  have cmd3: "r_cmd (ata_after port t3) = ATA_READ" using t3(2) Suc.prems(1,3) by simp
  have le: "n \<le> 2 ^ 16" using Suc.prems(2) by simp
  have lba: "ata_lba ?a = ata_lba a" by (simp add: ata_lba_def)
  from Suc.IH [OF cmd3 le t3(2) [symmetric], of ?b m3] obtain m' t' where
    t': "read_sectors n d port ?b m3 t3 = Some (m', t')"
    "\<And>x. m' x = (if unat (x - ?b) < 512 * n
       then sector_byte (img (bit (r_dhr a) 4)) (ata_lba a) (2 * (r_pos a + 256) + unat (x - ?b)) else m3 x)"
    using lba by auto
  have "m' x = (if unat (x - buf) < 512 * Suc n
      then sector_byte (img (bit (r_dhr a) 4)) (ata_lba a) (2 * r_pos a + unat (x - buf)) else m x)" for x
  proof (cases "unat (x - buf) < 512")
    case True
    have "unat (x - ?b) \<ge> 2 ^ 64 - 512"
    proof -
      have "unat (x - buf - 512) = 2 ^ 64 - (512 - unat (x - buf))"
        using True by (simp add: unat_sub_if_size word_size)
      then show ?thesis by (simp add: diff_diff_eq)
    qed
    then have "m' x = m3 x" using Suc.prems(2) by (simp add: t'(2))
    with True show ?thesis by (simp add: t3(3))
  next
    case False
    then have "512 \<le> x - buf" by (simp add: word_le_nat_alt)
    then have "unat (x - ?b) = unat (x - buf) - 512" using unat_sub [of 512 "x - buf"] by (simp add: diff_diff_eq)
    with False show ?thesis by (auto simp: t'(2) t3(3))
  qed
  with t1(1) t2(1) t3(1) t'(1) show ?case by simp
qed

lemma readsectorpio_data:
  assumes "drive d (disk_port disk) img"
  shows "\<exists>m' t'. readsectorpio d LBA count buffer disk m t = Some (m', t') \<and>
    (\<forall>x. m' x = (if unat (x - buffer) < 512 * unat count
       then sector_byte (img (disk mod 2 \<noteq> 0)) (take_bit 48 LBA) (unat (x - buffer)) else m x))"
proof -
  let ?port = "disk_port disk" and ?o = "(if disk mod 2 \<noteq> 0 then 0x50 else 0x40) :: u8"
  obtain t1 where t1: "poll d ?port BSY t = Some t1" using drive_waits(1) [OF assms] by blast
  have "?port = ATA_PRIMARY \<or> ?port = ATA_SECOND" by (simp add: disk_port_def)
  then obtain u where u: "send_command ?port ?o LBA count ATA_READ t1 = t1 @ u"
    "ata_lba (ata_after ?port (t1 @ u)) = take_bit 48 LBA" "r_dhr (ata_after ?port (t1 @ u)) = ?o"
    "r_cmd (ata_after ?port (t1 @ u)) = ATA_READ" "r_pos (ata_after ?port (t1 @ u)) = 0"
    using send_command_decodes [of ?port ?o LBA count ATA_READ t1 "ata_after ?port t1"]
    by (auto simp: Let_def)
  have "unat count < 2 ^ 16" using unsigned_less [of count] by simp
  then have "unat count \<le> 2 ^ 16" by simp
  moreover have "bit ?o 4 \<longleftrightarrow> disk mod 2 \<noteq> 0" by (simp add: bit_numeral_rec)
  ultimately show ?thesis
    using read_sectors_data [OF assms u(4) _ refl, of "unat count" buffer m] t1 u
    by (auto simp: readsectorpio_def Let_def)
qed

section \<open>Properties\<close>


definition ram_disk :: "(bool \<Rightarrow> u64 \<Rightarrow> nat \<Rightarrow> u16) \<Rightarrow> device" where
  "ram_disk img = \<lparr>dev_inb = (\<lambda>_ _. DRQ),
     dev_inw = (\<lambda>t port. let a = ata_after port t in
       img (bit (r_dhr a) 4) (ata_lba a + of_nat (r_pos a div 256)) (r_pos a mod 256)),
     dev_msr = (\<lambda>_ _. 0)\<rparr>"

lemma ram_disk_drive: "drive (ram_disk img) port img"
  by (simp add: drive_def ram_disk_def DRQ_def BSY_def DAT_def)


text \<open>The bytes sent to the data register.\<close>

definition data_out :: "u16 \<Rightarrow> trace \<Rightarrow> u8 list" where
  "data_out port t = concat (map (\<lambda>e. case e of OutB p v \<Rightarrow> if p = port + DAT then [v] else [] | _ \<Rightarrow> []) t)"

lemma data_out_simps [simp]:
  "data_out port (t @ u) = data_out port t @ data_out port u" "data_out port [] = []"
  "data_out port (InB p x # t) = data_out port t"
  "data_out port (OutB p v # t) = (if p = port + DAT then [v] else []) @ data_out port t"
  by (simp_all add: data_out_def)

lemma data_out_inb_times [simp]: "data_out port (inb_times n d p t) = data_out port t"
  by (induction n arbitrary: t) (simp_all add: inb_def Let_def)

lemma poll_data_out:
  assumes "drive d port img"
  shows "\<exists>t'. poll d port BSY t = Some t' \<and> data_out port t' = data_out port t"
    and "\<exists>t'. antipoll d port DRQ t = Some t' \<and> data_out port t' = data_out port t"
proof -
  obtain n n' where "dev_inb d (inb_times n d (port + STS) t) (port + STS) AND BSY = 0"
    "dev_inb d (inb_times n' d (port + STS) t) (port + STS) AND DRQ \<noteq> 0"
    using assms unfolding drive_def by blast
  from poll_ends [OF this(1)] antipoll_ends [OF this(2)]
  show "\<exists>t'. poll d port BSY t = Some t' \<and> data_out port t' = data_out port t"
    "\<exists>t'. antipoll d port DRQ t = Some t' \<and> data_out port t' = data_out port t"
    using data_out_inb_times by blast+
qed

definition low_bytes :: "mem \<Rightarrow> u64 \<Rightarrow> nat \<Rightarrow> u8 list" where
  "low_bytes m buf n = map (\<lambda>k. m (buf + 2 * of_nat k)) [0..<n]"

lemma low_bytes_add: "low_bytes m buf (i + n) = low_bytes m buf i @ low_bytes m (buf + 2 * of_nat i) n"
  by (induction n) (simp_all add: low_bytes_def distrib_left add.assoc)

lemma low_byte_of_word: "ucast (load_le m buf 2 :: u16) = m buf"
proof (rule bit_word_eqI)
  fix n
  assume "n < LENGTH(8)"
  then show "bit (ucast (load_le m buf 2 :: u16) :: u8) n = bit (m buf) n" by (simp add: bit_ucast_iff bit_load_le)
qed

lemma write_words_data: "data_out port (write_words n port buf m t) = data_out port t @ low_bytes m buf n"
proof (induction n arbitrary: buf t)
  case (Suc n)
  then show ?case
    using low_bytes_add [of m buf 1 n] by (simp add: outb_def low_byte_of_word) (simp add: low_bytes_def)
qed (simp add: low_bytes_def)

lemma write_sectors_data:
  assumes "drive d port img"
  shows "\<exists>t'. write_sectors n d port buf m t = Some t' \<and> data_out port t' = data_out port t @ low_bytes m buf (256 * n)"
proof (induction n arbitrary: buf t)
  case 0
  then show ?case by (simp add: low_bytes_def)
next
  case (Suc n)
  obtain t1 t2 where t1: "poll d port BSY (smalldelay d t) = Some t1" "antipoll d port DRQ t1 = Some t2"
    "data_out port t2 = data_out port t"
    using poll_data_out [OF assms] by (metis smalldelay_def data_out_inb_times)
  obtain t' where "write_sectors n d port (buf + 512) m (write_words 256 port buf m t2) = Some t'"
    "data_out port t' = data_out port t @ low_bytes m buf 256 @ low_bytes m (buf + 512) (256 * n)"
    using Suc [of "buf + 512" "write_words 256 port buf m t2"] t1(3) by (auto simp: write_words_data)
  with t1(1,2) low_bytes_add [of m buf 256 "256 * n"] show ?case by simp
qed



end
