(* ===== verification/FileTypes.thy ===== *)
theory FileTypes
  imports Heap Disk
begin

text \<open>
  The data the file system's parts share: open files (\<^verbatim>\<open>libs/include/stdio.h\<close>), drives, partitions
  and volumes (\<^verbatim>\<open>kernel/include/disk.h\<close>) and the on-disk structures of \<^verbatim>\<open>kernel/fs/FAT.h\<close>, with the
  state they live in. Disk structures are read from byte memory at their packed offsets.
\<close>

section \<open>Files, drives and volumes\<close>

definition MAX_OPEN_FILES :: nat where "MAX_OPEN_FILES = 0x100"
definition SECTOR_SIZE :: u64 where "SECTOR_SIZE = 512"
definition LETTERS :: nat where "LETTERS = 26"
definition FILENAME_LENGTH :: u64 where "FILENAME_LENGTH = 256"

record FILE =
  f_path :: u64
  f_volume :: u8
  f_pointer :: u64
  f_size :: u64
  f_flags :: u8
  f_used :: bool

text \<open>\<^verbatim>\<open>sizeof(FILE)\<close> on this target; \<^verbatim>\<open>bool\<close> is an enumeration of four bytes.\<close>

definition FILE_SIZE :: u64 where "FILE_SIZE = 40"

text \<open>A cleaned boot record; locations count sectors of 512 bytes from the start of the partition.\<close>

record fat_fs_info =
  sector_count :: u32
  bytes_per_sector :: u16
  sectors_per_cluster :: u8
  sectors_per_fat :: u32
  fat_count :: u8
  root_entries :: u16
  root_sectors :: u16
  root_cluster :: u32
  root_clusters :: u16
  fat_loc :: u32
  data_loc :: u32

datatype fs_kind = none | fat32

text \<open>\<^term>\<open>p_fsdata\<close> is the object the pointer \<^verbatim>\<open>fsdata\<close> refers to.\<close>

record partinfo =
  p_loc :: u64
  p_size :: u64
  p_fs :: fs_kind
  p_fsdata :: "fat_fs_info option"

record diskdata =
  disk_blocks :: u64
  parts :: "partinfo list"

record volume_t =
  v_disk :: u32
  v_partition :: u32

section \<open>Structures on disk\<close>

definition bytes_at :: "mem \<Rightarrow> u64 \<Rightarrow> nat \<Rightarrow> u8 list" where
  "bytes_at m a n = map (\<lambda>i. m (a + of_nat i)) [0..<n]"

record bootrecord =
  jumpcode :: "u8 list"
  OEM :: "u8 list"
  br_bytes_per_sector :: u16
  br_sectors_per_cluster :: u8
  reserved_sectors :: u16
  FAT_count :: u8
  br_root_entries :: u16
  sector_count_small :: u16
  media_type :: u8
  sectors_per_track :: u16
  br_heads :: u16
  br_LBA :: u32
  sector_count_large :: u32
  sectors_per_FAT :: u32
  br_flags :: u16
  br_version :: u16
  br_root_cluster :: u32
  fsinfo_sector :: u16
  drivenum :: u8
  br_signature :: u8
  br_serial :: u32
  br_label :: "u8 list"
  idstring :: "u8 list"
  bootsig :: u16

definition bootrecord_at :: "mem \<Rightarrow> u64 \<Rightarrow> bootrecord" where
  "bootrecord_at m a =
     \<lparr>jumpcode = bytes_at m a 3, OEM = bytes_at m (a + 3) 8,
      br_bytes_per_sector = load_le m (a + 11) 2, br_sectors_per_cluster = m (a + 13),
      reserved_sectors = load_le m (a + 14) 2, FAT_count = m (a + 16),
      br_root_entries = load_le m (a + 17) 2, sector_count_small = load_le m (a + 19) 2,
      media_type = m (a + 21), sectors_per_track = load_le m (a + 24) 2,
      br_heads = load_le m (a + 26) 2, br_LBA = load_le m (a + 28) 4,
      sector_count_large = load_le m (a + 32) 4, sectors_per_FAT = load_le m (a + 36) 4,
      br_flags = load_le m (a + 40) 2, br_version = load_le m (a + 42) 2,
      br_root_cluster = load_le m (a + 44) 4, fsinfo_sector = load_le m (a + 48) 2,
      drivenum = m (a + 64), br_signature = m (a + 66),
      br_serial = load_le m (a + 67) 4, br_label = bytes_at m (a + 71) 11, idstring = bytes_at m (a + 82) 8,
      bootsig = load_le m (a + 510) 2\<rparr>"

text \<open>A directory entry; the packed time and date fields are kept as their 16 bits.\<close>

record FAT_entry =
  e_name :: "u8 list"
  e_extension :: "u8 list"
  e_attr :: u8
  NT_flags :: u8
  creation_centisecond :: u8
  creation_time :: u16
  creation_date :: u16
  last_accessed :: u16
  cluster_high :: u16
  mod_time :: u16
  mod_date :: u16
  cluster_low :: u16
  e_size :: u32

definition FAT_entry_at :: "mem \<Rightarrow> u64 \<Rightarrow> FAT_entry" where
  "FAT_entry_at m a =
     \<lparr>e_name = bytes_at m a 8, e_extension = bytes_at m (a + 8) 3, e_attr = m (a + 11),
      NT_flags = m (a + 12), creation_centisecond = m (a + 13),
      creation_time = load_le m (a + 14) 2, creation_date = load_le m (a + 16) 2,
      last_accessed = load_le m (a + 18) 2, cluster_high = load_le m (a + 20) 2,
      mod_time = load_le m (a + 22) 2, mod_date = load_le m (a + 24) 2,
      cluster_low = load_le m (a + 26) 2, e_size = load_le m (a + 28) 4\<rparr>"

text \<open>\<^verbatim>\<open>cluster_high << 16 | cluster_low\<close>\<close>

definition first_cluster :: "FAT_entry \<Rightarrow> u32" where
  "first_cluster e = push_bit 16 (ucast (cluster_high e)) OR ucast (cluster_low e)"

definition FAT_LFN :: u8 where "FAT_LFN = 0x0F"
definition DIRECTORY :: u8 where "DIRECTORY = 0x10"

text \<open>A piece of a long file name, in the same 32 bytes: offsets of its fields.\<close>

definition lfn_order :: "mem \<Rightarrow> u64 \<Rightarrow> u8" where "lfn_order m a = m a"
definition lfn_first :: "u64 \<Rightarrow> u64" where "lfn_first a = a + 1"
definition lfn_middle :: "u64 \<Rightarrow> u64" where "lfn_middle a = a + 14"
definition lfn_last :: "u64 \<Rightarrow> u64" where "lfn_last a = a + 28"

section \<open>The state of the file system\<close>

text \<open>
  The tables behind \<^verbatim>\<open>files\<close>, \<^verbatim>\<open>disktable\<close> and \<^verbatim>\<open>volumes\<close>, the heap, byte memory and the accesses to
  the drives so far.
\<close>

record fsys =
  files_addr :: u64
  files :: "FILE list"
  disktable :: "diskdata list"
  volumes :: "volume_t list"
  fs_heap :: kstate
  fs_mem :: mem
  fs_io :: trace

definition read_sec :: "device \<Rightarrow> u64 \<Rightarrow> u16 \<Rightarrow> u64 \<Rightarrow> u32 \<Rightarrow> fsys \<Rightarrow> fsys option" where
  "read_sec d LBA count buffer disk s =
     (case readsectorpio d LBA count buffer disk (fs_mem s) (fs_io s) of
        None \<Rightarrow> None
      | Some (m, t) \<Rightarrow> Some (s\<lparr>fs_mem := m, fs_io := t\<rparr>))"

definition fs_malloc :: "u64 \<Rightarrow> fsys \<Rightarrow> (u64 \<times> fsys) option" where
  "fs_malloc sz s = (case malloc sz (fs_heap s) of None \<Rightarrow> None | Some (a, k) \<Rightarrow> Some (a, s\<lparr>fs_heap := k\<rparr>))"

definition fs_free :: "u64 \<Rightarrow> fsys \<Rightarrow> fsys option" where
  "fs_free a s = (case free a (fs_heap s) of None \<Rightarrow> None | Some k \<Rightarrow> Some (s\<lparr>fs_heap := k\<rparr>))"

text \<open>The partition of a volume: \<^verbatim>\<open>volumes\<close>, \<^verbatim>\<open>disktable\<close> and \<^verbatim>\<open>parts\<close> are arrays.\<close>

definition disk_part :: "fsys \<Rightarrow> u32 \<Rightarrow> u32 \<Rightarrow> partinfo option" where
  "disk_part s disk part =
     (if unat disk < length (disktable s) \<and> unat part < length (parts (disktable s ! unat disk))
      then Some (parts (disktable s ! unat disk) ! unat part) else None)"

definition set_part :: "u32 \<Rightarrow> u32 \<Rightarrow> partinfo \<Rightarrow> fsys \<Rightarrow> fsys" where
  "set_part disk part p s =
     (let dd = disktable s ! unat disk
      in s\<lparr>disktable := (disktable s)[unat disk := dd\<lparr>parts := (parts dd)[unat part := p]\<rparr>]\<rparr>)"

definition volume_part :: "fsys \<Rightarrow> u8 \<Rightarrow> (u32 \<times> u32 \<times> partinfo) option" where
  "volume_part s v =
     (if unat v < length (volumes s)
      then (let vol = volumes s ! unat v in
        case disk_part s (v_disk vol) (v_partition vol) of
          None \<Rightarrow> None
        | Some p \<Rightarrow> Some (v_disk vol, v_partition vol, p))
      else None)"

section \<open>Regions of memory\<close>

definition fill :: "mem \<Rightarrow> u64 \<Rightarrow> nat \<Rightarrow> (nat \<Rightarrow> u8) \<Rightarrow> mem" where
  "fill m a n g = (\<lambda>x. if unat (x - a) < n then g (unat (x - a)) else m x)"

text \<open>A word read from the bytes of a disk image.\<close>

definition image_le :: "(nat \<Rightarrow> u8) \<Rightarrow> nat \<Rightarrow> nat \<Rightarrow> 'a::len word" where
  "image_le g off k = load_le (\<lambda>x. g (off + unat x)) 0 k"

lemma fill_in: "k < n \<Longrightarrow> k < 2 ^ 64 \<Longrightarrow> fill m a n g (a + of_nat k) = g k"
  by (simp add: fill_def)

lemma fill_out: "n \<le> unat (x - a) \<Longrightarrow> fill m a n g x = m x"
  by (simp add: fill_def)

lemma load_le_image:
  assumes "\<And>j. j < k \<Longrightarrow> m (a + of_nat j) = g (off + j)" and "k \<le> 2 ^ 63"
  shows "load_le m a k = (image_le g off k :: 'a::len word)"
proof (rule bit_word_eqI)
  fix n
  assume "n < LENGTH('a)"
  have "bit (m (a + of_nat (n div 8))) (n mod 8) = bit (g (off + unat (of_nat (n div 8) :: u64))) (n mod 8)" if "n < 8 * k"
  proof -
    have "n div 8 < k" using that by (simp add: less_mult_imp_div_less mult.commute)
    moreover from this have "unat (of_nat (n div 8) :: u64) = n div 8" using assms(2) by (intro unat_of_nat_small) simp
    ultimately show ?thesis by (simp add: assms(1))
  qed
  then show "bit (load_le m a k :: 'a word) n = bit (image_le g off k :: 'a word) n"
    by (auto simp: image_le_def bit_load_le)
qed

text \<open>The second state differs from the first in these regions of memory and in the accesses to drives.\<close>

definition touched :: "(u64 \<times> nat) list \<Rightarrow> fsys \<Rightarrow> fsys \<Rightarrow> bool" where
  "touched rs s s' \<longleftrightarrow>
     s' = s\<lparr>fs_mem := fs_mem s', fs_io := fs_io s'\<rparr> \<and> (\<forall>x. outside rs x \<longrightarrow> fs_mem s' x = fs_mem s x)"

lemma touched_refl [simp]: "touched rs s s"
  by (simp add: touched_def)

lemma touched_mem: "touched rs s s' \<Longrightarrow> outside rs x \<Longrightarrow> fs_mem s' x = fs_mem s x"
  by (simp add: touched_def)

lemma touched_trans:
  assumes "touched rs s s'" and "touched qs s' s''" and "set rs \<subseteq> set ps" and "set qs \<subseteq> set ps"
  shows "touched ps s s''"
proof -
  have "s'' = s\<lparr>fs_mem := fs_mem s'', fs_io := fs_io s''\<rparr>"
    using assms(1,2) unfolding touched_def by (metis fsys.surjective fsys.update_convs(6,7))
  moreover have "fs_mem s'' x = fs_mem s x" if "outside ps x" for x
    using touched_mem [OF assms(1)] touched_mem [OF assms(2)] outside_subset that assms(3,4) by metis
  ultimately show ?thesis by (simp add: touched_def)
qed

lemma touched_mono: "touched rs s s' \<Longrightarrow> set rs \<subseteq> set qs \<Longrightarrow> touched qs s s'"
  by (rule touched_trans [OF _ touched_refl [of "[]"]]) simp_all

lemma touched_then: "touched rs s s' \<Longrightarrow> touched qs s' s'' \<Longrightarrow> touched (rs @ qs) s s''"
  by (rule touched_trans) auto

lemma touched_fields:
  assumes "touched rs s s'"
  shows "files_addr s' = files_addr s" "files s' = files s" "disktable s' = disktable s" "volumes s' = volumes s"
    "fs_heap s' = fs_heap s"
  using assms by (simp_all add: touched_def) (metis fsys.select_convs fsys.update_convs fsys.surjective)+

lemma load_le_shift:
  assumes "\<And>j. j < k \<Longrightarrow> m (a + of_nat j) = m' (b + of_nat j)"
  shows "load_le m a k = (load_le m' b k :: 'a::len word)"
  using assms by (intro bit_word_eqI) (auto simp: bit_load_le less_mult_imp_div_less mult.commute)

lemma load_le_numeral:
  "load_le m a (numeral n) = ucast (m a) OR push_bit 8 (load_le m (a + 1) (pred_numeral n))"
  by (simp add: numeral_eq_Suc)

text \<open>Structures that lie in one sector can be read from its bytes.\<close>

lemma bootrecord_image:
  assumes "\<And>k. k < 512 \<Longrightarrow> m (a + of_nat k) = g k"
  shows "bootrecord_at m a = bootrecord_at (\<lambda>x. g (unat x)) 0"
proof -
  have R: "load_le m (a + of_nat off) n = (load_le (\<lambda>x. g (unat x)) (of_nat off) n :: 'a::len word)"
    if "off + n \<le> 512" for off n
  proof (rule load_le_shift)
    fix j
    assume "j < n"
    then show "m (a + of_nat off + of_nat j) = g (unat (of_nat off + of_nat j :: u64))"
      using assms [of "off + j"] unat_of_nat_small [of "off + j"] that by (simp add: add.assoc)
  qed
  have B: "bytes_at m (a + of_nat off) n = bytes_at (\<lambda>x. g (unat x)) (of_nat off) n" if "off + n \<le> 512" for off n
  proof -
    have "m (a + of_nat off + of_nat j) = g (unat (of_nat off + of_nat j :: u64))" if "j < n" for j
      using assms [of "off + j"] unat_of_nat_small [of "off + j"] that \<open>off + n \<le> 512\<close> by (simp add: add.assoc)
    then show ?thesis by (simp add: bytes_at_def)
  qed
  have M: "m (a + of_nat off) = g (unat (of_nat off :: u64))" if "off < 512" for off
    using assms [OF that] unat_of_nat_small [of off] that by simp
  show ?thesis
    unfolding bootrecord_at_def
    using R [of 11 2] R [of 14 2] R [of 17 2] R [of 19 2] R [of 24 2] R [of 26 2] R [of 40 2] R [of 42 2] R [of 48 2]
      R [of 510 2] R [of 28 4] R [of 32 4] R [of 36 4] R [of 44 4] R [of 67 4]
      B [of 0 3] B [of 3 8] B [of 71 11] B [of 82 8] M [of 13] M [of 16] M [of 21] M [of 64] M [of 66]
    by simp
qed

section \<open>Memory from the kernel heap\<close>

definition spare_mem :: "fsys \<Rightarrow> nat set" where
  "spare_mem s = spare 0 (fs_heap s)"

text \<open>A region of memory that no later allocation can overlap.\<close>

definition kept :: "fsys \<Rightarrow> u64 \<times> nat \<Rightarrow> bool" where
  "kept s r \<longleftrightarrow> (\<forall>x. unat (x - fst r) < snd r \<longrightarrow> unat x \<notin> spare_mem s)"

lemma fs_malloc_returns:
  assumes "heap_ok (fs_heap s)"
  shows "\<exists>a k. fs_malloc sz s = Some (a, s\<lparr>fs_heap := k\<rparr>) \<and> heap_ok k \<and>
    spare_mem (s\<lparr>fs_heap := k\<rparr>) \<subseteq> spare_mem s"
proof -
  obtain a k where k: "malloc_heap sz (int 0) (fs_heap s) = Some (a, k)" using kheap.take_returns [OF assms] by blast
  have "spare 0 k \<subseteq> spare 0 (fs_heap s)"
    using kheap.take_block [OF assms k] kheap.take_none [OF assms, of sz k] k by (cases "a = 0") auto
  with k kheap.take_ok [OF assms k] show ?thesis
    by (intro exI [of _ a] exI [of _ k]) (simp add: fs_malloc_def malloc_def spare_mem_def)
qed

lemma in_bytes:
  assumes "unat a + unat sz \<le> 2 ^ 64" and "unat (x - a) < unat sz"
  shows "unat x \<in> bytes a sz"
  using assms in_range_iff [of a "unat sz" x] by (simp add: bytes_def)

lemma fs_malloc_block:
  assumes ok: "heap_ok (fs_heap s)" and m: "fs_malloc sz s = Some (a, s')" and a: "a \<noteq> 0"
  shows "kept s' (a, unat sz)" and "kept s r \<Longrightarrow> kept s' r \<and> apart (a, unat sz) r"
    and "heap_ok (fs_heap s')" and "s' = s\<lparr>fs_heap := fs_heap s'\<rparr>"
proof -
  obtain k where k: "malloc_heap sz (int 0) (fs_heap s) = Some (a, k)" "s' = s\<lparr>fs_heap := k\<rparr>"
    using m by (auto simp: fs_malloc_def malloc_def split: option.splits)
  note B = kheap.take_block [OF ok k(1) a]
  have sz: "unat sz \<noteq> 0" using B by (simp add: unat_eq_0)
  have hi: "spare 0 (fs_heap s) \<subseteq> {heap_lo 0..<heap_hi 0}"
  proof -
    have "\<forall>e \<in> set (freespace (fs_heap s) ! 0). block_in 0 e"
      using blocks_okD(7) [OF heap_okD(3) [OF ok, of 0]] by (simp add: HEAPS_def)
    then show ?thesis unfolding spare_def cover_pos by (fastforce simp: extent_def block_in_def)
  qed
  have "unat a + (unat sz - 1) \<in> bytes a sz" using sz by (simp add: bytes_def)
  then have "unat a + (unat sz - 1) < heap_hi 0" using B hi by auto
  then have room: "unat a + unat sz \<le> 2 ^ 64" by (simp add: heap_hi_def kernel_stack_def)
  have blk: "unat x \<in> bytes a sz" if "unat (x - a) < unat sz" for x using in_bytes [OF room that] .
  show "kept s' (a, unat sz)" using B blk by (auto simp: kept_def spare_mem_def k(2))
  show "heap_ok (fs_heap s')" using kheap.take_ok [OF ok k(1)] by (simp add: k(2))
  show "s' = s\<lparr>fs_heap := fs_heap s'\<rparr>" by (simp add: k(2))
  assume "kept s r"
  then have out: "unat x \<notin> spare 0 (fs_heap s)" if "unat (x - fst r) < snd r" for x
    using that by (simp add: kept_def spare_mem_def)
  have "snd r \<le> unat (x - fst r)" if "unat (x - a) < unat sz" for x
    using out [of x] blk [OF that] B by (meson not_le subsetD)
  then show "kept s' r \<and> apart (a, unat sz) r"
    using out B by (auto simp: kept_def spare_mem_def apart_def k(2))
qed

subsection \<open>A heap that hands out one block after the other\<close>

definition bump :: "kstate \<Rightarrow> u64 \<Rightarrow> nat \<Rightarrow> nat \<Rightarrow> bool" where
  "bump s a room n \<longleftrightarrow> heap_ok s \<and> m_addr (freespace s ! 0 ! 0) = a \<and> unat (m_size (freespace s ! 0 ! 0)) = room \<and>
     (\<forall>j. n \<le> j \<and> j < ALLOCATIONS \<longrightarrow> m_size (allocations s ! 0 ! j) = 0)"

lemma bump_malloc:
  assumes b: "bump s a room n" and sz: "sz \<noteq> 0" "unat sz \<le> room" and n: "n < ALLOCATIONS"
  shows "\<exists>t. malloc sz s = Some (a, t) \<and> bump t (a + sz) (room - unat sz) (Suc n)"
proof -
  note B = b [unfolded bump_def] and ok = conjunct1 [OF b [unfolded bump_def]]
  have h: "0 < HEAPS" by (simp add: HEAPS_def)
  note len = heap_okD(1,2) [OF ok] blocks_okD(1,2) [OF heap_okD(3) [OF ok h]]
  have i: "scan (\<lambda>i. sz \<le> m_size (freespace s ! 0 ! i)) 0 FREE_SPACES = Some 0"
    using B sz by (intro scan_head) (simp_all add: FREE_SPACES_def word_le_nat_alt)
  have "scan (\<lambda>j. m_size (allocations s ! 0 ! j) = 0) 0 ALLOCATIONS \<noteq> None" using B n by (auto simp: scan_None_iff)
  then obtain j where j: "scan (\<lambda>j. m_size (allocations s ! 0 ! j) = 0) 0 ALLOCATIONS = Some j" by blast
  have "\<not> n < j" using scan_zeroD(3) [OF j, of n] B n by auto
  obtain v where "map_range (vm s) a (unat (block_pages a sz)) = Some v"
    using map_range_returns heap_okD(4,5) [OF ok] by blast
  then obtain t where m: "malloc sz s = Some (a, t)"
    "freespace t ! 0 ! 0 = \<lparr>m_addr = a + sz, m_size = m_size (freespace s ! 0 ! 0) - sz\<rparr>"
    "allocations t ! 0 = (allocations s ! 0)[j := \<lparr>m_addr = a, m_size = sz\<rparr>]"
    using i j B sz(1) len by (simp add: malloc_def malloc_heap_def HEAPS_def Let_def FREE_SPACES_def)
  have "unat (m_size (freespace s ! 0 ! 0) - sz) = room - unat sz" using B sz(2) by (simp add: unat_sub word_le_nat_alt)
  moreover have "malloc_heap sz (int 0) s = Some (a, t)" using m(1) by (simp add: malloc_def)
  from kheap.take_ok [OF ok this] have "heap_ok t" .
  moreover have "m_size (allocations t ! 0 ! k) = 0" if "Suc n \<le> k" "k < ALLOCATIONS" for k
    using m(3) B that \<open>\<not> n < j\<close> by simp
  ultimately show ?thesis using m by (simp add: bump_def)
qed

lemma bump_fresh: "bump fresh kernel_heap 0x800000000 0"
  using fresh_ok(1) fresh_space [of 0] init_malloc_tables(2) [OF boot_state_tables [OF flat_ok], of 0]
  by (simp add: bump_def HEAPS_def whole_heap_def kernel_heap_def kernel_stack_def fresh_def)

section \<open>The interface to the disk driver\<close>

text \<open>
  What the file system relies on: a read of sectors returns and fills the buffer with their
  bytes; \<^term>\<open>sec\<close> gives byte \<open>k\<close> of the run of sectors at an address of a drive.
\<close>

locale sector_source =
  fixes d :: device and sec :: "u32 \<Rightarrow> u64 \<Rightarrow> nat \<Rightarrow> u8"
  assumes read_sec_fills:
    "\<exists>t. read_sec d lba n buf disk s = Some (s\<lparr>fs_mem := fill (fs_mem s) buf (512 * unat n) (sec disk lba), fs_io := t\<rparr>)"
begin

lemma read_sec_returns:
  "\<exists>s'. read_sec d lba n buf disk s = Some s' \<and> touched [(buf, 512 * unat n)] s s' \<and>
     (\<forall>k < 512 * unat n. fs_mem s' (buf + of_nat k) = sec disk lba k)"
proof -
  obtain t where t: "read_sec d lba n buf disk s =
      Some (s\<lparr>fs_mem := fill (fs_mem s) buf (512 * unat n) (sec disk lba), fs_io := t\<rparr>)"
    using read_sec_fills by blast
  have "unat n < 2 ^ 16" using unsigned_less [of n] by simp
  then have "fill (fs_mem s) buf (512 * unat n) (sec disk lba) (buf + of_nat k) = sec disk lba k"
    if "k < 512 * unat n" for k using that by (intro fill_in) simp_all
  with t show ?thesis by (simp add: touched_def fill_out)
qed

end

definition disk_bytes :: "(u32 \<Rightarrow> bool \<Rightarrow> u64 \<Rightarrow> nat \<Rightarrow> u16) \<Rightarrow> u32 \<Rightarrow> u64 \<Rightarrow> nat \<Rightarrow> u8" where
  "disk_bytes img disk lba = sector_byte (img disk (disk mod 2 \<noteq> 0)) (take_bit 48 lba)"

text \<open>Drives that follow the protocol provide this interface.\<close>

lemma drives_provide:
  assumes "\<And>disk. drive d (disk_port disk) (img disk)"
  shows "sector_source d (disk_bytes img)"
proof
  fix lba n buf disk and s :: fsys
  obtain m t where "readsectorpio d lba n buf disk (fs_mem s) (fs_io s) = Some (m, t)"
    "\<And>x. m x = (if unat (x - buf) < 512 * unat n
       then sector_byte (img disk (disk mod 2 \<noteq> 0)) (take_bit 48 lba) (unat (x - buf)) else fs_mem s x)"
    using readsectorpio_data [OF assms [of disk]] by blast
  moreover from this(2) have "m = fill (fs_mem s) buf (512 * unat n) (disk_bytes img disk lba)"
    by (auto simp: fill_def disk_bytes_def)
  ultimately show "\<exists>t. read_sec d lba n buf disk s =
      Some (s\<lparr>fs_mem := fill (fs_mem s) buf (512 * unat n) (disk_bytes img disk lba), fs_io := t\<rparr>)"
    by (auto simp: read_sec_def)
qed

locale drives =
  fixes d :: device and img :: "u32 \<Rightarrow> bool \<Rightarrow> u64 \<Rightarrow> nat \<Rightarrow> u16"
  assumes follows: "drive d (disk_port disk) (img disk)"

sublocale drives \<subseteq> sector_source d "disk_bytes img"
  by (rule drives_provide) (rule follows)

lemma drives_source: "drives d img \<Longrightarrow> sector_source d (disk_bytes img)"
  by (rule drives_provide) (rule drives.follows)

interpretation ram: drives "ram_disk img" "\<lambda>_. img" for img
  by unfold_locales (rule ram_disk_drive)

subsection \<open>Drives given by their bytes\<close>

definition words_of :: "(u64 \<Rightarrow> nat \<Rightarrow> u8) \<Rightarrow> u64 \<Rightarrow> nat \<Rightarrow> u16" where
  "words_of b lba k = ucast (b lba (2 * k)) OR push_bit 8 (ucast (b lba (2 * k + 1)))"

lemma word_halves:
  "ucast (ucast lo OR push_bit 8 (ucast hi) :: u16) = (lo :: u8)"
  "ucast (drop_bit 8 (ucast lo OR push_bit 8 (ucast hi) :: u16)) = (hi :: u8)" for lo hi :: u8
  by (rule bit_word_eqI; auto simp: bit_ucast_iff bit_or_iff bit_push_bit_iff bit_drop_bit_eq dest: bit_imp_le_length)+

lemma sector_byte_words: "sector_byte (words_of b) lba off = b (lba + of_nat (off div 512)) (off mod 512)"
proof -
  have e: "off mod 512 = 2 * (off div 2 mod 256) + off mod 2" using mod_mult2_eq [of off 2 256] by simp
  consider "off mod 2 = 0" | "off mod 2 = 1" by linarith
  then show ?thesis
  proof cases
    case 1
    show ?thesis unfolding sector_byte_def words_of_def e 1 mult_0_right drop_bit_0 id_apply word_halves by simp
  next
    case 2
    show ?thesis unfolding sector_byte_def words_of_def e 2 mult_1_right word_halves by simp
  qed
qed

end
