(* ===== verification/Log.thy ===== *)
theory Log
  imports LibC PortIO
begin

text \<open>
  The serial log of \<^verbatim>\<open>syscall/debug_log.c\<close>: \<^verbatim>\<open>logs\<close>, \<^verbatim>\<open>logchar\<close>, the two formatted printers
  \<^verbatim>\<open>debug_log\<close> and \<^verbatim>\<open>error\<close>, and \<^verbatim>\<open>memdump\<close>. Format strings are read from memory byte by byte;
  the variable arguments are a list of 64-bit values, and taking one more than was passed is
  \<^term>\<open>OutOfBounds\<close>. \<^term>\<open>buf\<close> is the address of the function's local 21-byte buffer. The lemmas
  refine the printers to a function on format strings.
\<close>

section \<open>Operations\<close>

definition COM1 :: u16 where "COM1 = 0x3F8"

text \<open>What \<^verbatim>\<open>logs\<close> sends for one character, and for a string literal of the source.\<close>

definition logchar :: "u8 \<Rightarrow> trace \<Rightarrow> trace" where
  "logchar c t = (let t = outb COM1 c t in if c = 10 then outb COM1 13 t else t)"

definition log_literal :: "u8 list \<Rightarrow> trace \<Rightarrow> trace" where
  "log_literal s t = fold logchar s t"

partial_function (option) logs_loop :: "mem \<Rightarrow> u64 \<Rightarrow> u32 \<Rightarrow> trace \<Rightarrow> (u32 \<times> trace) option" where
  "logs_loop m str count t =
     (if m str \<noteq> 0
      then let t = outb COM1 (m str) t; t = (if m str = 10 then outb COM1 13 t else t)
        in logs_loop m (str + 1) (count + 1) t
      else Some (count, t))"

definition logs :: "mem \<Rightarrow> u64 \<Rightarrow> trace \<Rightarrow> (u32 \<times> trace) option" where
  "logs m str t = logs_loop m str 0 t"

type_synonym printed = "(c_error + mem \<times> trace) option"

definition log_num :: "mem \<Rightarrow> u64 \<Rightarrow> u64 \<Rightarrow> u32 \<Rightarrow> u8 list \<Rightarrow> trace \<Rightarrow> printed" where
  "log_num m buf num base prefix t =
     (case itoa m num buf base of
        None \<Rightarrow> None
      | Some (Inl e) \<Rightarrow> Some (Inl e)
      | Some (Inr (m, _)) \<Rightarrow>
          (case logs m buf (log_literal prefix t) of
             None \<Rightarrow> None
           | Some (_, t) \<Rightarrow> Some (Inr (m, t))))"

text \<open>
  One conversion: the character after the percent sign and the next argument. The result is the
  memory and trace after it; \<^verbatim>\<open>error\<close> has no \<^verbatim>\<open>%c\<close>.
\<close>

definition log_conversion :: "bool \<Rightarrow> mem \<Rightarrow> u64 \<Rightarrow> u8 \<Rightarrow> u64 \<Rightarrow> trace \<Rightarrow> printed" where
  "log_conversion err m buf c arg t =
     (if c = 112 then log_num m buf arg 16 [48, 120] t
      else if c = 99 \<and> \<not> err then Some (Inr (m, logchar (ucast arg) t))
      else if c = 100 then log_num m buf arg 10 [] t
      else if c = 88 then log_num m buf arg 16 [] t
      else (case logs m arg t of None \<Rightarrow> None | Some (_, t) \<Rightarrow> Some (Inr (m, t))))"

definition is_conversion :: "bool \<Rightarrow> u8 \<Rightarrow> bool" where
  "is_conversion err c \<longleftrightarrow> c = 112 \<or> c = 99 \<and> \<not> err \<or> c = 100 \<or> c = 88 \<or> c = 115"

text \<open>
  The loop that \<^verbatim>\<open>debug_log\<close> and \<^verbatim>\<open>error\<close> share; for an ordinary newline only \<^verbatim>\<open>debug_log\<close> adds a
  carriage return. After \<^verbatim>\<open>%%\<close>, and after an unknown conversion, the pointer moves by one only.
\<close>

partial_function (option) log_format ::
  "bool \<Rightarrow> u64 \<Rightarrow> mem \<Rightarrow> u64 \<Rightarrow> u64 list \<Rightarrow> trace \<Rightarrow> printed" where
  "log_format err buf m format ap t =
     (if m format = 0 then Some (Inr (m, t))
      else if m format = 37 then
        (if is_conversion err (m (format + 1)) then
           (case ap of
              [] \<Rightarrow> Some (Inl OutOfBounds)
            | arg # ap \<Rightarrow>
                (case log_conversion err m buf (m (format + 1)) arg t of
                   None \<Rightarrow> None
                 | Some (Inl e) \<Rightarrow> Some (Inl e)
                 | Some (Inr (m, t)) \<Rightarrow> log_format err buf m (format + 2) ap t))
         else if m (format + 1) = 37 then log_format err buf m (format + 1) ap (outb COM1 37 t)
         else log_format err buf m (format + 1) ap t)
      else log_format err buf m (format + 1) ap
        (if err then outb COM1 (m format) t else logchar (m format) t))"

definition debug_log :: "u64 \<Rightarrow> mem \<Rightarrow> u64 \<Rightarrow> u64 list \<Rightarrow> trace \<Rightarrow> printed" where
  "debug_log buf m format ap t = log_format False buf m format ap t"

definition error_log :: "u64 \<Rightarrow> mem \<Rightarrow> u64 \<Rightarrow> u64 list \<Rightarrow> trace \<Rightarrow> printed" where
  "error_log buf m format ap t = log_format True buf m format ap t"

text \<open>\<^verbatim>\<open>memdump\<close>; \<^term>\<open>fmt\<close> is where the literal \<^verbatim>\<open>"%X "\<close> is stored.\<close>

primrec memdump_loop :: "u64 \<Rightarrow> u64 \<Rightarrow> nat \<Rightarrow> nat \<Rightarrow> mem \<Rightarrow> u64 \<Rightarrow> trace \<Rightarrow> printed" where
  "memdump_loop fmt buf 0 x m c t = Some (Inr (m, t))"
| "memdump_loop fmt buf (Suc count) x m c t =
     (let t = (if m c < 0x10 then logchar 48 t else t)
      in case debug_log buf m fmt [ucast (m c)] t of
           None \<Rightarrow> None
         | Some (Inl e) \<Rightarrow> Some (Inl e)
         | Some (Inr (m, t)) \<Rightarrow>
             (if x + 1 < 8 then memdump_loop fmt buf count (x + 1) m (c + 1) t
              else memdump_loop fmt buf count 0 m (c + 1) (log_literal [10, 13] t)))"

definition memdump :: "u64 \<Rightarrow> u64 \<Rightarrow> mem \<Rightarrow> u64 \<Rightarrow> u64 \<Rightarrow> trace \<Rightarrow> printed" where
  "memdump fmt buf m ptr count t = memdump_loop fmt buf (unat count) 0 m ptr t"

section \<open>What is sent\<close>

definition sent :: "u8 list \<Rightarrow> trace" where
  "sent s = map (OutB COM1) s"

definition crlf :: "u8 list \<Rightarrow> u8 list" where
  "crlf s = concat (map (\<lambda>c. if c = 10 then [10, 13] else [c]) s)"

lemma sent_simps [simp]: "sent [] = []" "sent (c # s) = OutB COM1 c # sent s" "sent (s @ u) = sent s @ sent u"
  by (simp_all add: sent_def)

lemma crlf_simps [simp]: "crlf [] = []" "crlf (c # s) = (if c = 10 then [10, 13] else [c]) @ crlf s"
  by (simp_all add: crlf_def)

lemma logchar_sent: "logchar c t = t @ sent (crlf [c])"
  by (simp add: logchar_def outb_def Let_def)

lemma log_literal_sent: "log_literal s t = t @ sent (crlf s)"
proof (induction s arbitrary: t)
  case (Cons c s)
  have "log_literal (c # s) t = log_literal s (logchar c t)" by (simp add: log_literal_def)
  with Cons show ?case by (simp add: logchar_sent)
qed (simp add: log_literal_def)

lemma logs_loop_sent:
  "cstr m a s \<Longrightarrow> logs_loop m a n t = Some (n + of_nat (length s), t @ sent (crlf s))"
proof (induction s arbitrary: a n t)
  case Nil
  then show ?case by (subst logs_loop.simps) simp
next
  case (Cons c s)
  then show ?case
    by (subst logs_loop.simps) (simp add: outb_def Let_def)
qed

lemma logs_sent: "cstr m a s \<Longrightarrow> logs m a t = Some (of_nat (length s), t @ sent (crlf s))"
  by (simp add: logs_def logs_loop_sent)

section \<open>The printers as functions of the format\<close>

definition conv_text :: "bool \<Rightarrow> (u64 \<Rightarrow> u8 list) \<Rightarrow> u8 \<Rightarrow> u64 \<Rightarrow> u8 list" where
  "conv_text err st c a =
     (if c = 112 then [48, 120] @ num_text 16 (unat a)
      else if c = 99 \<and> \<not> err then crlf [ucast a]
      else if c = 100 then num_text 10 (unat a)
      else if c = 88 then num_text 16 (unat a)
      else crlf (st a))"

text \<open>\<^term>\<open>st\<close> gives the text behind a \<^verbatim>\<open>%s\<close> argument; \<^term>\<open>None\<close> means too few arguments.\<close>

fun render :: "bool \<Rightarrow> (u64 \<Rightarrow> u8 list) \<Rightarrow> u8 list \<Rightarrow> u64 list \<Rightarrow> u8 list option" where
  "render err st [] ap = Some []"
| "render err st [x] ap = Some (if x = 37 then [] else if err then [x] else crlf [x])"
| "render err st (x # c # r) ap =
     (if x = 37 then
        (if is_conversion err c then
           (case ap of [] \<Rightarrow> None | a # ap \<Rightarrow> map_option ((@) (conv_text err st c a)) (render err st r ap))
         else if c = 37 then map_option ((@) [37]) (render err st (c # r) ap)
         else render err st (c # r) ap)
      else map_option ((@) (if err then [x] else crlf [x])) (render err st (c # r) ap))"

fun str_args :: "bool \<Rightarrow> u8 list \<Rightarrow> u64 list \<Rightarrow> u64 list" where
  "str_args err [] ap = []"
| "str_args err [x] ap = []"
| "str_args err (x # c # r) ap =
     (if x = 37 \<and> is_conversion err c then
        (case ap of [] \<Rightarrow> [] | a # ap \<Rightarrow> (if c = 115 then [a] else []) @ str_args err r ap)
      else str_args err (c # r) ap)"

definition away :: "u64 \<Rightarrow> u64 \<Rightarrow> nat \<Rightarrow> bool" where
  "away buf a n \<longleftrightarrow> (\<forall>i \<le> n. 21 \<le> unat (a + of_nat i - buf))"

definition same_outside :: "u64 \<Rightarrow> mem \<Rightarrow> mem \<Rightarrow> bool" where
  "same_outside buf m m' \<longleftrightarrow> (\<forall>x. 21 \<le> unat (x - buf) \<longrightarrow> m' x = m x)"

lemma same_outside_refl [simp]: "same_outside buf m m"
  by (simp add: same_outside_def)

lemma same_outside_trans: "same_outside buf m m' \<Longrightarrow> same_outside buf m' m'' \<Longrightarrow> same_outside buf m m''"
  by (simp add: same_outside_def)

lemma cstr_outside: "same_outside buf m m' \<Longrightarrow> away buf a (length s) \<Longrightarrow> cstr m' a s = cstr m a s"
  by (rule cstr_cong) (simp add: same_outside_def away_def)

lemma away_Suc:
  assumes "away buf a (Suc n)"
  shows "away buf (a + 1) n"
  unfolding away_def
proof (intro allI impI)
  fix i
  assume "i \<le> n"
  with assms have "21 \<le> unat (a + of_nat (Suc i) - buf)" unfolding away_def by blast
  then show "21 \<le> unat (a + 1 + of_nat i - buf)" by (simp add: algebra_simps)
qed

lemma crlf_num_text: "2 \<le> b \<Longrightarrow> b \<le> 36 \<Longrightarrow> crlf (num_text b n) = num_text b n"
proof -
  assume b: "2 \<le> b" "b \<le> 36"
  have "\<forall>d \<in> set [0..<36]. digit ! d \<noteq> 10" by code_simp
  then have ten: "d < 36 \<Longrightarrow> digit ! d \<noteq> 10" for d by simp
  have "\<forall>c \<in> set (num_text b n). c \<noteq> 10" using mod_less_36 [OF b] ten by (auto simp: num_text_def Let_def)
  moreover have "\<forall>c \<in> set s. c \<noteq> 10 \<Longrightarrow> crlf s = s" for s by (induction s) auto
  ultimately show ?thesis by blast
qed

lemma log_num_sent:
  assumes "base = 16 \<or> base = 10"
  shows "\<exists>m'. log_num m buf num base pre t =
      Some (Inr (m', t @ sent (crlf pre @ num_text (unat base) (unat num)))) \<and> same_outside buf m m'"
proof -
  have b: "2 \<le> unat base" "unat base \<le> 36" "10 \<le> unat base" using assms by auto
  obtain m' n where i: "itoa m num buf base = Some (Inr (m', n))" "cstr m' buf (num_text (unat base) (unat num))"
    "unat n = digit_count (unat base) (unat num)" "\<forall>x. unat n < unat (x - buf) \<longrightarrow> m' x = m x"
    using itoa_prints [OF b(1,2), of m num buf] by blast
  have "same_outside buf m m'"
    using i(3,4) digit_count_20 [OF b(3), of num] by (auto simp: same_outside_def)
  with i logs_sent [OF i(2)] show ?thesis
    by (simp add: log_num_def log_literal_sent crlf_num_text [OF b(1,2)])
qed

lemma log_conversion_sent:
  assumes "is_conversion err c" and "c = 115 \<longrightarrow> cstr m a (st a)"
  shows "\<exists>m'. log_conversion err m buf c a t = Some (Inr (m', t @ sent (conv_text err st c a))) \<and>
    same_outside buf m m'"
proof -
  consider "c = 112" | "c = 99" "\<not> err" | "c = 100" | "c = 88" | "c = 115"
    using assms(1) by (auto simp: is_conversion_def)
  then show ?thesis
  proof cases
    case 1
    then show ?thesis using log_num_sent [of 16 m buf a "[48, 120]" t] by (simp add: log_conversion_def conv_text_def)
  next
    case 2
    then show ?thesis by (simp add: log_conversion_def conv_text_def logchar_sent)
  next
    case 3
    then show ?thesis using log_num_sent [of 10 m buf a "[]" t] by (simp add: log_conversion_def conv_text_def)
  next
    case 4
    then show ?thesis using log_num_sent [of 16 m buf a "[]" t] by (simp add: log_conversion_def conv_text_def)
  next
    case 5
    then show ?thesis using assms(2) logs_sent [of m a "st a" t] by (simp add: log_conversion_def conv_text_def)
  qed
qed

definition strings_at :: "u64 \<Rightarrow> mem \<Rightarrow> (u64 \<Rightarrow> u8 list) \<Rightarrow> u64 list \<Rightarrow> bool" where
  "strings_at buf m st as \<longleftrightarrow> (\<forall>a \<in> set as. cstr m a (st a) \<and> away buf a (length (st a)))"

lemma strings_at_outside: "same_outside buf m m' \<Longrightarrow> strings_at buf m st as \<Longrightarrow> strings_at buf m' st as"
  by (simp add: strings_at_def cstr_outside)

definition printed_ok :: "u64 \<Rightarrow> mem \<Rightarrow> trace \<Rightarrow> u8 list option \<Rightarrow> printed \<Rightarrow> bool" where
  "printed_ok buf m t out r = (case out of
     None \<Rightarrow> r = Some (Inl OutOfBounds)
   | Some s \<Rightarrow> (\<exists>m'. r = Some (Inr (m', t @ sent s)) \<and> same_outside buf m m'))"

lemma printed_ok_prefix:
  "printed_ok buf m' (t @ sent u) out r \<Longrightarrow> same_outside buf m m' \<Longrightarrow>
     printed_ok buf m t (map_option ((@) u) out) r"
  by (cases out) (auto simp: printed_ok_def intro: same_outside_trans)

lemma log_format_renders:
  "cstr m format f \<Longrightarrow> away buf format (length f) \<Longrightarrow> strings_at buf m st (str_args err f ap) \<Longrightarrow>
     printed_ok buf m t (render err st f ap) (log_format err buf m format ap t)"
proof (induction err st f ap arbitrary: m format t rule: render.induct)
  case (1 err st ap)
  then show ?case by (subst log_format.simps) (simp add: printed_ok_def)
next
  case (2 err st x ap)
  have "log_format err buf m (format + 1) ap t' = Some (Inr (m, t'))" for t'
    using 2 by (subst log_format.simps) simp
  with 2 show ?case
    by (subst log_format.simps) (auto simp: printed_ok_def is_conversion_def outb_def logchar_sent)
next
  case (3 err st x c r ap)
  have f: "m format = x" "x \<noteq> 0" "m (format + 1) = c" "cstr m (format + 1) (c # r)" "away buf (format + 1) (length (c # r))"
    using 3(5,6) away_Suc by auto
  show ?case
  proof (cases "x = 37")
    case False
    have "printed_ok buf m (t @ sent (if err then [x] else crlf [x])) (render err st (c # r) ap)
        (log_format err buf m (format + 1) ap (t @ sent (if err then [x] else crlf [x])))"
      using "3.IH"(4) [OF False f(4,5)] "3.prems"(3) False by simp
    then have "printed_ok buf m t (map_option ((@) (if err then [x] else crlf [x])) (render err st (c # r) ap))
        (log_format err buf m (format + 1) ap (t @ sent (if err then [x] else crlf [x])))"
      by (rule printed_ok_prefix) simp
    with f(1,2) False show ?thesis
      by (subst log_format.simps) (cases err; cases "x = 10"; simp add: outb_def logchar_sent)
  next
    case True
    show ?thesis
    proof (cases "is_conversion err c")
      case conv: True
      show ?thesis
      proof (cases ap)
        case Nil
        with True conv f(1-3) show ?thesis by (subst log_format.simps) (simp add: printed_ok_def)
      next
        case (Cons a ap')
        have st: "c = 115 \<longrightarrow> cstr m a (st a)" "strings_at buf m st (str_args err r ap')"
          using "3.prems"(3) True conv Cons by (auto simp: strings_at_def)
        obtain m' where m': "log_conversion err m buf c a t = Some (Inr (m', t @ sent (conv_text err st c a)))"
          "same_outside buf m m'" using log_conversion_sent [where st = st, OF conv st(1)] by blast
        have aw: "away buf (format + 1 + 1) (length r)" using away_Suc [of buf "format + 1" "length r"] f(5) by simp
        have "cstr m' (format + 1 + 1) r" using f(4) cstr_outside [OF m'(2) aw] by simp
        then have "printed_ok buf m' (t @ sent (conv_text err st c a)) (render err st r ap')
            (log_format err buf m' (format + 1 + 1) ap' (t @ sent (conv_text err st c a)))"
          by (rule "3.IH"(1) [OF True conv Cons _ aw strings_at_outside [OF m'(2) st(2)]])
        from printed_ok_prefix [OF this m'(2)] show ?thesis
          using True conv Cons f(1-3) m'(1) by (subst log_format.simps) (simp add: add.assoc)
      qed
    next
      case no: False
      have st: "strings_at buf m st (str_args err (c # r) ap)" using "3.prems"(3) no by simp
      show ?thesis
      proof (cases "c = 37")
        case pc: True
        have "printed_ok buf m (t @ sent [37]) (render err st (c # r) ap)
            (log_format err buf m (format + 1) ap (t @ sent [37]))"
          by (rule "3.IH"(2) [OF True no pc f(4,5) st])
        from printed_ok_prefix [OF this same_outside_refl] show ?thesis
          using True no pc f(1-3) by (subst log_format.simps) (simp add: outb_def)
      next
        case False
        have "printed_ok buf m t (render err st (c # r) ap) (log_format err buf m (format + 1) ap t)"
          by (rule "3.IH"(3) [OF True no False f(4,5) st])
        then show ?thesis
          using True no False f(1-3) by (subst log_format.simps) simp
      qed
    qed
  qed
qed

section \<open>Properties\<close>

text \<open>
  C39: For a terminated format string (and terminated \<^verbatim>\<open>%s\<close> arguments) outside its own buffer,
  \<^verbatim>\<open>debug_log\<close> returns, sends exactly the rendering of the format to the serial port, changes no
  byte outside the 21 bytes of its buffer, and reads past its arguments only if the format asks
  for more than were passed.
\<close>

theorem debug_log_renders:
  assumes "cstr m format f" and "away buf format (length f)" and "strings_at buf m st (str_args False f ap)"
  shows "case render False st f ap of
      None \<Rightarrow> debug_log buf m format ap t = Some (Inl OutOfBounds)
    | Some s \<Rightarrow> \<exists>m'. debug_log buf m format ap t = Some (Inr (m', t @ sent s)) \<and>
        (\<forall>x. 21 \<le> unat (x - buf) \<longrightarrow> m' x = m x)"
  using log_format_renders [OF assms, of t]
  by (simp add: debug_log_def printed_ok_def same_outside_def split: option.splits)

definition text_at :: "u64 \<Rightarrow> u8 list \<Rightarrow> mem" where
  "text_at a s x = (if unat (x - a) < length s then s ! unat (x - a) else 0)"

lemma text_at_cstr:
  assumes "0 \<notin> set s" and "length s < 2 ^ 63"
  shows "cstr (text_at a s) a s"
proof -
  have "unat (of_nat i :: u64) = i" if "i \<le> length s" for i
    using that assms(2) by (intro unat_of_nat_small) simp
  then show ?thesis using assms(1) by (auto simp: cstr_nth text_at_def in_set_conv_nth)
qed

lemma away_above:
  assumes "unat buf + 21 \<le> unat a" and "unat a + n < 2 ^ 64"
  shows "away buf a n"
  unfolding away_def
proof (intro allI impI)
  fix i
  assume "i \<le> n"
  then have "unat (of_nat i :: u64) = i" "unat a + i < 2 ^ 64"
    using assms(2) by (simp_all add: unat_of_nat)
  then have "unat (a + of_nat i) = unat a + i" by (simp add: unat_word_ariths)
  moreover from this have "buf \<le> a + of_nat i" using assms(1) by (simp add: word_le_nat_alt)
  ultimately show "21 \<le> unat (a + of_nat i - buf)" using assms(1) by (simp add: unat_sub)
qed

lemma hex_255: "num_text 16 255 = [70, 70]"
  by code_simp

theorem debug_log_renders_witness:
  "\<exists>m'. debug_log 64 (text_at 8 [65, 37, 88, 10]) 8 [255] [] = Some (Inr (m', sent [65, 70, 70, 10, 13]))"
  using debug_log_renders [of "text_at 8 [65, 37, 88, 10]" 8 "[65, 37, 88, 10]" 64 "\<lambda>_. []" "[255]" "[]"] hex_255
  by (auto simp: text_at_def away_def strings_at_def is_conversion_def conv_text_def le_Suc_eq)

text \<open>
  \<^verbatim>\<open>error\<close> behaves the same without \<^verbatim>\<open>%c\<close> and without adding carriage returns to the newlines
  of the format itself.
\<close>

theorem error_renders:
  assumes "cstr m format f" and "away buf format (length f)" and "strings_at buf m st (str_args True f ap)"
  shows "case render True st f ap of
      None \<Rightarrow> error_log buf m format ap t = Some (Inl OutOfBounds)
    | Some s \<Rightarrow> \<exists>m'. error_log buf m format ap t = Some (Inr (m', t @ sent s)) \<and>
        (\<forall>x. 21 \<le> unat (x - buf) \<longrightarrow> m' x = m x)"
  using log_format_renders [OF assms, of t]
  by (simp add: error_log_def printed_ok_def same_outside_def split: option.splits)

theorem error_renders_witness:
  "error_log 64 (text_at 8 [37, 88]) 8 [] [] = Some (Inl OutOfBounds)"
  using error_renders [of "text_at 8 [37, 88]" 8 "[37, 88]" 64 "\<lambda>_. []" "[]" "[]"]
  by (simp add: text_at_def away_def strings_at_def is_conversion_def le_Suc_eq)

subsection \<open>memdump\<close>

definition hex2 :: "u8 \<Rightarrow> u8 list" where
  "hex2 b = (if b < 0x10 then [48] else []) @ num_text 16 (unat b)"

fun dump_text :: "nat \<Rightarrow> u8 list \<Rightarrow> u8 list" where
  "dump_text x [] = []"
| "dump_text x (b # bs) = hex2 b @ [32] @
     (if x + 1 < 8 then dump_text (x + 1) bs else [10, 13, 13] @ dump_text 0 bs)"

lemma hex2_length: "length (hex2 b) = 2"
proof -
  have l: "length (num_text 16 n) = digit_count 16 n" for n by (simp add: num_text_def Let_def)
  have n: "ndigits 16 n = (if n = 0 then 0 else if n < 16 then 1 else 2)" if "n < 256" for n
  proof -
    have "n div 16 < 16" "n div 16 = 0 \<longleftrightarrow> n < 16" using that by auto
    then show ?thesis by (simp add: ndigits.simps [of 16 n] ndigits.simps [of 16 "n div 16"] ndigits.simps [of 16 0])
  qed
  have "unat b < 256" using unsigned_less [of b] by simp
  moreover have "b < 0x10 \<longleftrightarrow> unat b < 16" by (simp add: word_less_nat_alt)
  ultimately show ?thesis using n [of "unat b"] by (auto simp: hex2_def l digit_count_def)
qed

lemma memdump_byte:
  assumes "cstr m fmt [37, 88, 32]" and "away buf fmt (length [37 :: u8, 88, 32])"
  shows "\<exists>m'. debug_log buf m fmt [ucast (b :: u8)] (if b < 0x10 then logchar 48 t else t) =
      Some (Inr (m', t @ sent (hex2 b @ [32]))) \<and> same_outside buf m m'"
proof -
  let ?t = "if b < 0x10 then logchar 48 t else t"
  have u: "unat (ucast b :: u64) = unat b" by (simp add: unsigned_ucast_eq take_bit_nat_eq_self_iff
      order_less_trans [OF unsigned_less [of b]])
  have "printed_ok buf m ?t (render False (\<lambda>_. []) [37, 88, 32] [ucast b]) (log_format False buf m fmt [ucast b] ?t)"
    using assms by (intro log_format_renders) (simp_all add: is_conversion_def strings_at_def)
  then show ?thesis
    by (cases "b < 0x10")
      (simp_all add: printed_ok_def is_conversion_def conv_text_def debug_log_def hex2_def logchar_sent u)
qed

lemma memdump_loop_sent:
  assumes "away buf fmt (length [37 :: u8, 88, 32])"
  shows "cstr m fmt [37, 88, 32] \<Longrightarrow> (\<forall>i < length bs. m (c + of_nat i) = bs ! i \<and> 21 \<le> unat (c + of_nat i - buf)) \<Longrightarrow>
    \<exists>m'. memdump_loop fmt buf (length bs) x m c t = Some (Inr (m', t @ sent (dump_text x bs))) \<and> same_outside buf m m'"
proof (induction bs arbitrary: x m c t)
  case (Cons b bs)
  have b: "m c = b" using Cons.prems(2) [rule_format, of 0] by simp
  obtain m1 where m1: "debug_log buf m fmt [ucast b] (if b < 0x10 then logchar 48 t else t) =
      Some (Inr (m1, t @ sent (hex2 b @ [32])))" "same_outside buf m m1"
    using memdump_byte [OF Cons.prems(1) assms] by blast
  have "cstr m1 fmt [37, 88, 32]" using cstr_outside [OF m1(2), of fmt "[37, 88, 32]"] assms Cons.prems(1) by simp
  moreover have "m1 (c + 1 + of_nat i) = bs ! i \<and> 21 \<le> unat (c + 1 + of_nat i - buf)" if "i < length bs" for i
    using Cons.prems(2) [rule_format, of "Suc i"] that m1(2) by (simp add: same_outside_def algebra_simps)
  ultimately have IH: "\<exists>m'. memdump_loop fmt buf (length bs) y m1 (c + 1) t' =
      Some (Inr (m', t' @ sent (dump_text y bs))) \<and> same_outside buf m1 m'" for y t'
    using Cons.IH by blast
  show ?case
  proof (cases "x + 1 < 8")
    case True
    with IH [of "x + 1" "t @ sent (hex2 b @ [32])"] m1 b show ?thesis
      by (auto simp: Let_def intro: same_outside_trans)
  next
    case False
    with IH [of 0 "t @ sent (hex2 b @ [32]) @ sent [10, 13, 13]"] m1 b show ?thesis
      by (auto simp: Let_def log_literal_sent intro: same_outside_trans)
  qed
qed simp

text \<open>
  \<^verbatim>\<open>memdump\<close> returns and prints every byte of the block as exactly two hexadecimal digits and a
  space, eight bytes to a line.
\<close>

theorem memdump_prints:
  assumes "cstr m fmt [37, 88, 32]" and "away buf fmt (length [37 :: u8, 88, 32])"
    and "\<forall>i < length bs. m (ptr + of_nat i) = bs ! i \<and> 21 \<le> unat (ptr + of_nat i - buf)" and "length bs < 2 ^ 64"
  shows "\<exists>m'. memdump fmt buf m ptr (of_nat (length bs)) t = Some (Inr (m', t @ sent (dump_text 0 bs))) \<and>
    (\<forall>b. length (hex2 b) = 2)"
  using memdump_loop_sent [OF assms(2,1,3), of 0 t] assms(4) hex2_length by (auto simp: memdump_def)

theorem memdump_prints_witness:
  "\<exists>m'. memdump 8 64 ((text_at 8 [37, 88, 32])(1000 := 10)) 1000 1 [] = Some (Inr (m', sent [48, 65, 32]))"
proof -
  have "num_text 16 10 = [65]" by code_simp
  with memdump_prints [of "(text_at 8 [37, 88, 32])(1000 := 10)" 8 64 "[10]" 1000 "[]"] show ?thesis
    by (auto simp: text_at_def away_def le_Suc_eq hex2_def)
qed

end
