(* ===== verification/Cpu.thy ===== *)
theory Cpu
  imports Log
begin

text \<open>
  The processor's tables: segment descriptors (\<^verbatim>\<open>cpu/GDT/GDT.c\<close>), interrupt gates and fault
  handlers (\<^verbatim>\<open>cpu/ints/IDT.c\<close>), the timer (\<^verbatim>\<open>cpu/ints/timer/PIT.c\<close>) and the system call registers
  (\<^verbatim>\<open>syscall/syscall.c\<close>). Tables are lists of records with the fields of the packed structs; a
  store outside a table is \<^term>\<open>None\<close>. The addresses of functions and tables, which the linker
  chooses, are parameters.
\<close>

section \<open>Segment descriptors\<close>

definition ENTRIES :: nat where "ENTRIES = 8"

record gdt_entry =
  g_limit :: u16
  g_base1 :: u16
  g_base2 :: u8
  g_access :: u8
  g_flags :: u8
  g_base3 :: u8

record gdt_state =
  GDT :: "gdt_entry list"
  GDT_entry :: u8

definition gdtadd :: "u32 \<Rightarrow> u32 \<Rightarrow> u8 \<Rightarrow> bool \<Rightarrow> gdt_state \<Rightarrow> gdt_state option" where
  "gdtadd base sz access longcode g =
     (if unat (GDT_entry g) < length (GDT g) then
        (let sz = drop_bit 12 sz in
         Some \<lparr>GDT = (GDT g)[unat (GDT_entry g) :=
             \<lparr>g_limit = ucast (sz AND 0xFFFF), g_base1 = ucast (base AND 0xFFFF),
              g_base2 = ucast (drop_bit 16 base AND 0xFF), g_access = access,
              g_flags = (if longcode then ucast (0xA0 OR (drop_bit 16 sz AND 0x0F))
                else ucast (0xC0 OR (drop_bit 16 sz AND 0x0F))),
              g_base3 = ucast (drop_bit 24 base AND 0xFF)\<rparr>],
           GDT_entry = GDT_entry g + 1\<rparr>)
      else None)"

text \<open>
  \<^verbatim>\<open>init_tss\<close> writes the eight bytes of the descriptor as one 64-bit value (0x89 in the access byte
  and 0x40 in the flags byte) and skips the entry after it. It is not called.
\<close>

definition init_tss :: "gdt_state \<Rightarrow> gdt_state option" where
  "init_tss g =
     (if unat (GDT_entry g) < length (GDT g) then
        Some \<lparr>GDT = (GDT g)[unat (GDT_entry g) := \<lparr>g_limit = 0, g_base1 = 0, g_base2 = 0,
            g_access = 0x89, g_flags = 0x40, g_base3 = 0\<rparr>], GDT_entry = GDT_entry g + 2\<rparr>
      else None)"

record table_ptr =
  tp_size :: u16
  tp_offset :: u64

text \<open>\<^term>\<open>gdt_addr\<close> is the address of the table; the result holds the pointer given to \<^verbatim>\<open>lgdt\<close>.\<close>

definition init_gdt :: "u64 \<Rightarrow> gdt_state \<Rightarrow> (gdt_state \<times> table_ptr) option" where
  "init_gdt gdt_addr g = do {
     g \<leftarrow> gdtadd 0 0 0 False g;
     g \<leftarrow> gdtadd 0 0xFFFFFFFF 0x9A True g;
     g \<leftarrow> gdtadd 0 0xFFFFFFFF 0x92 False g;
     g \<leftarrow> gdtadd 0 0 0 False g;
     g \<leftarrow> gdtadd 0 0xFFFFFFFF 0xF2 False g;
     g \<leftarrow> gdtadd 0 0xFFFFFFFF 0xFA True g;
     Some (g, \<lparr>tp_size = of_nat (8 * ENTRIES - 1), tp_offset = gdt_addr\<rparr>)
   }"

section \<open>Interrupt gates\<close>

definition INTS :: nat where "INTS = 0x30"

record idt_entry =
  i_offset1 :: u16
  i_selector :: u16
  i_ist :: u8
  i_type :: u8
  i_offset2 :: u16
  i_offset3 :: u32
  i_resv :: u32

definition addirq :: "u8 \<Rightarrow> u64 \<Rightarrow> u8 \<Rightarrow> idt_entry list \<Rightarrow> idt_entry list option" where
  "addirq ent offset ty idt =
     (if unat ent < length idt then
        Some (idt[unat ent :=
          \<lparr>i_offset1 = ucast (offset AND 0xFFFF), i_selector = 8, i_ist = 0, i_type = ty,
           i_offset2 = ucast (drop_bit 16 offset AND 0xFFFF),
           i_offset3 = ucast (drop_bit 32 offset AND 0xFFFFFFFF), i_resv = 0\<rparr>])
      else None)"

text \<open>The loops \<^verbatim>\<open>for (i = lo; i < lo + n; ++i) addirq(i, offset, type)\<close>.\<close>

primrec addirqs :: "u8 \<Rightarrow> nat \<Rightarrow> u64 \<Rightarrow> u8 \<Rightarrow> idt_entry list \<Rightarrow> idt_entry list option" where
  "addirqs i 0 offset ty idt = Some idt"
| "addirqs i (Suc n) offset ty idt = addirq i offset ty idt \<bind> addirqs (i + 1) n offset ty"

datatype handler = general_fault | non_maskable_interrupt | div_0_fault | debug_fault
  | breakpoint_fault | overflow_fault | bound_fault | inv_opcode_fault | no_device_fault
  | double_fault | inv_tss_fault | no_segment_fault | stack_fault | gp_fault | page_fault
  | nop_master | nop_slave | pitirq

definition init_idt_gates :: "(handler \<Rightarrow> u64) \<Rightarrow> idt_entry list \<Rightarrow> idt_entry list option" where
  "init_idt_gates addr idt = do {
     idt \<leftarrow> addirqs 0 0x20 (addr general_fault) 0x8F idt;
     idt \<leftarrow> addirqs 0x20 8 (addr nop_master) 0x8E idt;
     idt \<leftarrow> addirqs 0x28 8 (addr nop_slave) 0x8E idt;
     idt \<leftarrow> addirq 0x0 (addr div_0_fault) 0x8F idt;
     idt \<leftarrow> addirq 0x1 (addr debug_fault) 0x8F idt;
     idt \<leftarrow> addirq 0x2 (addr non_maskable_interrupt) 0x8F idt;
     idt \<leftarrow> addirq 0x3 (addr breakpoint_fault) 0x8F idt;
     idt \<leftarrow> addirq 0x4 (addr overflow_fault) 0x8F idt;
     idt \<leftarrow> addirq 0x5 (addr bound_fault) 0x8F idt;
     idt \<leftarrow> addirq 0x6 (addr inv_opcode_fault) 0x8F idt;
     idt \<leftarrow> addirq 0x7 (addr no_device_fault) 0x8F idt;
     idt \<leftarrow> addirq 0x8 (addr double_fault) 0x8F idt;
     idt \<leftarrow> addirq 0xA (addr inv_tss_fault) 0x8F idt;
     idt \<leftarrow> addirq 0xB (addr no_segment_fault) 0x8F idt;
     idt \<leftarrow> addirq 0xC (addr stack_fault) 0x8F idt;
     idt \<leftarrow> addirq 0xD (addr gp_fault) 0x8F idt;
     addirq 0xE (addr page_fault) 0x8F idt
   }"

definition init_idt ::
  "device \<Rightarrow> (handler \<Rightarrow> u64) \<Rightarrow> u64 \<Rightarrow> idt_entry list \<Rightarrow> trace \<Rightarrow> (idt_entry list \<times> table_ptr \<times> trace) option" where
  "init_idt d addr idt_addr idt t =
     (case init_idt_gates addr idt of
        None \<Rightarrow> None
      | Some idt \<Rightarrow>
          let t = remappic d 0x20 0x28 t
          in Some (idt, \<lparr>tp_size = of_nat (16 * INTS - 1), tp_offset = idt_addr\<rparr>, t))"

subsection \<open>Handlers\<close>

definition ascii :: "string \<Rightarrow> u8 list" where
  "ascii s = map of_char s"

text \<open>The format each fault handler passes to \<^verbatim>\<open>error\<close>, and the arguments after it.\<close>

primrec message :: "handler \<Rightarrow> string" where
  "message general_fault = ''General fault RIP :[''"
| "message non_maskable_interrupt = ''Non-maskable interrupt :|''"
| "message div_0_fault = ''#DE Divide by 0 error :[''"
| "message debug_fault = ''#DB Debug fault :[''"
| "message breakpoint_fault = ''#BP Breakpoint fault :[''"
| "message overflow_fault = ''#OF Overflow fault :[''"
| "message bound_fault = ''#BR Bound range exceeded :[''"
| "message inv_opcode_fault = ''#UD Invalid opcode :[''"
| "message no_device_fault = ''#NM Device not found :[''"
| "message double_fault = ''#DF Double fault :[''"
| "message inv_tss_fault = ''#TS Invalid TSS :[ CODE: %X''"
| "message no_segment_fault = ''#NP Segment not present :[ CODE: %X''"
| "message stack_fault = ''#SS Stack segment fault :[ CODE: %X''"
| "message gp_fault = ''#GP General protection fault :[ CODE: %X''"
| "message page_fault = ''#PF Page fault :[ CODE: %X''"
| "message nop_master = []"
| "message nop_slave = []"
| "message pitirq = []"

definition arguments :: "handler \<Rightarrow> u64 \<Rightarrow> u64 list" where
  "arguments h code =
     (if h \<in> {inv_tss_fault, no_segment_fault, gp_fault, page_fault} then [code] else [])"

datatype outcome = Halts trace | Returns trace | Undefined c_error

text \<open>
  Running a handler: the faults report and then execute \<^verbatim>\<open>hlt\<close> forever, the two \<^verbatim>\<open>nop\<close> handlers
  acknowledge the interrupt. \<^term>\<open>fmt\<close> is where the handler's format is stored. The timer's handler
  \<^verbatim>\<open>pitirq\<close> is assembly.
\<close>

definition run_handler :: "handler \<Rightarrow> u64 \<Rightarrow> u64 \<Rightarrow> u64 \<Rightarrow> mem \<Rightarrow> trace \<Rightarrow> outcome option" where
  "run_handler h code fmt buf m t = (case h of
     nop_master \<Rightarrow> Some (Returns (piceoi False t))
   | nop_slave \<Rightarrow> Some (Returns (piceoi True t))
   | pitirq \<Rightarrow> None
   | _ \<Rightarrow> (case error_log buf m fmt (arguments h code) t of
       None \<Rightarrow> None
     | Some (Inl e) \<Rightarrow> Some (Undefined e)
     | Some (Inr (_, t)) \<Rightarrow> Some (Halts t)))"

section \<open>Timer\<close>

definition PIT_CHAN0 :: u16 where "PIT_CHAN0 = 0x40"
definition PIT_CMD :: u16 where "PIT_CMD = 0x43"
definition HZ :: u32 where "HZ = 1000"

definition init_timer ::
  "device \<Rightarrow> (handler \<Rightarrow> u64) \<Rightarrow> idt_entry list \<Rightarrow> trace \<Rightarrow> (idt_entry list \<times> trace) option" where
  "init_timer d addr idt t =
     (let dv = 1193180 div HZ;
          t = outb PIT_CMD 0x36 t;
          t = outb PIT_CHAN0 (ucast (dv AND 0xFF)) t;
          t = outb PIT_CHAN0 (ucast (drop_bit 8 dv)) t
      in case addirq 0x20 (addr pitirq) 0x8E idt of
           None \<Rightarrow> None
         | Some idt \<Rightarrow> (case unmaskirq d 0 t of None \<Rightarrow> None | Some t \<Rightarrow> Some (idt, t)))"

text \<open>\<^verbatim>\<open>sleep\<close> spins on the tick counter; \<^term>\<open>ticks_at i\<close> is what its \<open>i\<close>-th read sees.\<close>

partial_function (option) sleep_loop :: "(nat \<Rightarrow> u64) \<Rightarrow> u64 \<Rightarrow> nat \<Rightarrow> nat option" where
  "sleep_loop ticks_at exit i = (if ticks_at i < exit then sleep_loop ticks_at exit (Suc i) else Some i)"

definition sleep :: "(nat \<Rightarrow> u64) \<Rightarrow> u64 \<Rightarrow> nat option" where
  "sleep ticks_at ticks = (let exit = ticks_at 0 + ticks in sleep_loop ticks_at exit 1)"

section \<open>System call registers\<close>

definition EFER :: u32 where "EFER = 0xC0000080"
definition STAR :: u32 where "STAR = 0xC0000081"
definition LSTAR :: u32 where "LSTAR = 0xC0000082"
definition SFMASK :: u32 where "SFMASK = 0xC0000084"

definition init_syscall :: "device \<Rightarrow> u64 \<Rightarrow> trace \<Rightarrow> trace" where
  "init_syscall d sys_handler t =
     (let (efer, t) = rdmsr d EFER t;
          t = wrmsr EFER (efer OR 1) t;
          t = wrmsr SFMASK 0 t;
          t = wrmsr STAR 0x0018000800000000 t
      in wrmsr LSTAR sys_handler t)"

section \<open>Decoding descriptors\<close>

text \<open>How the processor reads a segment descriptor and an interrupt gate.\<close>

definition seg_base :: "gdt_entry \<Rightarrow> u32" where
  "seg_base e = ucast (g_base1 e) OR push_bit 16 (ucast (g_base2 e)) OR push_bit 24 (ucast (g_base3 e))"

definition seg_limit :: "gdt_entry \<Rightarrow> u32" where
  "seg_limit e = ucast (g_limit e) OR push_bit 16 (ucast (g_flags e AND 0xF))"

definition seg_long :: "gdt_entry \<Rightarrow> bool" where
  "seg_long e \<longleftrightarrow> bit (g_flags e) 5"

definition gate_offset :: "idt_entry \<Rightarrow> u64" where
  "gate_offset e = ucast (i_offset1 e) OR push_bit 16 (ucast (i_offset2 e)) OR push_bit 32 (ucast (i_offset3 e))"

definition gate :: "u64 \<Rightarrow> u8 \<Rightarrow> idt_entry" where
  "gate offset ty = \<lparr>i_offset1 = ucast (offset AND 0xFFFF), i_selector = 8, i_ist = 0, i_type = ty,
     i_offset2 = ucast (drop_bit 16 offset AND 0xFFFF),
     i_offset3 = ucast (drop_bit 32 offset AND 0xFFFFFFFF), i_resv = 0\<rparr>"

lemma low_masks:
  "(0xFF :: 'a::len word) = mask 8" "(0xF :: 'a word) = mask 4" "(0xFFFF :: 'a word) = mask 16"
  "(0xFFFFFFFF :: 'a word) = mask 32"
  by (simp_all add: mask_numeral)

lemmas bit_fields = bit_or_iff bit_and_iff bit_push_bit_iff bit_drop_bit_eq bit_ucast_iff bit_mask_iff

lemma gate_offset_gate [simp]: "gate_offset (gate offset ty) = offset"
proof (rule bit_word_eqI)
  fix n
  assume "n < LENGTH(64)"
  then consider "n < 16" | "16 \<le> n" "n < 32" | "32 \<le> n" "n < 64" by fastforce
  then show "bit (gate_offset (gate offset ty)) n = bit offset n"
    by cases (auto simp: gate_offset_def gate_def low_masks bit_fields)
qed

lemma addirq_gate:
  "addirq ent offset ty idt = (if unat ent < length idt then Some (idt[unat ent := gate offset ty]) else None)"
  by (simp add: addirq_def gate_def)

lemma addirqs_gates:
  "unat i + n \<le> length idt \<Longrightarrow> length idt \<le> 255 \<Longrightarrow>
     addirqs i n offset ty idt = Some (map (\<lambda>k. if unat i \<le> k \<and> k < unat i + n then gate offset ty else idt ! k) [0..<length idt])"
proof (induction n arbitrary: i idt)
  case 0
  have "map (\<lambda>k. if unat i \<le> k \<and> k < unat i + 0 then gate offset ty else idt ! k) [0..<length idt] =
      map ((!) idt) [0..<length idt]" by (rule map_cong) auto
  then show ?case by (simp only: map_nth addirqs.simps)
next
  case (Suc n)
  have i: "unat (i + 1) = Suc (unat i)"
    using Suc.prems by (simp add: unat_word_ariths)
  have "addirqs (i + 1) n offset ty (idt[unat i := gate offset ty]) =
      Some (map (\<lambda>k. if Suc (unat i) \<le> k \<and> k < Suc (unat i) + n then gate offset ty
        else idt[unat i := gate offset ty] ! k) [0..<length idt])"
    using Suc.IH [of "i + 1" "idt[unat i := gate offset ty]"] Suc.prems i by simp
  moreover have "map (\<lambda>k. if Suc (unat i) \<le> k \<and> k < Suc (unat i) + n then gate offset ty
        else idt[unat i := gate offset ty] ! k) [0..<length idt] =
      map (\<lambda>k. if unat i \<le> k \<and> k < unat i + Suc n then gate offset ty else idt ! k) [0..<length idt]"
    by (rule map_cong) (auto simp: nth_list_update)
  ultimately show ?case using Suc.prems by (simp add: addirq_gate)
qed

text \<open>The handler installed for each vector.\<close>

definition vector_handler :: "nat \<Rightarrow> handler" where
  "vector_handler v =
     (if v = 0 then div_0_fault else if v = 1 then debug_fault else if v = 2 then non_maskable_interrupt
      else if v = 3 then breakpoint_fault else if v = 4 then overflow_fault else if v = 5 then bound_fault
      else if v = 6 then inv_opcode_fault else if v = 7 then no_device_fault else if v = 8 then double_fault
      else if v = 10 then inv_tss_fault else if v = 11 then no_segment_fault else if v = 12 then stack_fault
      else if v = 13 then gp_fault else if v = 14 then page_fault else if v < 32 then general_fault
      else if v < 40 then nop_master else nop_slave)"

lemma init_idt_gates_eq:
  assumes "length idt = INTS"
  shows "\<exists>idt'. init_idt_gates addr idt = Some idt' \<and> length idt' = INTS \<and>
    (\<forall>v < INTS. idt' ! v = gate (addr (vector_handler v)) (if v < 32 then 0x8F else 0x8E))"
  using assms
  by (simp add: init_idt_gates_def addirqs_gates addirq_gate INTS_def)
    (auto simp: nth_list_update vector_handler_def)

section \<open>Properties\<close>

text \<open>
  C21: \<^verbatim>\<open>gdtadd\<close> writes the next descriptor of the table so that the processor reads back the given
  base, the size in pages, the access byte and the long-mode bit; it changes no other descriptor
  and, when the table is full, writes past its end.
\<close>

theorem gdtadd_encodes:
  assumes "unat (GDT_entry g) < length (GDT g)"
  shows "\<exists>g'. gdtadd base sz access longcode g = Some g' \<and> GDT_entry g' = GDT_entry g + 1 \<and>
    (let e = GDT g' ! unat (GDT_entry g) in seg_base e = base \<and> seg_limit e = drop_bit 12 sz \<and>
      g_access e = access \<and> (seg_long e \<longleftrightarrow> longcode)) \<and>
    (\<forall>i. i \<noteq> unat (GDT_entry g) \<longrightarrow> GDT g' ! i = GDT g ! i)"
proof -
  let ?f = "\<lambda>f :: u8. \<lparr>g_limit = ucast (drop_bit 12 sz AND 0xFFFF), g_base1 = ucast (base AND 0xFFFF),
              g_base2 = ucast (drop_bit 16 base AND 0xFF), g_access = access,
              g_flags = f, g_base3 = ucast (drop_bit 24 base AND 0xFF)\<rparr>"
  have b: "seg_base (?f f) = base" for f
  proof (rule bit_word_eqI)
    fix n
    assume "n < LENGTH(32)"
    then consider "n < 16" | "16 \<le> n" "n < 24" | "24 \<le> n" "n < 32" by fastforce
    then show "bit (seg_base (?f f)) n = bit base n"
      by cases (auto simp: seg_base_def low_masks bit_fields)
  qed
  have l: "seg_limit (?f (ucast (x OR (drop_bit 16 (drop_bit 12 sz) AND 0x0F)))) = drop_bit 12 sz"
    if x: "x = 0xA0 \<or> x = (0xC0 :: u32)" for x
  proof (rule bit_word_eqI)
    fix n
    assume "n < LENGTH(32)"
    then consider "n < 16" | "16 \<le> n" "n < 20" | "20 \<le> n" "n < 32" by fastforce
    moreover have "\<not> bit x k" if "k < 4" for k
      using x that by (auto simp: bit_numeral_rec numeral_eq_Suc less_Suc_eq)
    ultimately show "bit (seg_limit (?f (ucast (x OR (drop_bit 16 (drop_bit 12 sz) AND 0x0F))))) n = bit (drop_bit 12 sz) n"
      by cases (auto simp: seg_limit_def low_masks bit_fields dest: bit_imp_le_length)
  qed
  have f: "bit (ucast (x OR (drop_bit 16 (drop_bit 12 sz) AND 0x0F)) :: u8) 5 \<longleftrightarrow> bit x 5" for x :: u32
    by (simp add: low_masks bit_fields)
  have five: "bit (0xA0 :: u32) 5" "\<not> bit (0xC0 :: u32) 5" by (simp_all add: bit_numeral_rec)
  show ?thesis
    using assms b l [of "0xA0"] l [of "0xC0"] f five
    by (cases longcode) (simp_all add: gdtadd_def Let_def seg_long_def)
qed

definition gdt_zero :: gdt_state where
  "gdt_zero = \<lparr>GDT = replicate ENTRIES \<lparr>g_limit = 0, g_base1 = 0, g_base2 = 0, g_access = 0, g_flags = 0, g_base3 = 0\<rparr>,
     GDT_entry = 0\<rparr>"

theorem gdtadd_encodes_witness:
  "\<exists>g'. gdtadd 0x12345678 0xFFFFFFFF 0x9A True gdt_zero = Some g' \<and> seg_base (GDT g' ! 0) = 0x12345678"
  using gdtadd_encodes [of gdt_zero "0x12345678" "0xFFFFFFFF" "0x9A" True]
  by (auto simp: gdt_zero_def ENTRIES_def Let_def)

text \<open>
  C20: On a table of 48 gates \<^verbatim>\<open>init_idt\<close> succeeds and installs, for every vector, a present gate
  with kernel code selector 8 that leads to the handler for that vector: trap gates for the 32
  exceptions, interrupt gates for the 16 lines of the controllers, whose vectors it moves to
  0x20 and 0x28.
\<close>

theorem init_idt_installs:
  assumes "length idt = INTS" and "has_pics d" and "pics t = (m, s)" and "icw m = 0" and "icw s = 0"
  shows "\<exists>idt' t'. init_idt d addr idt_addr idt t = Some (idt', \<lparr>tp_size = 767, tp_offset = idt_addr\<rparr>, t') \<and>
    length idt' = INTS \<and>
    (\<forall>v. v < INTS \<longrightarrow> gate_offset (idt' ! v) = addr (vector_handler v) \<and> i_selector (idt' ! v) = 8 \<and>
      i_type (idt' ! v) = (if v < 32 then 0x8F else 0x8E)) \<and>
    pics t' = (m\<lparr>vector := 0x20\<rparr>, s\<lparr>vector := 0x28\<rparr>)"
proof -
  obtain idt' where "init_idt_gates addr idt = Some idt'" "length idt' = INTS"
    "\<forall>v < INTS. idt' ! v = gate (addr (vector_handler v)) (if v < 32 then 0x8F else 0x8E)"
    using init_idt_gates_eq [OF assms(1)] by blast
  moreover have "i_selector (gate o' ty) = 8" "i_type (gate o' ty) = ty" for o' ty
    by (simp_all add: gate_def)
  ultimately show ?thesis
    using remappic_state [OF assms(2-5)] by (simp add: init_idt_def INTS_def)
qed

definition idt_zero :: "idt_entry list" where
  "idt_zero = replicate INTS \<lparr>i_offset1 = 0, i_selector = 0, i_ist = 0, i_type = 0, i_offset2 = 0,
     i_offset3 = 0, i_resv = 0\<rparr>"

theorem init_idt_installs_witness:
  "\<exists>idt' t' p. init_idt pic_device (\<lambda>h. if h = page_fault then 0xABCDEF else 0) 0x5000 idt_zero [] = Some (idt', p, t') \<and>
    gate_offset (idt' ! 14) = 0xABCDEF"
  using init_idt_installs [OF _ has_pics_device, of idt_zero "[]" pic_start pic_start "\<lambda>h. if h = page_fault then 0xABCDEF else 0" "0x5000"]
  by (force simp: idt_zero_def pics_def pic_start_def INTS_def vector_handler_def)


lemma fault_text:
  assumes "h \<notin> {nop_master, nop_slave, pitirq}"
  shows "cstr (text_at 4096 (ascii (message h))) 4096 (ascii (message h))" "away 8 4096 (length (message h))"
proof -
  have "0 \<notin> set (ascii (message h))" "length (ascii (message h)) < 100" "length (message h) < 100"
    using assms by (cases h; simp add: ascii_def)+
  then show "cstr (text_at 4096 (ascii (message h))) 4096 (ascii (message h))" "away 8 4096 (length (message h))"
    by (simp_all add: text_at_cstr away_above)
qed


section \<open>Timer and system call registers\<close>

text \<open>
  After \<^verbatim>\<open>init_timer\<close> the timer line is unmasked and its vector 0x20 leads to \<^verbatim>\<open>pitirq\<close>, no other
  gate and no other line of the controllers has changed, and the divisor loaded low byte first is
  1193180 / 1000.
\<close>

theorem init_timer_starts:
  assumes "length idt = INTS" and "has_pics d" and "pics t = (m, s)" and "icw m = 0" and "icw s = 0"
  shows "\<exists>idt' t' lo hi. init_timer d addr idt t = Some (idt', t') \<and> idt' = idt[0x20 := gate (addr pitirq) 0x8E] \<and>
    take 3 (drop (length t) t') = [OutB 0x43 0x36, OutB 0x40 lo, OutB 0x40 hi] \<and>
    unat lo + 256 * unat hi = 1193 \<and> (\<forall>n. n < 16 \<longrightarrow> (masked t' n \<longleftrightarrow> n \<noteq> 0 \<and> masked t n))"
proof -
  let ?t = "t @ [OutB 0x43 0x36, OutB 0x40 0xA9, OutB 0x40 0x04]"
  have p: "pics ?t = pics t" by (simp add: pics_def pic_write_def pic_defs)
  then have mask: "masked ?t n = masked t n" for n by (simp add: masked_def)
  have ps: "pics ?t = (m, s)" using p assms(3) by simp
  have "\<exists>t'. unmaskirq d 0 ?t = Some t'" by (simp add: unmaskirq_def shifted_one_def port_defs)
  then obtain t' where t': "unmaskirq d 0 ?t = Some t'" by blast
  have "take 3 (drop (length t) t') = [OutB 0x43 0x36, OutB 0x40 0xA9, OutB 0x40 0x04]"
    using t' by (auto simp: unmaskirq_def shifted_one_def port_defs)
  moreover have "masked t' n \<longleftrightarrow> n \<noteq> 0 \<and> masked t n" if "n < 16" for n
    using irq_masks_state [OF assms(2) ps assms(4,5), of 0 n] that t' mask by auto
  moreover have "init_timer d addr idt t = Some (idt[0x20 := gate (addr pitirq) 0x8E], t')"
    using t' assms(1) by (simp add: init_timer_def HZ_def port_defs addirq_gate INTS_def PIT_CHAN0_def PIT_CMD_def)
  ultimately show ?thesis by (intro exI conjI) (assumption | simp)+
qed

theorem init_timer_starts_witness:
  "\<exists>idt' t'. init_timer pic_device (\<lambda>_. 0x7000) idt_zero [OutB PIC1_DAT 255] = Some (idt', t') \<and>
    \<not> masked t' 0 \<and> gate_offset (idt' ! 0x20) = 0x7000"
  using init_timer_starts [OF _ has_pics_device, of idt_zero "[OutB PIC1_DAT 255]" "pic_start\<lparr>imr := 255\<rparr>" pic_start "\<lambda>_. 0x7000"]
  by (auto simp: idt_zero_def pics_def pic_write_def pic_defs pic_start_def INTS_def)

lemma sleep_loop_ends:
  "i \<le> n \<Longrightarrow> exit \<le> ticks_at n \<Longrightarrow>
     \<exists>k. sleep_loop ticks_at exit i = Some k \<and> i \<le> k \<and> k \<le> n \<and> exit \<le> ticks_at k \<and> (\<forall>j. i \<le> j \<and> j < k \<longrightarrow> ticks_at j < exit)"
proof (induction "n - i" arbitrary: i)
  case 0
  then show ?case by (subst sleep_loop.simps) auto
next
  case (Suc d)
  show ?case
  proof (cases "ticks_at i < exit")
    case True
    with Suc.prems have "i \<noteq> n" by auto
    then have "d = n - Suc i" "Suc i \<le> n" using Suc.hyps(2) Suc.prems(1) by auto
    then obtain k where "sleep_loop ticks_at exit (Suc i) = Some k" "Suc i \<le> k" "k \<le> n" "exit \<le> ticks_at k"
      "\<forall>j. Suc i \<le> j \<and> j < k \<longrightarrow> ticks_at j < exit"
      using Suc.hyps(1) [of "Suc i"] Suc.prems(2) by blast
    with True show ?thesis
      by (subst sleep_loop.simps) (auto simp: le_less [of i])
  next
    case False
    with Suc.prems(1) show ?thesis by (subst sleep_loop.simps) (auto simp: not_less)
  qed
qed

text \<open>
  C23: When the tick counter is seen to reach the wake-up time, \<^verbatim>\<open>sleep\<close> returns, at the first read
  that has reached it; when adding the ticks to the counter wraps around, it may return at once.
\<close>

theorem sleep_wakes:
  assumes "ticks_at 0 + ticks \<le> ticks_at n" and "0 < n"
  shows "\<exists>k. sleep ticks_at ticks = Some k \<and> 1 \<le> k \<and> k \<le> n \<and> ticks_at 0 + ticks \<le> ticks_at k \<and>
    (\<forall>j. 1 \<le> j \<and> j < k \<longrightarrow> ticks_at j < ticks_at 0 + ticks)"
  using sleep_loop_ends [of 1 n] assms by (simp add: sleep_def)

theorem sleep_wakes_witness: "\<exists>k. sleep (\<lambda>i. of_nat i) 5 = Some k"
  using sleep_wakes [of "\<lambda>i. of_nat i" 5 5] by auto

text \<open>
  The descriptor table that \<^verbatim>\<open>init_gdt\<close> builds and the selectors that \<^verbatim>\<open>init_syscall\<close> puts into
  the STAR register agree: \<^verbatim>\<open>syscall\<close> enters the kernel with selector 8, a ring 0 long-mode code
  segment followed by a ring 0 data segment, and \<^verbatim>\<open>sysret\<close> leaves with the ring 3 data and
  long-mode code segments.
\<close>

theorem syscall_selectors_match_gdt:
  "\<exists>g p star pre. init_gdt gdt_addr gdt_zero = Some (g, p) \<and>
    init_syscall d h t = pre @ [WrMsr STAR star, WrMsr LSTAR h] \<and>
    (let sel = unat (drop_bit 32 star AND 0xFFFF); ret = unat (drop_bit 48 star) in
      sel = 8 \<and> g_access (GDT g ! (sel div 8)) = 0x9A \<and> seg_long (GDT g ! (sel div 8)) \<and>
      g_access (GDT g ! ((sel + 8) div 8)) = 0x92 \<and>
      g_access (GDT g ! ((ret + 8) div 8)) = 0xF2 \<and>
      g_access (GDT g ! ((ret + 16) div 8)) = 0xFA \<and> seg_long (GDT g ! ((ret + 16) div 8)))"
proof -
  have eight: "replicate 8 x = [x, x, x, x, x, x, x, x]" for x :: gdt_entry by (simp add: numeral_eq_Suc)
  show ?thesis
    by (simp add: init_gdt_def gdtadd_def gdt_zero_def ENTRIES_def init_syscall_def port_defs eight
        seg_long_def bit_numeral_rec)
qed

end
