(* ===== verification/Gfx.thy ===== *)
theory Gfx
  imports Prelude
begin

text \<open>
  The drawing routines of \<^verbatim>\<open>libs/libgfx\<close>. The frame buffer is only accessed through \<^verbatim>\<open>pixel_t *\<close>
  pointers into it, so it is modelled as a function from pixel offsets (pointer differences from
  \<^verbatim>\<open>fb_addr\<close>, 64-bit) to pixels. Coordinates, and with them the product \<^verbatim>\<open>y * fb_pixperline\<close>, are
  32-bit and wrap.
\<close>

section \<open>Operations\<close>

type_synonym pixel_t = u32
type_synonym pixels = "u64 \<Rightarrow> pixel_t"

record framebuffer =
  fb_w :: u32
  fb_h :: u32
  fb_pixperline :: u32

definition pixel_at :: "framebuffer \<Rightarrow> u32 \<Rightarrow> u32 \<Rightarrow> u64" where
  "pixel_at fb x y = ucast x + ucast (y * fb_pixperline fb)"

definition plotpixel :: "framebuffer \<Rightarrow> u32 \<Rightarrow> u32 \<Rightarrow> pixel_t \<Rightarrow> pixels \<Rightarrow> pixels" where
  "plotpixel fb x y colour p = p(pixel_at fb x y := colour)"

primrec fill_row :: "nat \<Rightarrow> u64 \<Rightarrow> pixel_t \<Rightarrow> pixels \<Rightarrow> pixels" where
  "fill_row 0 loc colour p = p"
| "fill_row (Suc n) loc colour p = fill_row n (loc + 1) colour (p(loc := colour))"

primrec fill_rows :: "nat \<Rightarrow> framebuffer \<Rightarrow> u64 \<Rightarrow> u32 \<Rightarrow> pixel_t \<Rightarrow> pixels \<Rightarrow> pixels" where
  "fill_rows 0 fb loc w colour p = p"
| "fill_rows (Suc n) fb loc w colour p =
     fill_rows n fb (loc + ucast (fb_pixperline fb)) w colour (fill_row (unat w) loc colour p)"

text \<open>The loop counters of \<^verbatim>\<open>fillrect\<close> are \<^verbatim>\<open>int\<close>: sizes from \<open>2 ^ 31\<close> on overflow them (\<^term>\<open>None\<close>).\<close>

definition fillrect ::
  "framebuffer \<Rightarrow> u32 \<Rightarrow> u32 \<Rightarrow> u32 \<Rightarrow> u32 \<Rightarrow> pixel_t \<Rightarrow> pixels \<Rightarrow> pixels option" where
  "fillrect fb x y w h colour p =
     (if unat h < 2 ^ 31 \<and> (unat w < 2 ^ 31 \<or> h = 0)
      then Some (fill_rows (unat h) fb (pixel_at fb x y) w colour p) else None)"

primrec copy_row :: "nat \<Rightarrow> pixels \<Rightarrow> u64 \<Rightarrow> u64 \<Rightarrow> pixels \<Rightarrow> pixels" where
  "copy_row 0 img src ptr p = p"
| "copy_row (Suc n) img src ptr p = copy_row n img (src + 1) (ptr + 1) (p(ptr := img src))"

text \<open>After a row the target pointer has moved by \<^verbatim>\<open>w\<close> and skips \<^verbatim>\<open>fb_w - w\<close> more (32-bit).\<close>

primrec copy_rows :: "nat \<Rightarrow> framebuffer \<Rightarrow> u32 \<Rightarrow> pixels \<Rightarrow> u64 \<Rightarrow> u64 \<Rightarrow> pixels \<Rightarrow> pixels" where
  "copy_rows 0 fb w img src ptr p = p"
| "copy_rows (Suc n) fb w img src ptr p =
     copy_rows n fb w img (src + ucast w) (ptr + ucast w + ucast (fb_w fb - w))
       (copy_row (unat w) img src ptr p)"

text \<open>\<^term>\<open>img\<close> is what the source pointer can read, by pixel offset from it.\<close>

definition plotimg ::
  "framebuffer \<Rightarrow> pixels \<Rightarrow> u32 \<Rightarrow> u32 \<Rightarrow> u32 \<Rightarrow> u32 \<Rightarrow> pixels \<Rightarrow> pixels" where
  "plotimg fb img x y w h p =
     copy_rows (unat h) fb w img 0 (ucast (y * fb_pixperline fb) + ucast x) p"

section \<open>Rows\<close>

lemma word_inc_diff:
  fixes a b :: u64
  assumes "a \<noteq> b"
  shows "unat (a - b) = Suc (unat (a - (b + 1)))"
proof -
  have "a - b \<noteq> 0" using assms by simp
  then have "unat (a - b) = Suc (unat (a - b - 1))"
    by (simp add: unat_minus_one unat_eq_0 Suc_pred' unat_gt_0)
  then show ?thesis by (simp add: diff_diff_eq)
qed

lemma fill_row_apply:
  "n < 2 ^ 64 \<Longrightarrow> fill_row n loc colour p a = (if unat (a - loc) < n then colour else p a)"
proof (induction n arbitrary: loc p)
  case (Suc n)
  show ?case
  proof (cases "a = loc")
    case True
    have "unat (loc - (loc + 1)) = 2 ^ 64 - 1" by (simp add: diff_diff_eq [symmetric])
    with True Suc show ?thesis by simp
  next
    case False
    with Suc word_inc_diff [OF False] show ?thesis by simp
  qed
qed simp

lemma copy_row_apply:
  "n < 2 ^ 64 \<Longrightarrow> copy_row n img src ptr p a = (if unat (a - ptr) < n then img (src + (a - ptr)) else p a)"
proof (induction n arbitrary: src ptr p)
  case (Suc n)
  show ?case
  proof (cases "a = ptr")
    case True
    have "unat (ptr - (ptr + 1)) = 2 ^ 64 - 1" by (simp add: diff_diff_eq [symmetric])
    with True Suc show ?thesis by simp
  next
    case False
    with Suc word_inc_diff [OF False] show ?thesis by (simp add: algebra_simps)
  qed
qed simp

text \<open>A pixel of the screen by its coordinates; the screen has fewer than \<open>2 ^ 32\<close> pixels.\<close>

definition on_screen :: "framebuffer \<Rightarrow> nat \<Rightarrow> nat \<Rightarrow> bool" where
  "on_screen fb px py \<longleftrightarrow> px < unat (fb_pixperline fb) \<and> (py + 1) * unat (fb_pixperline fb) \<le> 2 ^ 32"

definition scr :: "framebuffer \<Rightarrow> nat \<Rightarrow> nat \<Rightarrow> u64" where
  "scr fb px py = of_nat (px + py * unat (fb_pixperline fb))"


lemma of_nat_range:
  assumes "L + W < 2 ^ 64" and "N < 2 ^ 64"
  shows "unat (of_nat N - of_nat L :: u64) < W \<longleftrightarrow> L \<le> N \<and> N < L + W"
  using in_range_iff [of "of_nat L" W "of_nat N"] assms by simp

lemma row_of_pixel:
  fixes P :: nat
  assumes "px < P" and "x + w \<le> P"
  shows "(x + (y + i) * P \<le> px + py * P \<and> px + py * P < x + (y + i) * P + w) \<longleftrightarrow>
    py = y + i \<and> x \<le> px \<and> px < x + w"
proof
  assume r: "x + (y + i) * P \<le> px + py * P \<and> px + py * P < x + (y + i) * P + w"
  have "py = y + i"
  proof (rule ccontr)
    assume "py \<noteq> y + i"
    then consider "py + 1 \<le> y + i" | "y + i + 1 \<le> py" by linarith
    then show False
    proof cases
      case 1
      then have "(py + 1) * P \<le> (y + i) * P" by (rule mult_right_mono) simp
      with r assms show False by simp
    next
      case 2
      then have "(y + i + 1) * P \<le> py * P" by (rule mult_right_mono) simp
      with r assms show False by simp
    qed
  qed
  with r show "py = y + i \<and> x \<le> px \<and> px < x + w" by simp
qed auto

lemma fill_rows_apply:
  "L + n * unat (fb_pixperline fb) + unat w < 2 ^ 64 \<Longrightarrow> N < 2 ^ 64 \<Longrightarrow>
     fill_rows n fb (of_nat L) w colour p (of_nat N) =
       (if \<exists>i < n. L + i * unat (fb_pixperline fb) \<le> N \<and> N < L + i * unat (fb_pixperline fb) + unat w
        then colour else p (of_nat N))"
proof (induction n arbitrary: L p)
  case (Suc n)
  let ?P = "unat (fb_pixperline fb)"
  have step: "of_nat L + ucast (fb_pixperline fb) = (of_nat (L + ?P) :: u64)" by simp
  have IH: "fill_rows n fb (of_nat (L + ?P)) w colour q (of_nat N) =
      (if \<exists>i < n. L + ?P + i * ?P \<le> N \<and> N < L + ?P + i * ?P + unat w then colour else q (of_nat N))" for q
    by (rule Suc.IH) (use Suc.prems in \<open>simp_all add: add.assoc\<close>)
  have "fill_row (unat w) (of_nat L) colour p (of_nat N) = (if L \<le> N \<and> N < L + unat w then colour else p (of_nat N))"
    using Suc.prems fill_row_apply [of "unat w" "of_nat L" colour p "of_nat N"] of_nat_range [of L "unat w" N] by simp
  moreover have "(\<exists>i < Suc n. L + i * ?P \<le> N \<and> N < L + i * ?P + unat w) \<longleftrightarrow>
      (L \<le> N \<and> N < L + unat w) \<or> (\<exists>i < n. L + ?P + i * ?P \<le> N \<and> N < L + ?P + i * ?P + unat w)"
    unfolding Ex_less_Suc2 by (simp add: add.assoc)
  ultimately show ?case unfolding fill_rows.simps step IH by auto
qed simp

lemma pixel_at_nat:
  assumes "unat y * unat (fb_pixperline fb) < 2 ^ 32"
  shows "pixel_at fb x y = of_nat (unat x + unat y * unat (fb_pixperline fb))"
proof -
  have "unat (y * fb_pixperline fb) = unat y * unat (fb_pixperline fb)"
    using assms by (simp add: unat_word_ariths)
  moreover have "(ucast (v :: u32) :: u64) = of_nat (unat v)" for v
    by simp
  ultimately show ?thesis unfolding pixel_at_def by (metis of_nat_add)
qed

section \<open>Properties\<close>

text \<open>
  For a rectangle inside a screen of fewer than \<open>2 ^ 32\<close> pixels \<^verbatim>\<open>fillrect\<close> gives exactly the
  pixels of the rectangle the colour; every other pixel of the screen keeps its value.
\<close>

theorem fillrect_fills:
  assumes "unat x + unat w \<le> unat (fb_pixperline fb)" and "(unat y + unat h) * unat (fb_pixperline fb) < 2 ^ 32"
    and "unat w < 2 ^ 31" and "unat h < 2 ^ 31" and "on_screen fb px py"
  shows "\<exists>q. fillrect fb x y w h colour p = Some q \<and>
    q (scr fb px py) = (if unat x \<le> px \<and> px < unat x + unat w \<and> unat y \<le> py \<and> py < unat y + unat h
      then colour else p (scr fb px py))"
proof -
  let ?P = "unat (fb_pixperline fb)" and ?L = "unat x + unat y * unat (fb_pixperline fb)"
  have yP: "unat y * ?P + unat h * ?P < 2 ^ 32" using assms(2) by (simp add: distrib_right)
  have P: "?P < 2 ^ 32" using unsigned_less [of "fb_pixperline fb"] by simp
  have L: "?L + unat h * ?P + unat w < 2 ^ 64" using yP P assms(1) by simp
  have N: "px + py * ?P < 2 ^ 64" using assms(5) by (simp add: on_screen_def)
  have "(\<exists>i < unat h. ?L + i * ?P \<le> px + py * ?P \<and> px + py * ?P < ?L + i * ?P + unat w) \<longleftrightarrow>
      (\<exists>i < unat h. py = unat y + i \<and> unat x \<le> px \<and> px < unat x + unat w)"
    using row_of_pixel [of px ?P "unat x" "unat w" "unat y"] assms(1,5)
    by (simp add: on_screen_def distrib_right add.assoc)
  also have "\<dots> \<longleftrightarrow> unat x \<le> px \<and> px < unat x + unat w \<and> unat y \<le> py \<and> py < unat y + unat h"
    by (auto intro: exI [of _ "py - unat y"])
  finally show ?thesis
    using assms(3,4) fill_rows_apply [OF L N, of colour p] pixel_at_nat [of y fb x] yP
    by (simp add: fillrect_def scr_def)
qed

theorem fillrect_fills_witness:
  "\<exists>q. fillrect \<lparr>fb_w = 8, fb_h = 4, fb_pixperline = 10\<rparr> 2 1 3 2 7 (\<lambda>_. 0) = Some q \<and>
    q (scr \<lparr>fb_w = 8, fb_h = 4, fb_pixperline = 10\<rparr> 4 2) = 7"
  using fillrect_fills [of 2 3 "\<lparr>fb_w = 8, fb_h = 4, fb_pixperline = 10\<rparr>" 1 2 4 2 7 "\<lambda>_. 0"]
  by (auto simp: on_screen_def)

section \<open>Drawing pixel by pixel\<close>

text \<open>The reference: \<^verbatim>\<open>plotpixel\<close> called for a list of coordinates and colours.\<close>

definition plot_all :: "framebuffer \<Rightarrow> (u32 \<times> u32 \<times> pixel_t) list \<Rightarrow> pixels \<Rightarrow> pixels" where
  "plot_all fb = fold (\<lambda>(x, y, c). plotpixel fb x y c)"

text \<open>The pixels of a rectangle, row by row.\<close>

definition rect_pixels :: "u32 \<Rightarrow> u32 \<Rightarrow> nat \<Rightarrow> nat \<Rightarrow> (nat \<Rightarrow> nat \<Rightarrow> pixel_t) \<Rightarrow> (u32 \<times> u32 \<times> pixel_t) list" where
  "rect_pixels x y w h c = concat (map (\<lambda>i. map (\<lambda>j. (x + of_nat j, y + of_nat i, c i j)) [0..<w]) [0..<h])"

text \<open>A row written through a moving pointer is a row of single writes.\<close>

lemma copy_row_fold:
  "copy_row n img src ptr p = fold (\<lambda>j q. q(ptr + of_nat j := img (src + of_nat j))) [0..<n] p"
proof (induction n arbitrary: src ptr p)
  case (Suc n)
  have "fold (\<lambda>j q. q(ptr + of_nat j := img (src + of_nat j))) [0..<Suc n] p =
      fold (\<lambda>j q. q(ptr + of_nat (Suc j) := img (src + of_nat (Suc j)))) [0..<n] (p(ptr := img src))"
    by (simp add: upt_conv_Cons map_Suc_upt [symmetric] fold_map comp_def del: upt_Suc of_nat_Suc)
  then show ?case unfolding copy_row.simps Suc.IH by (simp add: add.assoc del: upt_Suc fun_upd_apply)
qed simp

lemma fill_row_copy: "fill_row n loc colour p = copy_row n (\<lambda>_. colour) src loc p"
  by (induction n arbitrary: loc src p) simp_all

text \<open>Rows whose starts are \<^term>\<open>line\<close> pixels apart.\<close>

primrec draw_rows :: "nat \<Rightarrow> u64 \<Rightarrow> nat \<Rightarrow> u64 \<Rightarrow> (nat \<Rightarrow> nat \<Rightarrow> pixel_t) \<Rightarrow> pixels \<Rightarrow> pixels" where
  "draw_rows 0 line w loc c p = p"
| "draw_rows (Suc n) line w loc c p =
     draw_rows n line w (loc + line) (\<lambda>i. c (Suc i)) (fold (\<lambda>j q. q(loc + of_nat j := c 0 j)) [0..<w] p)"

lemma fill_rows_draw:
  "fill_rows n fb loc w colour p = draw_rows n (ucast (fb_pixperline fb)) (unat w) loc (\<lambda>_ _. colour) p"
  by (induction n arbitrary: loc p) (simp_all add: fill_row_copy [where src = 0] copy_row_fold)

lemma copy_rows_draw:
  assumes "w \<le> fb_w fb"
  shows "copy_rows n fb w img src ptr p =
    draw_rows n (ucast (fb_w fb)) (unat w) ptr (\<lambda>i j. img (src + of_nat (i * unat w + j))) p"
proof (induction n arbitrary: src ptr p)
  case (Suc n)
  have "ucast w + ucast (fb_w fb - w) = (ucast (fb_w fb) :: u64)"
  proof -
    have "unat w + unat (fb_w fb - w) = unat (fb_w fb)" using assms by (simp add: unat_sub word_le_nat_alt)
    then have "(of_nat (unat w) + of_nat (unat (fb_w fb - w)) :: u64) = of_nat (unat (fb_w fb))" by (metis of_nat_add)
    then show ?thesis by simp
  qed
  then show ?case by (simp add: Suc.IH copy_row_fold add.assoc distrib_right)
qed simp

lemma draw_rows_plot:
  assumes "\<And>i j. i < n \<Longrightarrow> j < w \<Longrightarrow> pixel_at fb (x + of_nat j) (y + of_nat (k + i)) = loc + of_nat i * line + of_nat j"
  shows "draw_rows n line w loc c p =
    plot_all fb (concat (map (\<lambda>i. map (\<lambda>j. (x + of_nat j, y + of_nat (k + i), c i j)) [0..<w]) [0..<n])) p"
  using assms
proof (induction n arbitrary: loc c p k)
  case 0
  then show ?case by (simp add: plot_all_def)
next
  case (Suc n)
  have step: "pixel_at fb (x + of_nat j) (y + of_nat (Suc k + i)) = loc + line + of_nat i * line + of_nat j"
    if "i < n" "j < w" for i j
    using Suc.prems [of "Suc i" j] that by (simp add: algebra_simps)
  have row: "fold (\<lambda>j q. q(loc + of_nat j := c 0 j)) [0..<w] p =
      plot_all fb (map (\<lambda>j. (x + of_nat j, y + of_nat k, c 0 j)) [0..<w]) p"
    unfolding plot_all_def fold_map comp_def
    using Suc.prems [of 0] by (intro fold_cong) (auto simp: plotpixel_def)
  have split: "concat (map f [0..<Suc n]) = f 0 @ concat (map (\<lambda>i. f (Suc i)) [0..<n])" for f :: "nat \<Rightarrow> (u32 \<times> u32 \<times> pixel_t) list"
    by (simp add: upt_conv_Cons map_Suc_upt [symmetric] comp_def del: upt_Suc)
  show ?case
    unfolding split draw_rows.simps row
    using Suc.IH [of "Suc k" "loc + line" "\<lambda>i. c (Suc i)", OF step] by (simp add: plot_all_def)
qed

lemma pixel_at_step:
  assumes "unat x + w \<le> 2 ^ 32" and "(unat y + h) * unat (fb_pixperline fb) \<le> 2 ^ 32" and "i < h" and "j < w"
    and "0 < unat (fb_pixperline fb)"
  shows "pixel_at fb (x + of_nat j) (y + of_nat i) = pixel_at fb x y + of_nat i * ucast (fb_pixperline fb) + of_nat j"
proof -
  let ?P = "unat (fb_pixperline fb)"
  have x: "unat (x + of_nat j) = unat x + j" using assms(1,4) by (simp add: unat_word_ariths unat_of_nat)
  have "(unat y + i + 1) * ?P \<le> (unat y + h) * ?P" using assms(3) by (intro mult_right_mono) simp_all
  then have le: "(unat y + i) * ?P + ?P \<le> 2 ^ 32" using assms(2) by simp
  then have b: "(unat y + i) * ?P < 2 ^ 32" using assms(5) by linarith
  have "unat y + i \<le> (unat y + i) * ?P" using assms(5) by simp
  then have "unat y + i < 2 ^ 32" using b by linarith
  then have y: "unat (y + of_nat i) = unat y + i" by (simp add: unat_word_ariths unat_of_nat)
  have "unat y * ?P < 2 ^ 32" using b by (simp add: distrib_right)
  then show ?thesis using b by (simp add: pixel_at_nat x y distrib_right)
qed

text \<open>
  C35: \<^verbatim>\<open>fillrect\<close> is equivalent to plotting every pixel of the rectangle with \<^verbatim>\<open>plotpixel\<close>: on a screen
  of at most \<open>2 ^ 32\<close> pixels both leave the same frame buffer, also when the rectangle runs over the
  right edge.
\<close>

theorem fillrect_plots:
  assumes "unat x + unat w \<le> 2 ^ 32" and "(unat y + unat h) * unat (fb_pixperline fb) \<le> 2 ^ 32"
    and "0 < unat (fb_pixperline fb)" and "unat w < 2 ^ 31" and "unat h < 2 ^ 31"
  shows "fillrect fb x y w h colour p =
    Some (plot_all fb (rect_pixels x y (unat w) (unat h) (\<lambda>_ _. colour)) p)"
  using draw_rows_plot [of "unat h" "unat w" fb x y 0 "pixel_at fb x y" "ucast (fb_pixperline fb)"]
    pixel_at_step [OF assms(1,2) _ _ assms(3)] assms(4,5)
  by (simp add: fillrect_def fill_rows_draw rect_pixels_def)

theorem fillrect_plots_witness:
  "fillrect \<lparr>fb_w = 8, fb_h = 4, fb_pixperline = 10\<rparr> 2 1 2 1 7 (\<lambda>_. 0) = Some ((\<lambda>_. 0)(12 := 7, 13 := 7))"
  using fillrect_plots [of 2 2 1 1 "\<lparr>fb_w = 8, fb_h = 4, fb_pixperline = 10\<rparr>" 7 "\<lambda>_. 0"]
  by (simp add: rect_pixels_def plot_all_def plotpixel_def pixel_at_def upt_conv_Cons)

text \<open>
  C36: Where lines are not padded, \<^verbatim>\<open>plotimg\<close> is equivalent to plotting the image's pixels, row by row,
  with \<^verbatim>\<open>plotpixel\<close> at their places relative to \<^verbatim>\<open>(x, y)\<close>.
\<close>

theorem plotimg_plots:
  assumes "fb_pixperline fb = fb_w fb" and "w \<le> fb_w fb" and "unat x + unat w \<le> 2 ^ 32"
    and "(unat y + unat h) * unat (fb_w fb) \<le> 2 ^ 32" and "0 < unat (fb_w fb)"
  shows "plotimg fb img x y w h p =
    plot_all fb (rect_pixels x y (unat w) (unat h) (\<lambda>i j. img (of_nat (i * unat w + j)))) p"
  using draw_rows_plot [of "unat h" "unat w" fb x y 0 "pixel_at fb x y" "ucast (fb_w fb)"]
    pixel_at_step [of x "unat w" y "unat h" fb] assms
  by (simp add: plotimg_def copy_rows_draw rect_pixels_def pixel_at_def add.commute)

theorem plotimg_plots_witness:
  "plotimg \<lparr>fb_w = 10, fb_h = 4, fb_pixperline = 10\<rparr> ucast 2 1 1 2 (\<lambda>_. 9) = (\<lambda>_. 9)(12 := 0, 22 := 1)"
  using plotimg_plots [of "\<lparr>fb_w = 10, fb_h = 4, fb_pixperline = 10\<rparr>" 1 2 1 2 ucast "\<lambda>_. 9"]
  by (simp add: rect_pixels_def plot_all_def plotpixel_def pixel_at_def upt_conv_Cons)

end
