(* ===== verification/KInit.thy ===== *)
theory KInit
  imports KernelInit FileTypes Cpu Gfx
begin

text \<open>
  The kernel's entry function \<^verbatim>\<open>init\<close> (\<^verbatim>\<open>kernel/arch/x86_64/init.c\<close>): the modelled components in the
  order in which it starts them, followed by its self test of the heap, the log and the screen. It
  ends in an empty endless loop; the result is the state there.
\<close>

section \<open>State and operations\<close>

text \<open>\<^term>\<open>k_mem\<close> is byte memory as the kernel's pointers see it.\<close>

record kern =
  k_globals :: globals
  k_gdt :: gdt_state
  k_idt :: "idt_entry list"
  k_heap :: kstate
  k_mem :: mem
  k_trace :: trace
  k_pixels :: pixels

text \<open>What the linker and the compiler place: the string literals, the tables and the buffer of \<^verbatim>\<open>debug_log\<close>.\<close>

record placed =
  lit_globals :: u64
  lit_desc :: u64
  lit_num :: u64
  lit_addr :: u64
  lit_addr2 :: u64
  at_gdt :: u64
  at_idt :: u64
  at_handler :: "handler \<Rightarrow> u64"
  at_buf :: u64

definition klog :: "placed \<Rightarrow> u64 \<Rightarrow> u64 list \<Rightarrow> kern \<Rightarrow> kern option" where
  "klog pl lit args k =
     (case debug_log (at_buf pl) (k_mem k) lit args (k_trace k) of
        Some (Inr (m, t)) \<Rightarrow> Some (k\<lparr>k_mem := m, k_trace := t\<rparr>)
      | _ \<Rightarrow> None)"

text \<open>The loop over the free map, an array of addresses and page counts, from entry \<^term>\<open>i\<close> on.\<close>

primrec log_freemap :: "nat \<Rightarrow> u64 \<Rightarrow> placed \<Rightarrow> kern \<Rightarrow> kern option" where
  "log_freemap 0 i pl k = Some k"
| "log_freemap (Suc n) i pl k =
     (let a = freemap_addr (k_globals k) + 16 * i in
      case klog pl (lit_desc pl) [i, load64 (k_mem k) a, load64 (k_mem k) (a + 8)] k of
        None \<Rightarrow> None
      | Some k \<Rightarrow> log_freemap n (i + 1) pl k)"

text \<open>\<^verbatim>\<open>for (int i = 0; i < 40000; ++i) addr[i] = i;\<close> and the loop that prints the array.\<close>

primrec store_numbers :: "nat \<Rightarrow> u32 \<Rightarrow> u64 \<Rightarrow> mem \<Rightarrow> mem" where
  "store_numbers 0 i a m = m"
| "store_numbers (Suc n) i a m = store_numbers n (i + 1) a (store_le m (a + 4 * ucast i) 4 i)"

primrec log_numbers :: "nat \<Rightarrow> u32 \<Rightarrow> u64 \<Rightarrow> placed \<Rightarrow> kern \<Rightarrow> kern option" where
  "log_numbers 0 i a pl k = Some k"
| "log_numbers (Suc n) i a pl k =
     (case klog pl (lit_num pl) [ucast (load_le (k_mem k) (a + 4 * ucast i) 4 :: u32)] k of
        None \<Rightarrow> None
      | Some k \<Rightarrow> log_numbers n (i + 1) a pl k)"

definition screen :: "globals \<Rightarrow> framebuffer" where
  "screen g = \<lparr>fb_w = fb_width g, fb_h = fb_height g, fb_pixperline = fb_line g\<rparr>"

text \<open>
  \<^verbatim>\<open>for (int i = 0; i <= fb_h; ++i) fillrect(0, 0, i, i, 0x006040);\<close> with the overflow of \<^verbatim>\<open>++i\<close> as
  \<^term>\<open>None\<close>.
\<close>

primrec draw_squares :: "nat \<Rightarrow> u32 \<Rightarrow> framebuffer \<Rightarrow> pixels \<Rightarrow> pixels option" where
  "draw_squares 0 i fb p = Some p"
| "draw_squares (Suc n) i fb p =
     (case fillrect fb 0 0 i i 0x006040 p of None \<Rightarrow> None
      | Some p \<Rightarrow> if i = 0x7FFFFFFF then None else draw_squares n (i + 1) fb p)"

definition TEST_INTS :: nat where "TEST_INTS = 40000"

text \<open>
  \<^term>\<open>shown\<close> is what the kernel's pointers see once the new page tables are loaded. The interrupt
  handlers that may run after \<^verbatim>\<open>sti\<close> are not interleaved.
\<close>

definition init :: "device \<Rightarrow> placed \<Rightarrow> mem \<Rightarrow> bootinfo_t \<Rightarrow> kern \<Rightarrow> kern option" where
  "init d pl shown bootinfo k = do {
     let g = init_globals bootinfo;
     let k = k\<lparr>k_globals := g\<rparr>;
     k \<leftarrow> klog pl (lit_globals pl)
       [memmap_addr g, mm_descs_g g, freemap_addr g, fm_descs_g g, kernel_paddr g, kernel_vaddr g, kernel_size g,
        pmem_bmap_addr g, memory_pages g, fb_addr g, fb_size g, ucast (fb_width g), ucast (fb_height g), ucast (fb_line g)] k;
     k \<leftarrow> log_freemap (unat (fm_descs_g g)) 0 pl k;
     (gdt, gdtp) \<leftarrow> init_gdt (at_gdt pl) (k_gdt k);
     (g, s, cr3) \<leftarrow> init_memory (k_globals k) (k_heap k);
     (idt, idtp, t) \<leftarrow> init_idt d (at_handler pl) (at_idt pl) (k_idt k) (k_trace k);
     (idt, t) \<leftarrow> init_timer d (at_handler pl) idt t;
     (addr, s) \<leftarrow> malloc (4 * of_nat TEST_INTS) s;
     let k = k\<lparr>k_globals := g, k_gdt := gdt, k_idt := idt, k_trace := t,
        k_mem := store_numbers TEST_INTS 0 addr shown\<rparr>;
     k \<leftarrow> log_numbers TEST_INTS 0 addr pl k;
     k \<leftarrow> klog pl (lit_addr pl) [addr] k;
     (addr2, s) \<leftarrow> malloc (4 * 5) s;
     k \<leftarrow> klog pl (lit_addr2 pl) [addr2] k;
     let k = k\<lparr>k_heap := s\<rparr>;
     p \<leftarrow> fillrect (screen g) 0 0 (fb_width g) (fb_height g) 0xc99eff (k_pixels k);
     p \<leftarrow> draw_squares (unat (fb_height g) + 1) 0 (screen g) p;
     Some (k\<lparr>k_pixels := p\<rparr>)
   }"

section \<open>The literals\<close>

definition nl :: "u8 list" where "nl = [10]"

definition globals_text :: "u8 list" where
  "globals_text = ascii ''GLOBALS:'' @ nl @ ascii ''memmap: %p'' @ nl @ ascii ''mm_descs: %d'' @ nl @ nl @
     ascii ''freemap: %p'' @ nl @ ascii ''fm_descs: %d'' @ nl @ nl @
     ascii ''kernel_paddr: %p'' @ nl @ ascii ''kernel_vaddr: %p'' @ nl @ ascii ''kernel_size: %d'' @ nl @ nl @
     ascii ''memory_bitmap: %p'' @ nl @ ascii ''memory_pages: %d'' @ nl @ nl @
     ascii ''fb_addr: %p'' @ nl @ ascii ''fb_size: 0x%X'' @ nl @ ascii ''fb_w: %d'' @ nl @ ascii ''fb_h: %d'' @ nl @
     ascii ''fb_pixperline: %d'' @ nl @ nl @ nl"

definition desc_text :: "u8 list" where
  "desc_text = ascii ''%d:'' @ nl @ ascii ''Addr: %p'' @ nl @ ascii ''Pages: 0x%X'' @ nl @ nl"

definition num_line :: "u8 list" where "num_line = ascii ''%d'' @ nl"
definition addr_text :: "u8 list" where "addr_text = ascii ''ADDR: %p'' @ nl"
definition addr2_text :: "u8 list" where "addr2_text = ascii ''ADDR2: %p'' @ nl"

text \<open>The number of conversions of a format that has no \<^verbatim>\<open>%s\<close>.\<close>

fun convs :: "u8 list \<Rightarrow> nat option" where
  "convs [] = Some 0"
| "convs [x] = Some 0"
| "convs (x # c # r) =
     (if x = 37 then
        (if c = 115 then None else if is_conversion False c then map_option Suc (convs r) else convs (c # r))
      else convs (c # r))"

lemma convs_render:
  "convs f = Some n \<Longrightarrow> n \<le> length ap \<Longrightarrow> render False st f ap \<noteq> None \<and> str_args False f ap = []"
proof (induction f arbitrary: n ap rule: convs.induct)
  case (3 x c r)
  then show ?case
    by (cases ap) (auto simp: is_conversion_def split: if_splits)
qed simp_all

lemma literal_convs:
  "convs globals_text = Some 14" "convs desc_text = Some 3" "convs num_line = Some 1" "convs addr_text = Some 1"
  "convs addr2_text = Some 1"
  by code_simp+

text \<open>What a literal without \<^verbatim>\<open>%s\<close> prints.\<close>

definition said :: "u8 list \<Rightarrow> u64 list \<Rightarrow> u8 list" where
  "said f ap = the (render False (\<lambda>_. []) f ap)"

definition literal_at :: "placed \<Rightarrow> mem \<Rightarrow> u64 \<Rightarrow> u8 list \<Rightarrow> bool" where
  "literal_at pl m a f \<longleftrightarrow> cstr m a f \<and> away (at_buf pl) a (length f)"

lemma klog_says:
  assumes "literal_at pl (k_mem k) lit f" and "convs f = Some n" and "n \<le> length ap"
  shows "\<exists>m. klog pl lit ap k = Some (k\<lparr>k_mem := m, k_trace := k_trace k @ sent (said f ap)\<rparr>) \<and>
    same_outside (at_buf pl) (k_mem k) m"
proof -
  note R = convs_render [OF assms(2,3), of "\<lambda>_. []"]
  have "strings_at (at_buf pl) (k_mem k) (\<lambda>_. []) (str_args False f ap)" using R by (simp add: strings_at_def)
  moreover obtain u where u: "render False (\<lambda>_. []) f ap = Some u" using R by blast
  ultimately obtain m where "debug_log (at_buf pl) (k_mem k) lit ap (k_trace k) = Some (Inr (m, k_trace k @ sent u))"
    "same_outside (at_buf pl) (k_mem k) m"
    using log_format_renders [of "k_mem k" lit f "at_buf pl" "\<lambda>_. []" False ap "k_trace k"] assms(1)
    by (auto simp: debug_log_def literal_at_def printed_ok_def)
  with u show ?thesis by (intro exI [of _ m]) (simp add: klog_def said_def)
qed

lemma literal_outside: "same_outside (at_buf pl) m m' \<Longrightarrow> literal_at pl m a f \<Longrightarrow> literal_at pl m' a f"
  by (simp add: literal_at_def cstr_outside)

section \<open>The steps\<close>

text \<open>The bytes sent to the serial port.\<close>

definition serial :: "trace \<Rightarrow> u8 list" where
  "serial t = concat (map (\<lambda>e. case e of OutB p v \<Rightarrow> if p = COM1 then [v] else [] | _ \<Rightarrow> []) t)"

lemma serial_simps [simp]: "serial [] = []" "serial (t @ u) = serial t @ serial u" "serial (sent s) = s"
  by (simp_all add: serial_def sent_def concat_map_singleton comp_def)

text \<open>The addresses of entry \<open>i\<close> of the free map in memory.\<close>

definition desc_line :: "mem \<Rightarrow> u64 \<Rightarrow> u64 \<Rightarrow> u8 list" where
  "desc_line m fm i = said desc_text [i, load64 m (fm + 16 * i), load64 m (fm + 16 * i + 8)]"

lemma desc_line_outside:
  assumes "same_outside buf m m'" and "\<And>j. j < 16 \<Longrightarrow> 21 \<le> unat (fm + 16 * i + of_nat j - buf)"
  shows "desc_line m' fm i = desc_line m fm i"
proof -
  have b: "m' (fm + 16 * i + of_nat j) = m (fm + 16 * i + of_nat j)" if "j < 16" for j
    using assms(1) assms(2) [OF that] by (simp add: same_outside_def)
  have "load64 m' (fm + 16 * i) = load64 m (fm + 16 * i)" by (intro load_le_cong b) simp
  moreover have "load64 m' (fm + 16 * i + 8) = load64 m (fm + 16 * i + 8)"
  proof (rule load_le_cong)
    fix j :: nat
    assume "j < 8"
    with b [of "8 + j"] show "m' (fm + 16 * i + 8 + of_nat j) = m (fm + 16 * i + 8 + of_nat j)" by (simp add: add.assoc)
  qed
  ultimately show ?thesis by (simp add: desc_line_def)
qed

lemma log_freemap_says:
  assumes "literal_at pl (k_mem k) (lit_desc pl) desc_text"
    and "\<And>j. j < 16 * n \<Longrightarrow> 21 \<le> unat (freemap_addr (k_globals k) + 16 * of_nat i + of_nat j - at_buf pl)"
  shows "\<exists>m. log_freemap n (of_nat i) pl k = Some (k\<lparr>k_mem := m,
      k_trace := k_trace k @ sent (concat (map (\<lambda>j. desc_line (k_mem k) (freemap_addr (k_globals k)) (of_nat j)) [i..<i + n]))\<rparr>) \<and>
    same_outside (at_buf pl) (k_mem k) m"
  using assms
proof (induction n arbitrary: i k)
  case 0
  have "k\<lparr>k_mem := k_mem k, k_trace := k_trace k\<rparr> = k" by simp
  then show ?case by (intro exI [of _ "k_mem k"]) simp
next
  case (Suc n)
  let ?fm = "freemap_addr (k_globals k)"
  let ?a = "?fm + 16 * of_nat i"
  have "3 \<le> length [of_nat i, load64 (k_mem k) ?a, load64 (k_mem k) (?a + 8)]" by simp
  from klog_says [OF Suc.prems(1) literal_convs(2) this] obtain m where
    m: "klog pl (lit_desc pl) [of_nat i, load64 (k_mem k) ?a, load64 (k_mem k) (?a + 8)] k =
      Some (k\<lparr>k_mem := m, k_trace := k_trace k @ sent (desc_line (k_mem k) ?fm (of_nat i))\<rparr>)"
    "same_outside (at_buf pl) (k_mem k) m" by (auto simp: desc_line_def)
  let ?k = "k\<lparr>k_mem := m, k_trace := k_trace k @ sent (desc_line (k_mem k) ?fm (of_nat i))\<rparr>"
  have l: "literal_at pl (k_mem ?k) (lit_desc pl) desc_text" using literal_outside [OF m(2) Suc.prems(1)] by simp
  have out: "21 \<le> unat (freemap_addr (k_globals ?k) + 16 * of_nat (Suc i) + of_nat j - at_buf pl)" if "j < 16 * n" for j
    using Suc.prems(2) [of "16 + j"] that by (simp add: algebra_simps)
  have same: "desc_line m ?fm (of_nat l) = desc_line (k_mem k) ?fm (of_nat l)" if "l \<in> set [Suc i..<Suc i + n]" for l
  proof -
    have q: "l = Suc i + (l - Suc i)" "l - Suc i < n" using that by auto
    define q where "q = l - Suc i"
    with q have q: "l = Suc i + q" "q < n" by simp_all
    have "21 \<le> unat (?fm + 16 * of_nat l + of_nat j - at_buf pl)" if "j < 16" for j
      using Suc.prems(2) [of "16 * Suc q + j"] q(2) that by (simp add: q(1) algebra_simps)
    then show ?thesis by (rule desc_line_outside [OF m(2)])
  qed
  obtain m' where m': "log_freemap n (of_nat (Suc i)) pl ?k = Some (?k\<lparr>k_mem := m', k_trace := k_trace ?k @
      sent (concat (map (\<lambda>j. desc_line (k_mem ?k) (freemap_addr (k_globals ?k)) (of_nat j)) [Suc i..<Suc i + n]))\<rparr>)"
    "same_outside (at_buf pl) (k_mem ?k) m'"
    using Suc.IH [OF l out] by blast
  have tl: "map (\<lambda>j. desc_line m ?fm (of_nat j)) [Suc i..<Suc i + n] =
      map (\<lambda>j. desc_line (k_mem k) ?fm (of_nat j)) [Suc i..<Suc i + n]" using same by (intro map_cong refl)
  have hd: "[i..<i + Suc n] = i # [Suc i..<Suc i + n]" by (simp add: upt_rec)
  have "log_freemap (Suc n) (of_nat i) pl k = Some (k\<lparr>k_mem := m', k_trace := k_trace k @
      sent (concat (map (\<lambda>j. desc_line (k_mem k) ?fm (of_nat j)) [i..<i + Suc n]))\<rparr>)"
    using m(1) m'(1) unfolding hd by (simp add: Let_def add.commute [of 1] tl del: upt_Suc add_Suc)
  moreover have "same_outside (at_buf pl) (k_mem k) m'" using same_outside_trans [OF m(2)] m'(2) by simp
  ultimately show ?case by blast
qed

lemma unat_minus_int: "unat (y - 4) = (if unat y < 4 then 2 ^ 64 - 4 + unat y else unat y - 4)" for y :: u64
  by (auto simp: unat_sub_if_size word_size word_le_nat_alt)

lemma store_numbers_stores:
  assumes "i + n < 2 ^ 31"
  shows "(\<forall>j. i \<le> j \<and> j < i + n \<longrightarrow> load_le (store_numbers n (of_nat i) a m) (a + 4 * of_nat j) 4 = (of_nat j :: u32)) \<and>
    (\<forall>x. 4 * n \<le> unat (x - (a + 4 * of_nat i)) \<longrightarrow> store_numbers n (of_nat i) a m x = m x)"
  using assms
proof (induction n arbitrary: i m)
  case (Suc n)
  let ?q = "a + 4 * of_nat i :: u64"
  have ii: "ucast (of_nat i :: u32) = (of_nat i :: u64)" using Suc.prems by (simp add: word_unat_eq_iff unat_of_nat)
  define m1 where "m1 = store_le m ?q 4 (of_nat i :: u32)"
  have q1: "a + 4 * of_nat (Suc i) = ?q + 4" by (simp add: algebra_simps)
  have run: "store_numbers (Suc n) (of_nat i) a m = store_numbers n (of_nat (Suc i)) a m1"
    by (simp add: m1_def ii add.commute)
  have "Suc i + n < 2 ^ 31" using Suc.prems by simp
  note IH = Suc.IH [OF this, of m1]
  have near: "unat (x - (?q + 4)) = (if unat (x - ?q) < 4 then 2 ^ 64 - 4 + unat (x - ?q) else unat (x - ?q) - 4)" for x
    using unat_minus_int [of "x - ?q"] by (simp only: diff_diff_eq)
  have out: "store_numbers n (of_nat (Suc i)) a m1 x = m1 x" if "unat (x - ?q) < 4 \<or> 4 * Suc n \<le> unat (x - ?q)" for x
  proof -
    have "4 * n \<le> unat (x - (?q + 4))" unfolding near using that Suc.prems by auto
    then show ?thesis using IH unfolding q1 by blast
  qed
  have "load_le (store_numbers n (of_nat (Suc i)) a m1) (a + 4 * of_nat j) 4 = (of_nat j :: u32)"
    if "i \<le> j" "j < i + Suc n" for j
  proof (cases "j = i")
    case True
    have "load_le (store_numbers n (of_nat (Suc i)) a m1) ?q 4 = (load_le m1 ?q 4 :: u32)"
    proof (rule load_le_cong)
      fix r :: nat
      assume "r < 4"
      then have "unat (?q + of_nat r - ?q) < 4" by (simp add: unat_of_nat)
      then show "store_numbers n (of_nat (Suc i)) a m1 (?q + of_nat r) = m1 (?q + of_nat r)" by (blast intro: out)
    qed
    then show ?thesis using True load_store_le_same [of 4 m ?q "of_nat i :: u32"] by (simp add: m1_def)
  next
    case False
    with that have "Suc i \<le> j" "j < Suc i + n" by simp_all
    with IH show ?thesis by blast
  qed
  moreover have "store_numbers n (of_nat (Suc i)) a m1 x = m x" if "4 * Suc n \<le> unat (x - ?q)" for x
    using out that by (simp add: m1_def store_le_def)
  ultimately show ?case unfolding run by blast
qed auto

lemma said_num: "said num_line [x] = num_text 10 (unat x) @ [10, 13]"
  by (simp add: said_def num_line_def ascii_def nl_def is_conversion_def conv_text_def)

lemma log_numbers_says:
  assumes "literal_at pl (k_mem k) (lit_num pl) num_line" and "i + n < 2 ^ 31"
    and "\<And>j. i \<le> j \<Longrightarrow> j < i + n \<Longrightarrow> load_le (k_mem k) (a + 4 * of_nat j) 4 = (of_nat j :: u32)"
    and "\<And>j. j < 4 * (i + n) \<Longrightarrow> 21 \<le> unat (a + of_nat j - at_buf pl)"
  shows "\<exists>m. log_numbers n (of_nat i) a pl k = Some (k\<lparr>k_mem := m,
      k_trace := k_trace k @ sent (concat (map (\<lambda>j. num_text 10 j @ [10, 13]) [i..<i + n]))\<rparr>) \<and>
    same_outside (at_buf pl) (k_mem k) m"
  using assms
proof (induction n arbitrary: i k)
  case 0
  have "k\<lparr>k_mem := k_mem k, k_trace := k_trace k\<rparr> = k" by simp
  then show ?case by (intro exI [of _ "k_mem k"]) simp
next
  case (Suc n)
  have ii: "ucast (of_nat i :: u32) = (of_nat i :: u64)" "unat (of_nat i :: u64) = i"
    using Suc.prems(2) by (simp_all add: word_unat_eq_iff unat_of_nat)
  have ld: "load_le (k_mem k) (a + 4 * of_nat i) 4 = (of_nat i :: u32)" using Suc.prems(3) [of i] by simp
  obtain m where m: "klog pl (lit_num pl) [of_nat i] k = Some (k\<lparr>k_mem := m, k_trace := k_trace k @ sent (num_text 10 i @ [10, 13])\<rparr>)"
    "same_outside (at_buf pl) (k_mem k) m"
    using klog_says [OF Suc.prems(1) literal_convs(3), of "[of_nat i]"] said_num [of "of_nat i"] ii(2) by auto
  let ?k = "k\<lparr>k_mem := m, k_trace := k_trace k @ sent (num_text 10 i @ [10, 13])\<rparr>"
  have l: "literal_at pl (k_mem ?k) (lit_num pl) num_line" using literal_outside [OF m(2) Suc.prems(1)] by simp
  have "m (a + of_nat j) = k_mem k (a + of_nat j)" if "j < 4 * (i + Suc n)" for j
    using m(2) Suc.prems(4) [OF that] by (simp add: same_outside_def)
  then have "load_le m (a + 4 * of_nat j) 4 = (load_le (k_mem k) (a + 4 * of_nat j) 4 :: u32)" if "j < i + Suc n" for j
  proof (intro load_le_cong)
    fix r :: nat
    assume "r < 4"
    with that have "4 * j + r < 4 * (i + Suc n)" by simp
    with \<open>\<And>j. j < 4 * (i + Suc n) \<Longrightarrow> m (a + of_nat j) = k_mem k (a + of_nat j)\<close> [OF this]
    show "m (a + 4 * of_nat j + of_nat r) = k_mem k (a + 4 * of_nat j + of_nat r)" by (simp add: algebra_simps)
  qed
  then have loads: "load_le (k_mem ?k) (a + 4 * of_nat j) 4 = (of_nat j :: u32)" if "Suc i \<le> j" "j < Suc i + n" for j
    using that Suc.prems(3) [of j] by simp
  have less: "Suc i + n < 2 ^ 31" using Suc.prems(2) by simp
  have far: "21 \<le> unat (a + of_nat j - at_buf pl)" if "j < 4 * (Suc i + n)" for j
    using Suc.prems(4) [of j] that by simp
  obtain m' where m': "log_numbers n (of_nat (Suc i)) a pl ?k = Some (?k\<lparr>k_mem := m', k_trace := k_trace ?k @
      sent (concat (map (\<lambda>j. num_text 10 j @ [10, 13]) [Suc i..<Suc i + n]))\<rparr>)" "same_outside (at_buf pl) (k_mem ?k) m'"
    using Suc.IH [OF l less loads far] by blast
  have hd: "[i..<i + Suc n] = i # [Suc i..<Suc i + n]" by (simp add: upt_rec)
  have "log_numbers (Suc n) (of_nat i) a pl k = Some (k\<lparr>k_mem := m', k_trace := k_trace k @
      sent (concat (map (\<lambda>j. num_text 10 j @ [10, 13]) [i..<i + Suc n]))\<rparr>)"
    using m(1) m'(1) ld unfolding hd by (simp add: ii(1) add.commute [of 1] del: upt_Suc add_Suc)
  moreover have "same_outside (at_buf pl) (k_mem k) m'" using same_outside_trans [OF m(2)] m'(2) by simp
  ultimately show ?case by blast
qed


lemma small_counter: "i < 2 ^ 31 - 1 \<Longrightarrow> of_nat i \<noteq> (0x7FFFFFFF :: u32)"
proof
  assume "i < 2 ^ 31 - 1" and "of_nat i = (0x7FFFFFFF :: u32)"
  then have "unat (of_nat i :: u32) = unat (0x7FFFFFFF :: u32)" "i < 2 ^ 31" by simp_all
  then show False using \<open>i < 2 ^ 31 - 1\<close> by (simp add: unat_of_nat)
qed

lemma draw_squares_returns: "i + n < 2 ^ 31 \<Longrightarrow> \<exists>r. draw_squares n (of_nat i) fb p = Some r"
proof (induction n arbitrary: i p)
  case (Suc n)
  have i: "unat (of_nat i :: u32) = i" "of_nat i \<noteq> (0x7FFFFFFF :: u32)"
    using Suc.prems small_counter [of i] by (simp_all add: unat_of_nat)
  obtain q where "fillrect fb 0 0 (of_nat i) (of_nat i) 0x006040 p = Some q"
    using i(1) Suc.prems by (simp add: fillrect_def)
  moreover obtain r where "draw_squares n (of_nat (Suc i)) fb q = Some r" using Suc.IH [of "Suc i" q] Suc.prems by auto
  ultimately show ?case using i(2) by (simp add: add.commute)
qed simp

text \<open>The screen after the squares: the last one covers all others.\<close>

lemma draw_squares_draws:
  assumes "i + n \<le> Suc (unat (fb_pixperline fb))" and "(i + n) * unat (fb_pixperline fb) < 2 ^ 32"
    and "i + n < 2 ^ 31" and "on_screen fb px py"
  shows "\<exists>q. draw_squares n (of_nat i) fb p = Some q \<and>
    q (scr fb px py) = (if 0 < n \<and> px < i + n - 1 \<and> py < i + n - 1 then 0x006040 else p (scr fb px py))"
  using assms(1-3)
proof (induction n arbitrary: i p)
  case (Suc n)
  have i: "unat (of_nat i :: u32) = i" using Suc.prems(3) by (simp add: unat_of_nat)
  have "i * unat (fb_pixperline fb) < 2 ^ 32" using Suc.prems(2) by (simp add: distrib_right)
  then have h: "(unat (0 :: u32) + unat (of_nat i :: u32)) * unat (fb_pixperline fb) < 2 ^ 32" by (simp add: i)
  have w: "unat (0 :: u32) + unat (of_nat i :: u32) \<le> unat (fb_pixperline fb)" using Suc.prems(1) by (simp add: i)
  have s: "unat (of_nat i :: u32) < 2 ^ 31" using Suc.prems(3) by (simp add: i)
  from fillrect_fills [OF w h s s assms(4), of "0x006040" p] obtain q where
    q: "fillrect fb 0 0 (of_nat i) (of_nat i) 0x006040 p = Some q"
    "q (scr fb px py) = (if px < i \<and> py < i then 0x006040 else p (scr fb px py))" by (auto simp: i)
  have n: "of_nat i \<noteq> (0x7FFFFFFF :: u32)" using Suc.prems(3) by (intro small_counter) simp
  have p: "Suc i + n \<le> Suc (unat (fb_pixperline fb))" "(Suc i + n) * unat (fb_pixperline fb) < 2 ^ 32"
    "Suc i + n < 2 ^ 31" using Suc.prems by simp_all
  obtain r where r: "draw_squares n (of_nat (Suc i)) fb q = Some r"
    "r (scr fb px py) = (if 0 < n \<and> px < Suc i + n - 1 \<and> py < Suc i + n - 1 then 0x006040 else q (scr fb px py))"
    using Suc.IH [OF p, of q] by blast
  have "draw_squares (Suc n) (of_nat i) fb p = Some r" using q(1) r(1) n by (simp add: add.commute)
  moreover have "r (scr fb px py) = (if px < i + n \<and> py < i + n then 0x006040 else p (scr fb px py))"
    using r(2) q(2) by auto
  ultimately show ?case by simp
qed simp


lemma bump_boot:
  assumes "boot_tables s"
  shows "bump (init_malloc s) kernel_heap 0x800000000 0"
  using init_malloc_ok(1) [OF assms] init_malloc_tables(1,2) [OF assms, of 0]
  by (simp add: bump_def HEAPS_def FREE_SPACES_def whole_heap_def kernel_heap_def kernel_stack_def)

lemma init_memory_heap:
  assumes "boot_tables s" and "runs_end g"
  shows "\<exists>g' s' cr3. init_memory g s = Some (g', s', cr3) \<and> bump s' kernel_heap 0x800000000 0 \<and> screen g' = screen g"
proof -
  have v: "phys_ok (pages (vm s))" "root_ok (vm s)" using assms(1) by (simp_all add: boot_tables_def)
  obtain g' v' cr3 where i: "init_paging g (vm s) = Some (g', v', cr3)" using init_paging_returns [OF v assms(2)] by blast
  have "boot_tables (s\<lparr>vm := v'\<rparr>)" using init_paging_keeps [OF i v] assms(1) by (simp add: boot_tables_def)
  from bump_boot [OF this] have b: "bump (init_malloc (s\<lparr>vm := v'\<rparr>)) kernel_heap 0x800000000 0" .
  have "screen g' = screen g" using i by (auto simp: init_paging_def bind_eq_Some_conv Let_def screen_def)
  with b i show ?thesis by (simp add: init_memory_def)
qed

lemma init_gdt_returns:
  assumes "length (GDT g) = ENTRIES" and "GDT_entry g = 0"
  shows "\<exists>g' p. init_gdt a g = Some (g', p)"
  using assms by (simp add: init_gdt_def gdtadd_def Let_def ENTRIES_def)

text \<open>Setting up the interrupts sends nothing to the serial port.\<close>

lemma init_ints_quiet:
  assumes "length idt = INTS"
  shows "\<exists>idt1 tp t1 idt2 t2. init_idt d h a idt t = Some (idt1, tp, t1) \<and> init_timer d h idt1 t1 = Some (idt2, t2) \<and>
    serial t2 = serial t"
proof -
  let ?t = "remappic d 0x20 0x28 t"
  obtain idt1 where i: "init_idt_gates h idt = Some idt1" "length idt1 = INTS"
    using init_idt_gates_eq [OF assms] by blast
  have q: "serial ?t = serial t" by (simp add: remappic_trace Let_def) (simp add: serial_def COM1_def PIC1_CMD_def PIC1_DAT_def PIC2_CMD_def PIC2_DAT_def)
  have "\<exists>t2. init_timer d h idt1 ?t = Some (idt1[0x20 := gate (h pitirq) 0x8E], t2) \<and> serial t2 = serial ?t"
    using i(2) by (simp add: init_timer_def HZ_def port_defs addirq_gate INTS_def PIT_CHAN0_def PIT_CMD_def
        unmaskirq_def shifted_one_def) (simp add: serial_def COM1_def PIC1_DAT_def)
  then obtain t2 where "init_timer d h idt1 ?t = Some (idt1[0x20 := gate (h pitirq) 0x8E], t2)" "serial t2 = serial ?t" by blast
  with i(1) q show ?thesis by (simp add: init_idt_def Let_def)
qed

text \<open>A literal outside the array of numbers.\<close>

definition off_numbers :: "u64 \<Rightarrow> u8 list \<Rightarrow> bool" where
  "off_numbers a f \<longleftrightarrow> (\<forall>j \<le> length f. 4 * TEST_INTS \<le> unat (a + of_nat j - kernel_heap))"

lemma cstr_local: "(\<And>j. j \<le> length s \<Longrightarrow> m' (a + of_nat j) = m (a + of_nat j)) \<Longrightarrow> cstr m' a s = cstr m a s"
  by (simp add: cstr_nth)

lemmas numbers_stored = store_numbers_stores [of 0 TEST_INTS, simplified add_0 of_nat_0 mult_zero_right add_0_right]

lemma literal_numbers:
  assumes "literal_at pl m a f" and "off_numbers a f"
  shows "literal_at pl (store_numbers TEST_INTS 0 kernel_heap m) a f"
proof -
  have "TEST_INTS < 2 ^ 31" by (simp add: TEST_INTS_def)
  note out = conjunct2 [OF numbers_stored [OF this], of kernel_heap m]
  have "store_numbers TEST_INTS 0 kernel_heap m (a + of_nat j) = m (a + of_nat j)" if "j \<le> length f" for j
    using out assms(2) that by (simp add: off_numbers_def)
  then have "cstr (store_numbers TEST_INTS 0 kernel_heap m) a f = cstr m a f" by (intro cstr_local)
  with assms(1) show ?thesis unfolding literal_at_def by blast
qed

section \<open>Properties\<close>

text \<open>The expected output: the globals, the free map's entries, the numbers, and the two addresses.\<close>

definition globals_said :: "globals \<Rightarrow> u8 list" where
  "globals_said g = said globals_text
     [memmap_addr g, mm_descs_g g, freemap_addr g, fm_descs_g g, kernel_paddr g, kernel_vaddr g, kernel_size g,
      pmem_bmap_addr g, memory_pages g, fb_addr g, fb_size g, ucast (fb_width g), ucast (fb_height g), ucast (fb_line g)]"

definition freemap_said :: "globals \<Rightarrow> mem \<Rightarrow> u8 list" where
  "freemap_said g m = concat (map (\<lambda>i. desc_line m (freemap_addr g) (of_nat i)) [0..<unat (fm_descs_g g)])"

definition test_said :: "u8 list" where
  "test_said = concat (map (\<lambda>i. num_text 10 i @ [10, 13]) [0..<TEST_INTS]) @
     said addr_text [kernel_heap] @ said addr2_text [kernel_heap + 4 * of_nat TEST_INTS]"

text \<open>
  What \<^verbatim>\<open>init\<close> starts from: zeroed tables, its literals in memory before and after the page tables
  change, the buffer of \<^verbatim>\<open>debug_log\<close> apart from the free map and the first block of the heap.
\<close>

definition start_ok :: "placed \<Rightarrow> mem \<Rightarrow> globals \<Rightarrow> kern \<Rightarrow> bool" where
  "start_ok pl shown g k \<longleftrightarrow>
     boot_tables (k_heap k) \<and> length (GDT (k_gdt k)) = ENTRIES \<and> GDT_entry (k_gdt k) = 0 \<and> length (k_idt k) = INTS \<and>
     runs_end g \<and>
     literal_at pl (k_mem k) (lit_globals pl) globals_text \<and> literal_at pl (k_mem k) (lit_desc pl) desc_text \<and>
     literal_at pl shown (lit_num pl) num_line \<and> off_numbers (lit_num pl) num_line \<and>
     literal_at pl shown (lit_addr pl) addr_text \<and> off_numbers (lit_addr pl) addr_text \<and>
     literal_at pl shown (lit_addr2 pl) addr2_text \<and> off_numbers (lit_addr2 pl) addr2_text \<and>
     (\<forall>j < 16 * unat (fm_descs_g g). 21 \<le> unat (freemap_addr g + of_nat j - at_buf pl)) \<and>
     (\<forall>j < 4 * TEST_INTS. 21 \<le> unat (kernel_heap + of_nat j - at_buf pl))"


text \<open>The steps before the memory system is up.\<close>

lemma start_log:
  assumes "start_ok pl shown g k" and "k_globals k = g"
  shows "\<exists>k1 k2. klog pl (lit_globals pl)
      [memmap_addr g, mm_descs_g g, freemap_addr g, fm_descs_g g, kernel_paddr g, kernel_vaddr g, kernel_size g,
       pmem_bmap_addr g, memory_pages g, fb_addr g, fb_size g, ucast (fb_width g), ucast (fb_height g), ucast (fb_line g)] k = Some k1 \<and>
    log_freemap (unat (fm_descs_g g)) 0 pl k1 = Some k2 \<and> k_globals k2 = g \<and> k_gdt k2 = k_gdt k \<and> k_idt k2 = k_idt k \<and>
    k_heap k2 = k_heap k \<and> k_pixels k2 = k_pixels k \<and>
    serial (k_trace k2) = serial (k_trace k) @ globals_said g @ freemap_said g (k_mem k)"
proof -
  let ?ap = "[memmap_addr g, mm_descs_g g, freemap_addr g, fm_descs_g g, kernel_paddr g, kernel_vaddr g, kernel_size g,
       pmem_bmap_addr g, memory_pages g, fb_addr g, fb_size g, ucast (fb_width g), ucast (fb_height g), ucast (fb_line g)]"
  have S: "literal_at pl (k_mem k) (lit_globals pl) globals_text" "literal_at pl (k_mem k) (lit_desc pl) desc_text"
    "\<And>j. j < 16 * unat (fm_descs_g g) \<Longrightarrow> 21 \<le> unat (freemap_addr g + of_nat j - at_buf pl)"
    using assms(1) by (simp_all add: start_ok_def)
  obtain m1 where m1: "klog pl (lit_globals pl) ?ap k = Some (k\<lparr>k_mem := m1, k_trace := k_trace k @ sent (said globals_text ?ap)\<rparr>)"
    "same_outside (at_buf pl) (k_mem k) m1"
    using klog_says [OF S(1) literal_convs(1), of ?ap] by auto
  let ?k1 = "k\<lparr>k_mem := m1, k_trace := k_trace k @ sent (said globals_text ?ap)\<rparr>"
  have l: "literal_at pl (k_mem ?k1) (lit_desc pl) desc_text" using literal_outside [OF m1(2) S(2)] by simp
  have f: "21 \<le> unat (freemap_addr (k_globals ?k1) + 16 * of_nat 0 + of_nat j - at_buf pl)"
    if "j < 16 * unat (fm_descs_g g)" for j using S(3) [OF that] by (simp add: assms(2))
  obtain m where m: "log_freemap (unat (fm_descs_g g)) (of_nat 0) pl ?k1 = Some (?k1\<lparr>k_mem := m, k_trace := k_trace ?k1 @
      sent (concat (map (\<lambda>j. desc_line (k_mem ?k1) (freemap_addr (k_globals ?k1)) (of_nat j)) [0..<0 + unat (fm_descs_g g)]))\<rparr>)"
    using log_freemap_says [OF l f] by blast
  have "desc_line m1 (freemap_addr g) (of_nat i) = desc_line (k_mem k) (freemap_addr g) (of_nat i)" if "i < unat (fm_descs_g g)" for i
  proof (rule desc_line_outside [OF m1(2)])
    fix j :: nat
    assume "j < 16"
    with S(3) [of "16 * i + j"] that show "21 \<le> unat (freemap_addr g + 16 * of_nat i + of_nat j - at_buf pl)"
      by (simp add: algebra_simps)
  qed
  then have "map (\<lambda>j. desc_line m1 (freemap_addr g) (of_nat j)) [0..<unat (fm_descs_g g)] =
      map (\<lambda>j. desc_line (k_mem k) (freemap_addr g) (of_nat j)) [0..<unat (fm_descs_g g)]" by simp
  with m have m: "log_freemap (unat (fm_descs_g g)) 0 pl ?k1 = Some (?k1\<lparr>k_mem := m, k_trace := k_trace ?k1 @ sent (freemap_said g (k_mem k))\<rparr>)"
    by (simp add: assms(2) freemap_said_def)
  show ?thesis
    using m m1(1) assms(2)
    by (intro exI [of _ ?k1] exI [of _ "?k1\<lparr>k_mem := m, k_trace := k_trace ?k1 @ sent (freemap_said g (k_mem k))\<rparr>"])
      (simp add: globals_said_def)
qed

text \<open>The test of the heap and the log.\<close>

lemma start_numbers:
  assumes "start_ok pl shown g k0" and "k_mem k = store_numbers TEST_INTS 0 kernel_heap shown"
  shows "\<exists>k1 k2 k3. log_numbers TEST_INTS 0 kernel_heap pl k = Some k1 \<and>
    klog pl (lit_addr pl) [kernel_heap] k1 = Some k2 \<and>
    klog pl (lit_addr2 pl) [kernel_heap + 4 * of_nat TEST_INTS] k2 = Some k3 \<and>
    k_pixels k3 = k_pixels k \<and> serial (k_trace k3) = serial (k_trace k) @ test_said"
proof -
  note S = assms(1) [unfolded start_ok_def]
  have L: "literal_at pl (k_mem k) (lit_num pl) num_line" "literal_at pl (k_mem k) (lit_addr pl) addr_text"
    "literal_at pl (k_mem k) (lit_addr2 pl) addr2_text"
    using S literal_numbers unfolding assms(2) by blast+
  have T: "0 + TEST_INTS < 2 ^ 31" by (simp add: TEST_INTS_def)
  have ld: "load_le (k_mem k) (kernel_heap + 4 * of_nat j) 4 = (of_nat j :: u32)" if "0 \<le> j" "j < 0 + TEST_INTS" for j
    using numbers_stored [of kernel_heap shown] T that unfolding assms(2) by simp
  have far: "21 \<le> unat (kernel_heap + of_nat j - at_buf pl)" if "j < 4 * (0 + TEST_INTS)" for j using S that by simp
  obtain m1 where m1: "log_numbers TEST_INTS (of_nat 0) kernel_heap pl k = Some (k\<lparr>k_mem := m1,
      k_trace := k_trace k @ sent (concat (map (\<lambda>j. num_text 10 j @ [10, 13]) [0..<0 + TEST_INTS]))\<rparr>)"
    "same_outside (at_buf pl) (k_mem k) m1"
    using log_numbers_says [OF L(1) T ld far] by blast
  let ?k1 = "k\<lparr>k_mem := m1, k_trace := k_trace k @ sent (concat (map (\<lambda>j. num_text 10 j @ [10, 13]) [0..<TEST_INTS]))\<rparr>"
  have "literal_at pl (k_mem ?k1) (lit_addr pl) addr_text" using literal_outside [OF m1(2) L(2)] by simp
  from klog_says [OF this literal_convs(4), of "[kernel_heap]"] obtain m2 where
    m2: "klog pl (lit_addr pl) [kernel_heap] ?k1 = Some (?k1\<lparr>k_mem := m2, k_trace := k_trace ?k1 @ sent (said addr_text [kernel_heap])\<rparr>)"
    "same_outside (at_buf pl) m1 m2" by auto
  let ?k2 = "?k1\<lparr>k_mem := m2, k_trace := k_trace ?k1 @ sent (said addr_text [kernel_heap])\<rparr>"
  have "literal_at pl (k_mem ?k2) (lit_addr2 pl) addr2_text"
    using literal_outside [OF m2(2) literal_outside [OF m1(2) L(3)]] by simp
  from klog_says [OF this literal_convs(5), of "[kernel_heap + 4 * of_nat TEST_INTS]"] obtain m3 where
    m3: "klog pl (lit_addr2 pl) [kernel_heap + 4 * of_nat TEST_INTS] ?k2 =
      Some (?k2\<lparr>k_mem := m3, k_trace := k_trace ?k2 @ sent (said addr2_text [kernel_heap + 4 * of_nat TEST_INTS])\<rparr>)" by auto
  show ?thesis
    using m1(1) m2(1) m3
    by (intro exI [of _ ?k1] exI [of _ ?k2] exI [of _ "?k2\<lparr>k_mem := m3, k_trace := k_trace ?k2 @
        sent (said addr2_text [kernel_heap + 4 * of_nat TEST_INTS])\<rparr>"]) (simp add: test_said_def)
qed

lemma start_picture:
  fixes g :: globals
  assumes "fb_height g \<le> fb_line g" and "fb_width g \<le> fb_line g" and "unat (fb_height g) < 2 ^ 31 - 1" and "unat (fb_width g) < 2 ^ 31"
    and "(unat (fb_height g) + 1) * unat (fb_line g) < 2 ^ 32"
  shows "\<exists>q r. fillrect (screen g) 0 0 (fb_width g) (fb_height g) 0xc99eff p = Some q \<and>
    draw_squares (unat (fb_height g) + 1) 0 (screen g) q = Some r \<and>
    (\<forall>px py. px < unat (fb_width g) \<and> py < unat (fb_height g) \<longrightarrow>
      r (scr (screen g) px py) = (if px < unat (fb_height g) then 0x006040 else 0xc99eff))"
proof -
  let ?fb = "screen g" and ?h = "unat (fb_height g)" and ?w = "unat (fb_width g)"
  have l: "fb_pixperline ?fb = fb_line g" by (simp add: screen_def)
  have h: "?h \<le> unat (fb_line g)" "?w \<le> unat (fb_line g)" using assms(1,2) by (simp_all add: word_le_nat_alt)
  have on: "on_screen ?fb px py" if "px < ?w" "py < ?h" for px py
  proof -
    have "(py + 1) * unat (fb_line g) \<le> (?h + 1) * unat (fb_line g)" using that(2) by (intro mult_right_mono) simp_all
    then have "(py + 1) * unat (fb_line g) \<le> 2 ^ 32" using assms(5) by linarith
    with that h show ?thesis unfolding on_screen_def l by linarith
  qed
  have f: "unat (0 :: u32) + ?w \<le> unat (fb_pixperline ?fb)" "(unat (0 :: u32) + ?h) * unat (fb_pixperline ?fb) < 2 ^ 32" "?h < 2 ^ 31"
    using h assms(3,5) by (simp_all add: l)
  have d: "0 + (?h + 1) \<le> Suc (unat (fb_pixperline ?fb))" "(0 + (?h + 1)) * unat (fb_pixperline ?fb) < 2 ^ 32" "0 + (?h + 1) < 2 ^ 31"
    using h assms(3,5) by (simp_all add: l)
  obtain q where q: "fillrect ?fb 0 0 (fb_width g) (fb_height g) 0xc99eff p = Some q"
    using f(3) assms(4) by (simp add: fillrect_def)
  obtain r where r: "draw_squares (?h + 1) 0 ?fb q = Some r"
    using draw_squares_returns [of 0 "?h + 1" ?fb q] assms(3) by auto
  have "r (scr ?fb px py) = (if px < ?h then 0x006040 else 0xc99eff)" if p: "px < ?w" "py < ?h" for px py
  proof -
    have "q (scr ?fb px py) = 0xc99eff"
      using fillrect_fills [OF f(1,2) _ f(3) on [OF p], of "0xc99eff" p] q p assms(4) by auto
    moreover have "r (scr ?fb px py) = (if px < ?h \<and> py < ?h then 0x006040 else q (scr ?fb px py))"
      using draw_squares_draws [OF d on [OF p], of q] r by simp
    ultimately show ?thesis using p(2) by simp
  qed
  with q r show ?thesis by blast
qed



definition demo_screen :: bootinfo_t where
  "demo_screen = demo_boot\<lparr>b_fb_w := 4, b_fb_h := 2, b_fb_pixperline := 4\<rparr>"

definition demo_placed :: placed where
  "demo_placed = \<lparr>lit_globals = 0x10000, lit_desc = 0x20000, lit_num = 0x30000, lit_addr = 0x40000, lit_addr2 = 0x50000,
     at_gdt = 0x60000, at_idt = 0x70000, at_handler = (\<lambda>_. 0x80000), at_buf = 64\<rparr>"

definition demo_literals :: "(nat \<times> u8 list) list" where
  "demo_literals = [(1, globals_text), (2, desc_text), (3, num_line), (4, addr_text), (5, addr2_text)]"

definition literal_mem :: mem where
  "literal_mem x = (case map_of demo_literals (unat x div 0x10000) of
     None \<Rightarrow> 0 | Some f \<Rightarrow> text_at (0x10000 * of_nat (unat x div 0x10000)) f x)"

definition demo_kern :: kern where
  "demo_kern = \<lparr>k_globals = init_globals demo_screen, k_gdt = gdt_zero, k_idt = idt_zero, k_heap = boot_state flat_vm,
     k_mem = literal_mem, k_trace = [], k_pixels = (\<lambda>_. 0)\<rparr>"

lemma demo_texts: "(n, f) \<in> set demo_literals \<Longrightarrow> 0 \<notin> set f \<and> length f < 400 \<and> n < 6 \<and> 0 < n"
  unfolding demo_literals_def globals_text_def desc_text_def num_line_def addr_text_def addr2_text_def nl_def ascii_def
  by auto

lemma demo_literal:
  assumes "map_of demo_literals n = Some f"
  shows "literal_at demo_placed literal_mem (0x10000 * of_nat n) f \<and> off_numbers (0x10000 * of_nat n) f"
proof -
  let ?a = "0x10000 * of_nat n :: u64"
  have f: "0 \<notin> set f" "length f < 400" "n < 6" "0 < n" using demo_texts [OF map_of_SomeD [OF assms]] by simp_all
  then have a: "unat ?a = 0x10000 * n" by (simp add: unat_mult_lem [THEN iffD1] unat_of_nat)
  have aj: "unat (?a + of_nat j) = 0x10000 * n + j" if "j \<le> length f" for j
    using that f by (simp add: unat_word_ariths unat_of_nat)
  have "literal_mem (?a + of_nat j) = text_at ?a f (?a + of_nat j)" if "j \<le> length f" for j
  proof -
    have "unat (?a + of_nat j) div 0x10000 = n" unfolding aj [OF that] using that f by simp
    then show ?thesis by (simp add: literal_mem_def assms)
  qed
  then have "cstr literal_mem ?a f = cstr (text_at ?a f) ?a f" by (intro cstr_local)
  moreover have "away 64 ?a (length f)" using f by (intro away_above) (simp_all add: a)
  moreover have "4 * TEST_INTS \<le> unat (?a + of_nat j - kernel_heap)" if "j \<le> length f" for j
  proof -
    have "\<not> kernel_heap \<le> ?a + of_nat j" using f that by (simp add: word_le_nat_alt aj kernel_heap_def)
    then show ?thesis using f that by (simp add: unat_sub_if_size word_size aj kernel_heap_def TEST_INTS_def word_le_nat_alt)
  qed
  ultimately show ?thesis using text_at_cstr [of f ?a] f by (simp add: literal_at_def demo_placed_def off_numbers_def)
qed

lemma demo_start: "start_ok demo_placed literal_mem (init_globals demo_screen) demo_kern"
proof -
  have "boot_tables (boot_state flat_vm)" by (rule boot_state_tables [OF flat_ok])
  moreover have "runs_end (init_globals demo_screen)"
    by (simp add: runs_end_def init_globals_def demo_screen_def demo_boot_def CEILING_def)
  moreover have "21 \<le> unat (kernel_heap + of_nat j - 64)" if "j < 4 * TEST_INTS" for j
    using that by (simp add: unat_sub_if_size word_size unat_word_ariths unat_of_nat kernel_heap_def TEST_INTS_def)
  moreover have "21 \<le> unat (0x9000 + of_nat j - 64 :: u64)" if "j < 16" for j
    using that by (simp add: unat_sub_if_size word_size unat_word_ariths unat_of_nat)
  moreover note demo_literal [of 1] demo_literal [of 2] demo_literal [of 3] demo_literal [of 4] demo_literal [of 5]
  ultimately show ?thesis
    by (simp add: start_ok_def demo_kern_def demo_literals_def gdt_zero_def idt_zero_def demo_placed_def
        init_globals_def demo_screen_def demo_boot_def)
qed


end
