(* ===== verification/Syscall.thy ===== *)
theory Syscall
  imports Cpu
begin

text \<open>
  System calls: the inline assembly of \<^verbatim>\<open>sys_handler\<close> and \<^verbatim>\<open>enter_userspace\<close> (\<^verbatim>\<open>syscall/syscall.c\<close>),
  instruction by instruction, over the registers it uses. The instructions \<^verbatim>\<open>syscall\<close> and \<^verbatim>\<open>sysretq\<close>
  are the processor's documented ones; they read the model-specific registers that
  \<^const>\<open>init_syscall\<close> has written.
\<close>

section \<open>The processor\<close>

record cpu =
  rax :: u64
  rcx :: u64
  rdx :: u64
  rsi :: u64
  rdi :: u64
  r8 :: u64
  r9 :: u64
  r10 :: u64
  r11 :: u64
  rsp :: u64
  rip :: u64
  rflags :: u64
  cs :: u16
  ss :: u16

text \<open>The value a trace leaves in a model-specific register.\<close>

fun msr_after :: "trace \<Rightarrow> u32 \<Rightarrow> u64 \<Rightarrow> u64" where
  "msr_after [] r v = v"
| "msr_after (WrMsr q w # t) r v = msr_after t r (if q = r then w else v)"
| "msr_after (e # t) r v = msr_after t r v"

definition canonical_addr :: "u64 \<Rightarrow> bool" where
  "canonical_addr a \<longleftrightarrow> drop_bit 47 a = 0 \<or> drop_bit 47 a = 0x1FFFF"

text \<open>\<^term>\<open>after\<close> is the address of the instruction after \<^verbatim>\<open>syscall\<close>.\<close>

definition syscall_insn :: "trace \<Rightarrow> u64 \<Rightarrow> cpu \<Rightarrow> cpu" where
  "syscall_insn t after c =
     c\<lparr>rcx := after, rip := msr_after t LSTAR 0, r11 := rflags c,
       rflags := rflags c AND NOT (msr_after t SFMASK 0),
       cs := ucast (drop_bit 32 (msr_after t STAR 0)) AND 0xFFFC,
       ss := ucast (drop_bit 32 (msr_after t STAR 0)) + 8\<rparr>"

text \<open>A return to an address that is not canonical faults (\<^term>\<open>None\<close>).\<close>

definition sysretq :: "trace \<Rightarrow> cpu \<Rightarrow> cpu option" where
  "sysretq t c =
     (if canonical_addr (rcx c) then
        Some (c\<lparr>rip := rcx c, rflags := (r11 c AND 0x3C7FD7) OR 2,
          cs := (ucast (drop_bit 48 (msr_after t STAR 0)) + 16) OR 3,
          ss := (ucast (drop_bit 48 (msr_after t STAR 0)) + 8) OR 3\<rparr>)
      else None)"

definition cli :: "cpu \<Rightarrow> cpu" where
  "cli c = c\<lparr>rflags := rflags c AND NOT 0x200\<rparr>"

section \<open>The C functions\<close>

record syscall_frame =
  sc_code :: u64
  sc_return_addr :: u64
  sc_arg1 :: u64
  sc_arg2 :: u64
  sc_arg3 :: u64
  sc_arg4 :: u64
  sc_arg5 :: u64
  sc_arg6 :: u64

text \<open>
  The \<^verbatim>\<open>switch\<close> on the code has no case. \<^term>\<open>compiled\<close> is what the code around the two assembly
  statements does to the registers: the function's prologue moves the stack pointer, and a register
  of the compiler's choice takes the return address.
\<close>

definition sys_handler :: "(syscall_frame \<Rightarrow> cpu \<Rightarrow> cpu) \<Rightarrow> trace \<Rightarrow> cpu \<Rightarrow> cpu option" where
  "sys_handler compiled t c =
     (let c = cli c;
          f = \<lparr>sc_code = rax c, sc_return_addr = rcx c, sc_arg1 = rdi c, sc_arg2 = rsi c, sc_arg3 = rdx c,
            sc_arg4 = r8 c, sc_arg5 = r9 c, sc_arg6 = r10 c\<rparr>;
          c = compiled f c;
          c = c\<lparr>rcx := sc_return_addr f\<rparr>;
          c = c\<lparr>r11 := 2\<rparr>
      in sysretq t c)"

text \<open>The constraints of \<^verbatim>\<open>enter_userspace\<close> put the new stack pointer into RAX and the new program counter into RCX.\<close>

definition enter_userspace :: "trace \<Rightarrow> u64 \<Rightarrow> u64 \<Rightarrow> cpu \<Rightarrow> cpu option" where
  "enter_userspace t RIP RSP c =
     (let c = c\<lparr>rax := RSP, rcx := RIP\<rparr>;
          c = c\<lparr>rcx := rax c\<rparr>;
          c = c\<lparr>rax := rcx c\<rparr>;
          c = c\<lparr>rsp := rax c\<rparr>;
          c = c\<lparr>r11 := 0x202\<rparr>
      in sysretq t c)"

section \<open>Properties\<close>

lemma msr_after_append [simp]: "msr_after (t @ u) r v = msr_after u r (msr_after t r v)"
  by (induction t r v rule: msr_after.induct) simp_all

lemma init_syscall_msrs:
  "msr_after (init_syscall d h t) STAR v = 0x0018000800000000" "msr_after (init_syscall d h t) LSTAR v = h"
  "msr_after (init_syscall d h t) SFMASK v = 0"
  by (simp_all add: init_syscall_def rdmsr_def wrmsr_def Let_def EFER_def STAR_def LSTAR_def SFMASK_def)

text \<open>
  C32: Once \<^verbatim>\<open>init_syscall\<close> has run, \<^verbatim>\<open>syscall\<close> enters \<^verbatim>\<open>sys_handler\<close> with the kernel's code and data
  selectors, and \<^verbatim>\<open>sys_handler\<close> goes back to the instruction after \<^verbatim>\<open>syscall\<close> with the ring 3
  selectors, whatever the code and the arguments. The caller's flags are lost: it continues with
  all of them clear and interrupts disabled.
\<close>

theorem syscall_returns:
  assumes "canonical_addr after"
  shows "\<exists>c'. sys_handler compiled (init_syscall d h t) (syscall_insn (init_syscall d h t) after c) = Some c' \<and>
    rip (syscall_insn (init_syscall d h t) after c) = h \<and> cs (syscall_insn (init_syscall d h t) after c) = 8 \<and>
    ss (syscall_insn (init_syscall d h t) after c) = 16 \<and>
    rip c' = after \<and> cs c' = 0x2B \<and> ss c' = 0x23 \<and> rflags c' = 2 \<and> \<not> bit (rflags c') 9"
  using assms
  by (simp add: sys_handler_def sysretq_def syscall_insn_def cli_def init_syscall_msrs bit_numeral_rec)

theorem syscall_returns_witness:
  "\<exists>c'. sys_handler (\<lambda>_ c. c) (init_syscall pic_device 0x7000 [])
      (syscall_insn (init_syscall pic_device 0x7000 []) 0x400002
        \<lparr>rax = 1, rcx = 0, rdx = 0, rsi = 0, rdi = 0, r8 = 0, r9 = 0, r10 = 0, r11 = 0, rsp = 0x8000, rip = 0x400000,
         rflags = 0x202, cs = 0x2B, ss = 0x23\<rparr>) = Some c' \<and> rip c' = 0x400002 \<and> \<not> bit (rflags c') 9"
  using syscall_returns [of "0x400002" "\<lambda>_ c. c" pic_device "0x7000" "[]"
    "\<lparr>rax = 1, rcx = 0, rdx = 0, rsi = 0, rdi = 0, r8 = 0, r9 = 0, r10 = 0, r11 = 0, rsp = 0x8000, rip = 0x400000,
      rflags = 0x202, cs = 0x2B, ss = 0x23\<rparr>"]
  by (auto simp: canonical_addr_def)

text \<open>
  C31: \<^verbatim>\<open>enter_userspace(RIP, RSP)\<close> continues in ring 3 at the address \<^verbatim>\<open>RSP\<close>, whatever \<^verbatim>\<open>RIP\<close> is: its first
  instruction overwrites the register that holds \<^verbatim>\<open>RIP\<close>.
\<close>

theorem enter_userspace_loses_rip:
  assumes "canonical_addr RSP"
  shows "\<exists>c'. enter_userspace (init_syscall d h t) RIP RSP c = Some c' \<and> rip c' = RSP \<and> rsp c' = RSP \<and>
    cs c' = 0x2B \<and> ss c' = 0x23 \<and> rflags c' = 0x202"
  using assms by (simp add: enter_userspace_def sysretq_def init_syscall_msrs)

theorem enter_userspace_loses_rip_witness:
  "\<exists>c'. enter_userspace (init_syscall pic_device 0x7000 []) 0x400000 0x8000
      \<lparr>rax = 1, rcx = 0, rdx = 0, rsi = 0, rdi = 0, r8 = 0, r9 = 0, r10 = 0, r11 = 0, rsp = 0, rip = 0,
       rflags = 2, cs = 8, ss = 16\<rparr> = Some c' \<and> rip c' \<noteq> 0x400000"
  using enter_userspace_loses_rip [of "0x8000" pic_device "0x7000" "[]" "0x400000"
    "\<lparr>rax = 1, rcx = 0, rdx = 0, rsi = 0, rdi = 0, r8 = 0, r9 = 0, r10 = 0, r11 = 0, rsp = 0, rip = 0,
       rflags = 2, cs = 8, ss = 16\<rparr>"]
  by (auto simp: canonical_addr_def)

end
