(* ===== verification/FAT.thy ===== *)
theory FAT
  imports FileTypes
begin

text \<open>
  The FAT32 reader (\<^verbatim>\<open>kernel/fs/FAT.c\<close>): \<^verbatim>\<open>fat_setup\<close>, \<^verbatim>\<open>find_fat_entry\<close>, \<^verbatim>\<open>fat_read\<close> and \<^verbatim>\<open>fat_filesize\<close>
  over byte memory and the disk driver. The addresses of local buffers are arguments. Loops that
  follow cluster chains or search directories may run forever and are partial.
\<close>

section \<open>Set-up\<close>

definition FEPS :: u32 where "FEPS = 128"

definition FAT_buffer_at :: "mem \<Rightarrow> u64 \<Rightarrow> u32 \<Rightarrow> u32" where
  "FAT_buffer_at m b c = load_le m (b + 4 * ucast c) 4"

definition chain_goes_on :: "u32 \<Rightarrow> bool" where
  "chain_goes_on c \<longleftrightarrow> c AND 0x0FFFFFFF < 0x0FFFFFF0"

text \<open>
  The loop that counts the clusters of the root directory. The test of line 35 indexes the buffer
  of one sector with the whole cluster number.
\<close>

partial_function (option) count_root ::
  "device \<Rightarrow> u64 \<Rightarrow> u64 \<Rightarrow> u32 \<Rightarrow> u32 \<Rightarrow> u16 \<Rightarrow> fsys \<Rightarrow> (u16 \<times> fsys) option" where
  "count_root d base buf disk current_cluster n s = do {
     s \<leftarrow> (if current_cluster div FEPS \<noteq> FAT_buffer_at (fs_mem s) buf current_cluster div FEPS
          then read_sec d (base + ucast (current_cluster div FEPS)) 1 buf disk s else Some s);
     let next_cluster = FAT_buffer_at (fs_mem s) buf (current_cluster mod FEPS);
     (if chain_goes_on next_cluster then count_root d base buf disk next_cluster (n + 1) s else Some (n, s))
   }"

text \<open>
  \<^term>\<open>bpb\<close> and \<^term>\<open>buf\<close> are the addresses of the locals \<^verbatim>\<open>BPB\<close> and \<^verbatim>\<open>FAT_buffer\<close>. A sector size of zero
  traps; the product of line 26 is computed in \<^verbatim>\<open>int\<close> and undefined when it overflows. The size
  asked of \<^verbatim>\<open>malloc\<close> is \<^verbatim>\<open>sizeof(fat_fs_info)\<close>.
\<close>

definition fat_setup :: "device \<Rightarrow> u64 \<Rightarrow> u64 \<Rightarrow> u32 \<Rightarrow> u32 \<Rightarrow> fsys \<Rightarrow> fsys option" where
  "fat_setup d bpb buf disk part s = do {
     info \<leftarrow> disk_part s disk part;
     s \<leftarrow> read_sec d (p_loc info) 1 bpb disk s;
     let B = bootrecord_at (fs_mem s) bpb;
     let bps = br_bytes_per_sector B;
     (if bps = 0 \<or> unat (reserved_sectors B) * unat bps \<ge> 2 ^ 31 then None
      else do {
       let root_secs = ucast ((ucast (br_root_entries B) * 32 + (ucast bps - 1)) div ucast bps :: u32);
       let fatloc = (ucast (reserved_sectors B) * ucast bps) div 512;
       let dataloc = fatloc + ucast (FAT_count B) * ((sectors_per_FAT B * ucast bps) div 512) - 2;
       let cluster = br_root_cluster B;
       s \<leftarrow> read_sec d (p_loc info + ucast fatloc + ucast (cluster div FEPS)) 1 buf disk s;
       (n, s) \<leftarrow> count_root d (p_loc info + ucast fatloc) buf disk cluster 1 s;
       let B' = bootrecord_at (fs_mem s) bpb;
       let fs_info = \<lparr>sector_count = (if sector_count_small B' \<noteq> 0 then ucast (sector_count_small B')
                        else sector_count_large B'),
                      bytes_per_sector = bps, sectors_per_cluster = br_sectors_per_cluster B,
                      sectors_per_fat = sectors_per_FAT B, fat_count = FAT_count B,
                      root_entries = br_root_entries B, root_sectors = root_secs,
                      root_cluster = cluster, root_clusters = n, fat_loc = fatloc, data_loc = dataloc\<rparr>;
       (a, s) \<leftarrow> fs_malloc 36 s;
       Some (set_part disk part (info\<lparr>p_fs := fat32, p_fsdata := Some fs_info\<rparr>) s)
     })
   }"

section \<open>Looking up a path\<close>

definition bytes_per_cluster :: "fat_fs_info \<Rightarrow> u32" where
  "bytes_per_cluster fs = ucast (bytes_per_sector fs) * ucast (sectors_per_cluster fs)"

definition cluster_lba :: "u64 \<Rightarrow> fat_fs_info \<Rightarrow> u32 \<Rightarrow> u64" where
  "cluster_lba partoffset fs c = partoffset + ucast (data_loc fs) + ucast (c * ucast (sectors_per_cluster fs))"

definition fat_lba :: "u64 \<Rightarrow> fat_fs_info \<Rightarrow> u32 \<Rightarrow> u64" where
  "fat_lba partoffset fs c = partoffset + ucast (fat_loc fs) + ucast (c div FEPS)"

text \<open>A piece of a long name goes to the place its order number says.\<close>

definition lfn_place :: "mem \<Rightarrow> u64 \<Rightarrow> u64 \<Rightarrow> u64" where
  "lfn_place m filename current = filename + (ucast (lfn_order m current AND 0x1F) - 1) * 13"

definition lfn_piece :: "u64 \<Rightarrow> u64 \<Rightarrow> u64 \<Rightarrow> mem \<Rightarrow> mem" where
  "lfn_piece filename charbuf current m =
     (let m = wcatomba m charbuf (lfn_first current) 5;
          m = fst (memcpy m (lfn_place m filename current) charbuf 5);
          m = wcatomba m charbuf (lfn_middle current) 6;
          m = fst (memcpy m (lfn_place m filename current + 5) charbuf 6);
          m = wcatomba m charbuf (lfn_last current) 2
      in fst (memcpy m (lfn_place m filename current + 11) charbuf 2))"

function copy_name :: "u64 \<Rightarrow> u64 \<Rightarrow> nat \<Rightarrow> mem \<Rightarrow> mem \<times> nat" where
  "copy_name filename current j m =
     (let c = m (current + of_nat j); m = m(filename + of_nat j := c)
      in if c \<noteq> 32 \<and> j < 8 then copy_name filename current (Suc j) m else (m, j))"
  by pat_completeness auto
termination
  by (relation "measure (\<lambda>(_, _, j, _). 8 - j)") auto

declare copy_name.simps [simp del]

definition short_name :: "u64 \<Rightarrow> u64 \<Rightarrow> mem \<Rightarrow> mem" where
  "short_name filename current m =
     (let (m, j) = copy_name filename current 0 m;
          m = m(filename + of_nat j := 46);
          m = fst (memcpy m (filename + of_nat j + 1) (current + 8) 3)
      in m(filename + of_nat j + 4 := 0))"

text \<open>
  The labels of \<^verbatim>\<open>find_fat_entry\<close>: the two \<^verbatim>\<open>goto\<close> targets, the head of the \<^verbatim>\<open>for\<close> loop, the head of the
  loop over pieces of a long name, and the comparison.
\<close>

datatype fat_label = Inloop | Inloop2 | For | While_LFN | Compare

record fat_walk =
  w_active :: u32
  w_current :: u64
  w_i :: u32
  w_len :: u32
  w_depth :: u32

record fat_env =
  w_dev :: device
  w_disk :: u32
  w_loc :: u64
  w_fs :: fat_fs_info
  w_path :: u64
  w_entry :: u64
  w_filename :: u64
  w_charbuf :: u64
  w_fatbuf :: u64
  w_buffer :: u64

definition entries_per_cluster :: "fat_fs_info \<Rightarrow> u32" where
  "entries_per_cluster fs = bytes_per_cluster fs div 32"

text \<open>Lines 179, 180 and 203, 204: the next sector of the table, indexed with the old cluster.\<close>

definition next_dir_cluster :: "fat_env \<Rightarrow> fat_walk \<Rightarrow> fsys \<Rightarrow> (fat_walk \<times> fsys) option" where
  "next_dir_cluster e w s = do {
     s \<leftarrow> read_sec (w_dev e) (fat_lba (w_loc e) (w_fs e) (FAT_buffer_at (fs_mem s) (w_fatbuf e) (w_active w mod FEPS)))
          (ucast (sectors_per_cluster (w_fs e))) (w_fatbuf e) (w_disk e) s;
     Some (w\<lparr>w_active := FAT_buffer_at (fs_mem s) (w_fatbuf e) (w_active w mod FEPS)\<rparr>, s)
   }"

partial_function (option) find_loop ::
  "fat_env \<Rightarrow> fat_label \<Rightarrow> fat_walk \<Rightarrow> fsys \<Rightarrow> (int \<times> fsys) option" where
  "find_loop e l w s = (case l of
     Inloop \<Rightarrow> do {
       s \<leftarrow> read_sec (w_dev e) (cluster_lba (w_loc e) (w_fs e) (w_active w))
            (ucast (sectors_per_cluster (w_fs e))) (w_buffer e) (w_disk e) s;
       find_loop e Inloop2 w s
     }
   | Inloop2 \<Rightarrow> find_loop e For (w\<lparr>w_current := w_buffer e, w_i := 0\<rparr>) s
   | For \<Rightarrow>
       if w_i w < entries_per_cluster (w_fs e) then
         if fs_mem s (w_current w + 11) = FAT_LFN then find_loop e While_LFN w s
         else find_loop e Compare w (s\<lparr>fs_mem := short_name (w_filename e) (w_current w) (fs_mem s)\<rparr>)
       else do {
         (w, s) \<leftarrow> next_dir_cluster e w s;
         (if chain_goes_on (w_active w) then find_loop e Inloop w s else Some (2, s))
       }
   | While_LFN \<Rightarrow>
       if fs_mem s (w_current w + 11) = FAT_LFN then
         (let s = s\<lparr>fs_mem := lfn_piece (w_filename e) (w_charbuf e) (w_current w) (fs_mem s)\<rparr>;
              w = w\<lparr>w_len := w_len w + 13, w_current := w_current w + 32, w_i := w_i w + 1\<rparr> in
          if w_i w \<ge> entries_per_cluster (w_fs e) then do {
            (w, s) \<leftarrow> next_dir_cluster e w s;
            find_loop e Inloop2 w s
          }
          else find_loop e While_LFN w s)
       else find_loop e Compare (w\<lparr>w_len := 0\<rparr>)
         (s\<lparr>fs_mem := (fs_mem s)(w_filename e + ucast (w_len w) := 0)\<rparr>)
   | Compare \<Rightarrow> do {
       r \<leftarrow> strcmp (fs_mem s) (w_filename e) (load64 (fs_mem s) (w_path e + 8 * ucast (w_depth w)));
       (if r = 0 then
          (let E = FAT_entry_at (fs_mem s) (w_current w);
               w = w\<lparr>w_active := first_cluster E\<rparr>;
               s = s\<lparr>fs_mem := fst (memcpy (fs_mem s) (w_entry e) (w_current w) 32)\<rparr> in
           if fs_mem s (w_current w + 11) AND DIRECTORY = 0 then Some (0, s)
           else find_loop e Inloop (w\<lparr>w_depth := w_depth w + 1\<rparr>) s)
        else find_loop e For (w\<lparr>w_current := w_current w + 32, w_i := w_i w + 1\<rparr>) s)
     })"

definition find_fat_entry ::
  "device \<Rightarrow> u64 \<Rightarrow> u64 \<Rightarrow> u64 \<Rightarrow> FILE \<Rightarrow> fsys \<Rightarrow> (int \<times> fsys) option" where
  "find_fat_entry d charbuf ent filename fp s = do {
     (disk, part, info) \<leftarrow> volume_part s (f_volume fp);
     fs_info \<leftarrow> p_fsdata info;
     let active = root_cluster fs_info;
     (fatbuf, s) \<leftarrow> fs_malloc SECTOR_SIZE s;
     (buffer, s) \<leftarrow> fs_malloc (ucast (bytes_per_cluster fs_info)) s;
     s \<leftarrow> read_sec d (fat_lba (p_loc info) fs_info active) 1 fatbuf disk s;
     find_loop \<lparr>w_dev = d, w_disk = disk, w_loc = p_loc info, w_fs = fs_info, w_path = f_path fp,
         w_entry = ent, w_filename = filename, w_charbuf = charbuf, w_fatbuf = fatbuf, w_buffer = buffer\<rparr>
       Inloop \<lparr>w_active = active, w_current = buffer, w_i = 0, w_len = 0, w_depth = 0\<rparr> s
   }"

definition fat_filesize :: "device \<Rightarrow> u64 \<Rightarrow> u64 \<Rightarrow> u64 \<Rightarrow> FILE \<Rightarrow> fsys \<Rightarrow> (u64 \<times> FILE \<times> fsys) option" where
  "fat_filesize d charbuf ent filename fp s = do {
     (r, s) \<leftarrow> find_fat_entry d charbuf ent filename fp s;
     let n = ucast (e_size (FAT_entry_at (fs_mem s) ent));
     Some (n, fp\<lparr>f_size := n\<rparr>, s)
   }"

section \<open>Reading\<close>

text \<open>Lines 80 to 83 and 99 to 102.\<close>

definition follow :: "device \<Rightarrow> u32 \<Rightarrow> u64 \<Rightarrow> fat_fs_info \<Rightarrow> u64 \<Rightarrow> u32 \<Rightarrow> fsys \<Rightarrow> (u32 \<times> fsys) option" where
  "follow d disk loc fs buf active s = do {
     let next_cluster = FAT_buffer_at (fs_mem s) buf (active mod FEPS);
     s \<leftarrow> (if active div FEPS \<noteq> next_cluster div FEPS
          then read_sec d (fat_lba loc fs next_cluster) (ucast (sectors_per_cluster fs)) buf disk s else Some s);
     Some (FAT_buffer_at (fs_mem s) buf (active mod FEPS), s)
   }"

primrec skip_clusters ::
  "nat \<Rightarrow> device \<Rightarrow> u32 \<Rightarrow> u64 \<Rightarrow> fat_fs_info \<Rightarrow> u64 \<Rightarrow> u32 \<Rightarrow> fsys \<Rightarrow> (u32 \<times> fsys) option" where
  "skip_clusters 0 d disk loc fs buf active s = Some (active, s)"
| "skip_clusters (Suc n) d disk loc fs buf active s = do {
     (active, s) \<leftarrow> follow d disk loc fs buf active s;
     skip_clusters n d disk loc fs buf active s
   }"

definition read_cluster :: "device \<Rightarrow> u32 \<Rightarrow> u64 \<Rightarrow> fat_fs_info \<Rightarrow> u64 \<Rightarrow> u32 \<Rightarrow> fsys \<Rightarrow> fsys option" where
  "read_cluster d disk loc fs buffer active s =
     read_sec d (cluster_lba loc fs active) ((bytes_per_sector fs div 512) * ucast (sectors_per_cluster fs)) buffer disk s"

definition copy_out :: "u64 \<Rightarrow> u64 \<Rightarrow> u64 \<Rightarrow> fsys \<Rightarrow> fsys" where
  "copy_out ptr src n s = s\<lparr>fs_mem := fst (memcpy (fs_mem s) ptr src n)\<rparr>"

text \<open>The main loop; when the chain leaves the sector of the table the cluster is not advanced.\<close>

partial_function (option) read_loop ::
  "device \<Rightarrow> u32 \<Rightarrow> u64 \<Rightarrow> fat_fs_info \<Rightarrow> u64 \<Rightarrow> u64 \<Rightarrow> u64 \<Rightarrow> u64 \<Rightarrow> u32 \<Rightarrow> fsys \<Rightarrow> fsys option" where
  "read_loop d disk loc fs buf buffer ptr nbytes active s = do {
     s \<leftarrow> read_cluster d disk loc fs buffer active s;
     let bpc = ucast (bytes_per_cluster fs);
     (if nbytes > bpc then do {
        let s = copy_out ptr buffer bpc s;
        let next_cluster = FAT_buffer_at (fs_mem s) buf (active mod FEPS);
        (active, s) \<leftarrow> (if active div FEPS \<noteq> next_cluster div FEPS
           then (case read_sec d (fat_lba loc fs next_cluster) (ucast (sectors_per_cluster fs)) buf disk s of
                   None \<Rightarrow> None | Some s \<Rightarrow> Some (active, s))
           else Some (next_cluster, s));
        (if chain_goes_on active
         then read_loop d disk loc fs buf buffer (ptr + bpc) (nbytes - bpc) active s
         else Some s)
      }
      else Some (copy_out ptr buffer nbytes s))
   }"

text \<open>
  Lines 86 to 123; the flag says that the request ended inside its first, partial cluster, where the
  function returns at once.
\<close>

definition read_from ::
  "device \<Rightarrow> u32 \<Rightarrow> u64 \<Rightarrow> fat_fs_info \<Rightarrow> u64 \<Rightarrow> u64 \<Rightarrow> u64 \<Rightarrow> u64 \<Rightarrow> u64 \<Rightarrow> u32 \<Rightarrow> fsys \<Rightarrow> (bool \<times> fsys) option" where
  "read_from d disk loc fs buf buffer ptr nbytes off active s =
     (let bpc = ucast (bytes_per_cluster fs) in
      if off \<noteq> 0 then do {
        s \<leftarrow> read_cluster d disk loc fs buffer active s;
        (if nbytes > bpc - off then do {
           let s = copy_out ptr (buffer + off) (bpc - off) s;
           (active, s) \<leftarrow> follow d disk loc fs buf active s;
           s \<leftarrow> read_loop d disk loc fs buf buffer (ptr + (bpc - off)) (nbytes - (bpc - off)) active s;
           Some (False, s)
         }
         else Some (True, copy_out ptr (buffer + off) nbytes s))
      }
      else do {
        s \<leftarrow> read_loop d disk loc fs buf buffer ptr nbytes active s;
        Some (False, s)
      })"

definition fat_read ::
  "device \<Rightarrow> u64 \<Rightarrow> u64 \<Rightarrow> u64 \<Rightarrow> u64 \<Rightarrow> u64 \<Rightarrow> FILE \<Rightarrow> fsys \<Rightarrow> (u64 \<times> fsys) option" where
  "fat_read d charbuf ent filename ptr nbytes fp s = do {
     (disk, part, info) \<leftarrow> volume_part s (f_volume fp);
     let loc = p_loc info;
     fs \<leftarrow> p_fsdata info;
     let bpc = ucast (bytes_per_cluster fs);
     (if bpc = 0 then None
      else do {
       let skipped = (ucast (f_pointer fp div bpc) :: u32);
       (buf, s) \<leftarrow> fs_malloc SECTOR_SIZE s;
       (buffer, s) \<leftarrow> fs_malloc bpc s;
       (r, s) \<leftarrow> find_fat_entry d charbuf ent filename fp s;
       let active = first_cluster (FAT_entry_at (fs_mem s) ent);
       s \<leftarrow> read_sec d (fat_lba loc fs active) 1 buf disk s;
       (active, s) \<leftarrow> skip_clusters (unat skipped) d disk loc fs buf active s;
       (early, s) \<leftarrow> read_from d disk loc fs buf buffer ptr nbytes (f_pointer fp mod bpc) active s;
       (if early then Some (nbytes, s)
        else do {
         s \<leftarrow> fs_free buf s;
         Some (nbytes, s)
       })
     })
   }"

section \<open>Cluster chains\<close>

text \<open>The cell of the table for a cluster, on disk, and the chains the cells form.\<close>

definition fat_cell :: "(u64 \<Rightarrow> nat \<Rightarrow> u8) \<Rightarrow> u64 \<Rightarrow> u32 \<Rightarrow> u32" where
  "fat_cell sec base c = image_le (sec (base + ucast (c div FEPS))) (4 * unat (c mod FEPS)) 4"

primrec chain :: "(u32 \<Rightarrow> u32) \<Rightarrow> u32 \<Rightarrow> u32 list \<Rightarrow> bool" where
  "chain cell c [] \<longleftrightarrow> \<not> chain_goes_on c"
| "chain cell c (x # xs) \<longleftrightarrow> x = c \<and> chain_goes_on c \<and> chain cell (cell c) xs"

definition one_sector :: "u32 list \<Rightarrow> bool" where
  "one_sector cs \<longleftrightarrow> (\<forall>c \<in> set cs. \<forall>c' \<in> set cs. c div FEPS = c' div FEPS)"

lemma one_sectorD: "one_sector cs \<Longrightarrow> c \<in> set cs \<Longrightarrow> c' \<in> set cs \<Longrightarrow> c div FEPS = c' div FEPS"
  unfolding one_sector_def by blast

lemma one_sector_tl: "one_sector (x # xs) \<Longrightarrow> one_sector xs"
  unfolding one_sector_def by (meson list.set_intros(2))

definition holds_sector :: "(u64 \<Rightarrow> nat \<Rightarrow> u8) \<Rightarrow> u64 \<Rightarrow> u64 \<Rightarrow> u32 \<Rightarrow> fsys \<Rightarrow> bool" where
  "holds_sector sec base buf c s \<longleftrightarrow>
     (\<forall>k < 512. fs_mem s (buf + of_nat k) = sec (base + ucast (c div FEPS)) k)"

lemma unat_FEPS: "unat (c mod FEPS) < 128" "unat (c div FEPS) = unat c div 128" "unat (c mod FEPS) = unat c mod 128"
  by (simp_all add: FEPS_def unat_mod unat_div)

lemma FAT_buffer_cell:
  assumes "holds_sector sec base buf q s" and "c div FEPS = q div FEPS"
  shows "FAT_buffer_at (fs_mem s) buf (c mod FEPS) = fat_cell sec base c"
  unfolding FAT_buffer_at_def fat_cell_def
proof (rule load_le_image)
  fix j :: nat
  assume "j < 4"
  have "4 * ucast (c mod FEPS) + of_nat j = (of_nat (4 * unat (c mod FEPS) + j) :: u64)" by simp
  then have "buf + 4 * ucast (c mod FEPS) + of_nat j = buf + of_nat (4 * unat (c mod FEPS) + j)"
    by (simp only: add.assoc)
  moreover have "4 * unat (c mod FEPS) + j < 512" using unat_FEPS(1) [of c] \<open>j < 4\<close> by simp
  ultimately show "fs_mem s (buf + 4 * ucast (c mod FEPS) + of_nat j) =
      sec (base + ucast (c div FEPS)) (4 * unat (c mod FEPS) + j)"
    using assms by (simp only: holds_sector_def)
qed simp

context sector_source
begin

lemma read_table_sector:
  "\<exists>s'. read_sec d (base + ucast (c div FEPS)) 1 buf disk s = Some s' \<and> touched [(buf, 512)] s s' \<and>
     holds_sector (sec disk) base buf c s'"
  using read_sec_returns [of "base + ucast (c div FEPS)" 1 buf disk s] by (simp add: holds_sector_def)

lemma count_root_counts:
  assumes "chain (fat_cell (sec disk) base) c cs" and "cs \<noteq> []" and "one_sector cs" and "holds_sector (sec disk) base buf c s"
  shows "\<exists>s'. count_root d base buf disk c n s = Some (n + of_nat (length cs - 1), s') \<and> touched [(buf, 512)] s s'"
  using assms
proof (induction cs arbitrary: c n s)
  case Nil
  then show ?case by simp
next
  case (Cons x xs)
  let ?cell = "fat_cell (sec disk) base"
  define b where "b \<longleftrightarrow> c div FEPS \<noteq> FAT_buffer_at (fs_mem s) buf c div FEPS"
  have "\<exists>s1. (if b then read_sec d (base + ucast (c div FEPS)) 1 buf disk s else Some s) = Some s1 \<and>
    touched [(buf, 512)] s s1 \<and> holds_sector (sec disk) base buf c s1"
    using Cons.prems(4) read_table_sector [of base c buf disk s] by (cases b) simp_all
  then obtain s1 where s1: "(if b then read_sec d (base + ucast (c div FEPS)) 1 buf disk s else Some s) = Some s1"
    "touched [(buf, 512)] s s1" "holds_sector (sec disk) base buf c s1" by blast
  have next_c: "FAT_buffer_at (fs_mem s1) buf (c mod FEPS) = ?cell c" using s1(3) by (intro FAT_buffer_cell) simp_all
  have x: "x = c" "chain ?cell (?cell c) xs" using Cons.prems(1) by simp_all
  have step: "count_root d base buf disk c n s =
      (if chain_goes_on (?cell c) then count_root d base buf disk (?cell c) (n + 1) s1 else Some (n, s1))"
    by (subst count_root.simps) (simp add: s1(1) next_c Let_def flip: b_def)
  show ?case
  proof (cases xs)
    case Nil
    with x(2) s1(2) show ?thesis by (simp add: step)
  next
    case (Cons y ys)
    then have y: "chain_goes_on (?cell c)" "y = ?cell c" using x(2) by simp_all
    have "y div FEPS = c div FEPS" using one_sectorD [OF Cons.prems(3)] x(1) Cons by (metis list.set_intros)
    then have "?cell c div FEPS = c div FEPS" by (simp only: y(2))
    then have h: "holds_sector (sec disk) base buf (?cell c) s1" using s1(3) by (simp only: holds_sector_def)
    have "one_sector xs" using Cons.prems(3) by (rule one_sector_tl)
    from Cons.IH [OF x(2) _ this h, of "n + 1"] Cons obtain s' where
      "count_root d base buf disk (?cell c) (n + 1) s1 = Some (n + 1 + of_nat (length xs - 1), s')"
      "touched [(buf, 512)] s1 s'" by auto
    with y(1) Cons touched_trans [OF s1(2) this(2)] show ?thesis by (simp add: step)
  qed
qed

end

section \<open>Mounting\<close>

definition boot_of :: "(nat \<Rightarrow> u8) \<Rightarrow> bootrecord" where
  "boot_of g = bootrecord_at (\<lambda>x. g (unat x)) 0"

text \<open>The layout of a partition by its boot record, in sectors of 512 bytes from its start.\<close>

definition fat_start :: "bootrecord \<Rightarrow> nat" where
  "fat_start B = unat (reserved_sectors B) * unat (br_bytes_per_sector B) div 512"

definition first_data :: "bootrecord \<Rightarrow> nat" where
  "first_data B = fat_start B +
     unat (FAT_count B) * (unat (sectors_per_FAT B) * unat (br_bytes_per_sector B) div 512)"

definition mountable ::
  "(u32 \<Rightarrow> u64 \<Rightarrow> nat \<Rightarrow> u8) \<Rightarrow> u64 \<Rightarrow> u64 \<Rightarrow> u32 \<Rightarrow> u32 \<Rightarrow> partinfo \<Rightarrow> u32 list \<Rightarrow> fsys \<Rightarrow> bool" where
  "mountable sec bpb buf disk part info cs s \<longleftrightarrow>
     (let B = boot_of (sec disk (p_loc info)) in
      disk_part s disk part = Some info \<and> heap_ok (fs_heap s) \<and> apart (bpb, 512) (buf, 512) \<and>
      br_bytes_per_sector B \<noteq> 0 \<and> unat (reserved_sectors B) * unat (br_bytes_per_sector B) < 2 ^ 31 \<and>
      chain (fat_cell (sec disk) (p_loc info + of_nat (fat_start B))) (br_root_cluster B) cs \<and> cs \<noteq> [] \<and>
      one_sector cs)"

lemma mountableD:
  assumes "mountable sec bpb buf disk part info cs s" and "B = boot_of (sec disk (p_loc info))"
  shows "disk_part s disk part = Some info" "heap_ok (fs_heap s)" "apart (bpb, 512) (buf, 512)"
    "br_bytes_per_sector B \<noteq> 0" "unat (reserved_sectors B) * unat (br_bytes_per_sector B) < 2 ^ 31"
    "chain (fat_cell (sec disk) (p_loc info + of_nat (fat_start B))) (br_root_cluster B) cs" "cs \<noteq> []"
    "one_sector cs"
  using assms by (simp_all add: mountable_def Let_def)

lemma unat_ucast_small [simp]:
  "unat (ucast (x :: u16) :: u32) = unat x" "unat (ucast (y :: u8) :: u32) = unat y" "unat (ucast (y :: u8) :: u16) = unat y"
  by (simp_all add: unsigned_ucast_eq take_bit_nat_eq_self_iff order_less_trans [OF unsigned_less [of x]]
      order_less_trans [OF unsigned_less [of y]])

lemma fat_start_word:
  assumes "unat (reserved_sectors B) * unat (br_bytes_per_sector B) < 2 ^ 31"
  shows "unat ((ucast (reserved_sectors B) * ucast (br_bytes_per_sector B)) div 512 :: u32) = fat_start B"
    and "ucast ((ucast (reserved_sectors B) * ucast (br_bytes_per_sector B)) div 512 :: u32) = (of_nat (fat_start B) :: u64)"
proof -
  have "unat (ucast (reserved_sectors B) * ucast (br_bytes_per_sector B) :: u32) =
      unat (reserved_sectors B) * unat (br_bytes_per_sector B)"
    using assms by (simp add: unat_word_ariths)
  then show u: "unat ((ucast (reserved_sectors B) * ucast (br_bytes_per_sector B)) div 512 :: u32) = fat_start B"
    by (simp add: unat_div fat_start_def)
  show "ucast ((ucast (reserved_sectors B) * ucast (br_bytes_per_sector B)) div 512 :: u32) = (of_nat (fat_start B) :: u64)"
    by (simp flip: u)
qed

lemma disk_part_set:
  assumes "disk_part s disk part = Some info"
  shows "disk_part (set_part disk part p s) disk part = Some p"
    and "q \<noteq> disk \<or> r \<noteq> part \<Longrightarrow> disk_part (set_part disk part p s) q r = disk_part s q r"
  using assms
  by (auto simp: disk_part_def set_part_def Let_def nth_list_update word_unat_eq_iff split: if_splits)

lemma disk_part_cong: "disktable s' = disktable s \<Longrightarrow> disk_part s' q r = disk_part s q r"
  by (simp add: disk_part_def)

lemma volume_part_cong: "disktable s' = disktable s \<Longrightarrow> volumes s' = volumes s \<Longrightarrow> volume_part s' v = volume_part s v"
  using disk_part_cong [of s' s] by (simp add: volume_part_def)

context sector_source
begin

lemma fat_setup_result:
  assumes m: "mountable sec bpb buf disk part info cs s" and B: "B = boot_of (sec disk (p_loc info))"
  shows "\<exists>s' fs. fat_setup d bpb buf disk part s = Some s' \<and>
    disk_part s' disk part = Some (info\<lparr>p_fs := fat32, p_fsdata := Some fs\<rparr>) \<and>
    (\<forall>q r. q \<noteq> disk \<or> r \<noteq> part \<longrightarrow> disk_part s' q r = disk_part s q r) \<and> heap_ok (fs_heap s') \<and>
    bytes_per_sector fs = br_bytes_per_sector B \<and> sectors_per_cluster fs = br_sectors_per_cluster B \<and>
    sector_count fs = (if sector_count_small B \<noteq> 0 then ucast (sector_count_small B) else sector_count_large B) \<and>
    root_cluster fs = br_root_cluster B \<and> root_clusters fs = of_nat (length cs) \<and> unat (fat_loc fs) = fat_start B \<and>
    data_loc fs = fat_loc fs + ucast (FAT_count B) * ((sectors_per_FAT B * ucast (br_bytes_per_sector B)) div 512) - 2"
proof -
  note M = mountableD [OF m B]
  let ?fat = "(ucast (reserved_sectors B) * ucast (br_bytes_per_sector B)) div 512 :: u32"
  let ?base = "p_loc info + ucast ?fat" and ?c = "br_root_cluster B"
  have base: "?base = p_loc info + of_nat (fat_start B)" using fat_start_word(2) [OF M(5)] by simp
  obtain s1 where s1: "read_sec d (p_loc info) 1 bpb disk s = Some s1" "touched [(bpb, 512)] s s1"
    "\<And>k. k < 512 \<Longrightarrow> fs_mem s1 (bpb + of_nat k) = sec disk (p_loc info) k"
    using read_sec_returns [of "p_loc info" 1 bpb disk s] by auto
  have B1: "bootrecord_at (fs_mem s1) bpb = B" using bootrecord_image [of "fs_mem s1" bpb "sec disk (p_loc info)"] s1(3) by (simp add: B boot_of_def)
  obtain s2 where s2: "read_sec d (?base + ucast (?c div FEPS)) 1 buf disk s1 = Some s2" "touched [(buf, 512)] s1 s2"
    "holds_sector (sec disk) ?base buf ?c s2" using read_table_sector [of ?base ?c buf disk s1] by blast
  obtain s3 where s3: "count_root d ?base buf disk ?c 1 s2 = Some (1 + of_nat (length cs - 1), s3)"
    "touched [(buf, 512)] s2 s3"
    using count_root_counts [OF _ M(7,8) s2(3), of 1] M(6) base by auto
  have "1 + of_nat (length cs - 1) = (of_nat (length cs) :: u16)" using M(7) by (cases cs) simp_all
  note n = s3(1) [unfolded this]
  have t: "touched [(bpb, 512), (buf, 512)] s s3"
    by (rule touched_mono [OF touched_then [OF s1(2) touched_then [OF s2(2) s3(2)]]]) simp
  then have "heap_ok (fs_heap s3)" using touched_fields(5) M(2) by metis
  then obtain a k where k: "fs_malloc 36 s3 = Some (a, s3\<lparr>fs_heap := k\<rparr>)" "heap_ok k"
    using fs_malloc_returns by blast
  have dp: "disk_part (s3\<lparr>fs_heap := k\<rparr>) q r = disk_part s q r" for q r
    using touched_fields(3) [OF t] by (intro disk_part_cong) simp
  have s3k: "disk_part (s3\<lparr>fs_heap := k\<rparr>) disk part = Some info" using dp M(1) by simp
  have heap: "fs_heap (set_part disk part p s') = fs_heap s'" for p s' by (simp add: set_part_def Let_def)
  have "fs_mem s3 (bpb + of_nat j) = sec disk (p_loc info) j" if "j < 512" for j
    using touched_mem [OF touched_then [OF s2(2) s3(2)], of "bpb + of_nat j"] apartD [OF M(3) that] that s1(3) by simp
  then have B3: "bootrecord_at (fs_mem s3) bpb = B"
    using bootrecord_image [of "fs_mem s3" bpb "sec disk (p_loc info)"] by (simp add: B boot_of_def)
  define fs where "fs = \<lparr>sector_count = (if sector_count_small B \<noteq> 0 then ucast (sector_count_small B) else sector_count_large B),
      bytes_per_sector = br_bytes_per_sector B, sectors_per_cluster = br_sectors_per_cluster B,
      sectors_per_fat = sectors_per_FAT B, fat_count = FAT_count B, root_entries = br_root_entries B,
      root_sectors = ucast ((ucast (br_root_entries B) * 32 + (ucast (br_bytes_per_sector B) - 1)) div ucast (br_bytes_per_sector B) :: u32),
      root_cluster = ?c, root_clusters = of_nat (length cs), fat_loc = ?fat,
      data_loc = ?fat + ucast (FAT_count B) * ((sectors_per_FAT B * ucast (br_bytes_per_sector B)) div 512) - 2\<rparr>"
  have "fat_setup d bpb buf disk part s =
      Some (set_part disk part (info\<lparr>p_fs := fat32, p_fsdata := Some fs\<rparr>) (s3\<lparr>fs_heap := k\<rparr>))"
    unfolding fat_setup_def fs_def using M(4,5) by (simp add: M(1) s1(1) B1 B3 s2(1) n k(1) Let_def)
  moreover have "bytes_per_sector fs = br_bytes_per_sector B \<and> sectors_per_cluster fs = br_sectors_per_cluster B \<and>
    sector_count fs = (if sector_count_small B \<noteq> 0 then ucast (sector_count_small B) else sector_count_large B) \<and>
    root_cluster fs = br_root_cluster B \<and> root_clusters fs = of_nat (length cs) \<and> unat (fat_loc fs) = fat_start B \<and>
    data_loc fs = fat_loc fs + ucast (FAT_count B) * ((sectors_per_FAT B * ucast (br_bytes_per_sector B)) div 512) - 2"
    using fat_start_word(1) [OF M(5)] by (simp add: fs_def)
  moreover note disk_part_set [OF s3k, where p = "info\<lparr>p_fs := fat32, p_fsdata := Some fs\<rparr>"] dp k(2)
    heap [of "info\<lparr>p_fs := fat32, p_fsdata := Some fs\<rparr>" "s3\<lparr>fs_heap := k\<rparr>"]
  ultimately show ?thesis by auto
qed

end


text \<open>A small volume: boot record, table, root directory with two files, and the files' clusters.\<close>

definition demo_byte :: "u64 \<Rightarrow> nat \<Rightarrow> u8" where
  "demo_byte lba off =
     (case map_of (if lba = 0 then [(12, 2), (13, 1), (14, 1), (16, 1), (36, 1), (44, 2)]
        else if lba = 1 then [(8, 255), (9, 255), (10, 255), (11, 15), (12, 255), (13, 255), (14, 255), (15, 15),
          (16, 255), (17, 255), (18, 255), (19, 15)]
        else if lba = 2 then [(0, 65), (1, 32), (8, 84), (9, 88), (10, 84), (11, 32), (26, 3), (28, 5),
          (32, 84), (33, 32), (40, 84), (41, 71), (42, 65), (43, 32), (58, 4), (60, 22)]
        else if lba = 3 then [(0, 104), (1, 101), (2, 108), (3, 108), (4, 111)]
        else if lba = 4 then [(12, 1), (14, 1), (18, 7)] else []) off of
        None \<Rightarrow> 0 | Some b \<Rightarrow> b)"

definition demo_disk :: "bool \<Rightarrow> u64 \<Rightarrow> nat \<Rightarrow> u16" where
  "demo_disk = (\<lambda>_. words_of demo_byte)"

definition demo_part :: partinfo where
  "demo_part = \<lparr>p_loc = 0, p_size = 4, p_fs = none, p_fsdata = None\<rparr>"

definition demo_fsys :: fsys where
  "demo_fsys = \<lparr>files_addr = 0, files = [], disktable = [\<lparr>disk_blocks = 4, parts = [demo_part]\<rparr>],
     volumes = [\<lparr>v_disk = 0, v_partition = 0\<rparr>], fs_heap = fresh, fs_mem = (\<lambda>_. 0), fs_io = []\<rparr>"

lemma demo_bytes:
  "off < 512 \<Longrightarrow> disk_bytes (\<lambda>_. demo_disk) disk lba off = demo_byte (take_bit 48 lba) off"
  by (simp add: disk_bytes_def demo_disk_def sector_byte_words)

lemma demo_boot:
  assumes "B = boot_of (disk_bytes (\<lambda>_. demo_disk) 0 0)"
  shows "br_bytes_per_sector B = 512" "reserved_sectors B = 1" "br_root_cluster B = 2" "br_sectors_per_cluster B = 1"
    "FAT_count B = 1" "sectors_per_FAT B = 1"
  unfolding assms by (simp_all add: boot_of_def bootrecord_at_def load_le_numeral demo_bytes demo_byte_def)

lemma demo_mountable: "mountable (disk_bytes (\<lambda>_. demo_disk)) 0x1000 0x2000 0 0 demo_part [2] demo_fsys"
proof -
  let ?B = "boot_of (disk_bytes (\<lambda>_. demo_disk) 0 0)"
  note B = demo_boot [OF refl]
  have cell: "fat_cell (disk_bytes (\<lambda>_. demo_disk) 0) 1 2 = 0x0FFFFFFF"
    by (simp add: fat_cell_def FEPS_def image_le_def load_le_numeral demo_bytes demo_byte_def take_bit_numeral_numeral)
  have "chain (fat_cell (disk_bytes (\<lambda>_. demo_disk) 0) 1) 2 [2]" by (simp add: cell chain_goes_on_def)
  moreover have "apart (0x1000, 512) (0x2000, 512)" by (rule apart_ranges) simp_all
  moreover have "disk_part demo_fsys 0 0 = Some demo_part" by (simp add: disk_part_def demo_fsys_def)
  moreover have "heap_ok (fs_heap demo_fsys)" by (simp add: demo_fsys_def fresh_ok)
  moreover have "p_loc demo_part = 0" by (simp add: demo_part_def)
  ultimately show ?thesis
    unfolding mountable_def Let_def by (simp add: B fat_start_def one_sector_def)
qed




end
