(* ===== verification/FATRead.thy ===== *)
theory FATRead
  imports FAT
begin

text \<open>
  What the FAT reader finds: short file names as text, the lookup of a path through the first
  clusters of directories, and the bytes of a file along its chain of clusters.
\<close>

section \<open>Short names\<close>

text \<open>The text of an entry's name, given its bytes: at most eight characters, a dot, three characters.\<close>

definition short_text :: "(nat \<Rightarrow> u8) \<Rightarrow> u8 list" where
  "short_text g = takeWhile (\<lambda>c. c \<noteq> 0) (takeWhile (\<lambda>c. c \<noteq> 32) (map g [0..<8]) @ 46 # map g [8..<11])"

lemma near_distinct:
  assumes "i < n" and "j < n" and "n \<le> 2 ^ 32"
  shows "a + of_nat i = a + (of_nat j :: u64) \<longleftrightarrow> i = j"
proof -
  have "unat (of_nat i :: u64) = i" "unat (of_nat j :: u64) = j" using assms by simp_all
  then show ?thesis by (metis add_left_cancel)
qed

lemma apart_ne:
  assumes "apart (a, n) (b, k)" and "i < n" and "j < k" and "n \<le> 2 ^ 32" and "k \<le> 2 ^ 32"
  shows "a + of_nat i \<noteq> b + of_nat j" "b + of_nat j \<noteq> a + of_nat i"
proof -
  have j: "unat (of_nat j :: u64) = j" using assms by simp
  have "i < 2 ^ 64" using assms by simp
  note D = apartD [OF assms(1,2) this]
  show *: "a + of_nat i \<noteq> b + of_nat j"
  proof
    assume "a + of_nat i = b + of_nat j"
    with D j assms(3) show False by simp
  qed
  show "b + of_nat j \<noteq> a + of_nat i" by (rule not_sym [OF *])
qed

lemma region_elem: "unat (x - a) < n \<Longrightarrow> \<exists>k < n. x = a + of_nat k" for x a :: u64
  by (intro exI [of _ "unat (x - a)"]) simp

lemma cstr_takeWhile:
  "(\<forall>j < length s. m (a + of_nat j) = s ! j) \<Longrightarrow> m (a + of_nat (length s)) = 0 \<Longrightarrow> cstr m a (takeWhile (\<lambda>c. c \<noteq> 0) s)"
proof (induction s arbitrary: a)
  case (Cons c s)
  have "m (a + 1 + of_nat j) = s ! j" if "j < length s" for j
    using Cons.prems(1) that by (auto simp: All_less_Suc2 add.assoc)
  moreover have "m (a + 1 + of_nat (length s)) = 0" using Cons.prems(2) by (simp add: add.assoc)
  ultimately have "cstr m (a + 1) (takeWhile (\<lambda>c. c \<noteq> 0) s)" using Cons.IH by blast
  with Cons.prems(1) show ?case by (auto simp: All_less_Suc2)
qed simp

text \<open>The loop copies up to the first blank, or eight characters and one more that is overwritten later.\<close>

lemma copy_name_copies:
  assumes "apart (filename, 13) (current, 32)" and "j \<le> 8" and "\<And>k. k < 32 \<Longrightarrow> m (current + of_nat k) = g k"
  shows "\<exists>m' n. copy_name filename current j m = (m', n) \<and> n = j + length (takeWhile (\<lambda>c. c \<noteq> 32) (map g [j..<8])) \<and>
    (\<forall>k. j \<le> k \<and> k < n \<longrightarrow> m' (filename + of_nat k) = g k) \<and>
    (\<forall>x. (\<forall>k. j \<le> k \<and> k \<le> n \<longrightarrow> x \<noteq> filename + of_nat k) \<longrightarrow> m' x = m x)"
  using assms(2,3)
proof (induction "8 - j" arbitrary: j m)
  case 0
  then have "j = 8" by simp
  then have "copy_name filename current j m = (m(filename + of_nat j := m (current + of_nat j)), j)"
    by (subst copy_name.simps) (simp add: Let_def)
  then show ?case using \<open>j = 8\<close> by auto
next
  case (Suc d)
  let ?m = "m(filename + of_nat j := g j)"
  have j: "j < 8" using Suc.hyps(2) by simp
  have g: "m (current + of_nat j) = g j" using Suc.prems(2) j by simp
  show ?case
  proof (cases "g j = 32")
    case True
    have "takeWhile (\<lambda>c. c \<noteq> 32) (map g [j..<8]) = []" using True j by (simp add: upt_conv_Cons)
    moreover have "copy_name filename current j m = (?m, j)"
      using True by (subst copy_name.simps) (simp add: Let_def g)
    ultimately show ?thesis by auto
  next
    case False
    have keep: "?m (current + of_nat k) = g k" if "k < 32" for k
      using apart_ne(2) [OF assms(1), of j k] j Suc.prems(2) [OF that] that by simp
    have "d = 8 - Suc j" "Suc j \<le> 8" using Suc.hyps(2) by simp_all
    from Suc.hyps(1) [OF this, of ?m] keep obtain m' n where
      m': "copy_name filename current (Suc j) ?m = (m', n)" "n = Suc j + length (takeWhile (\<lambda>c. c \<noteq> 32) (map g [Suc j..<8]))"
      "\<And>k. Suc j \<le> k \<Longrightarrow> k < n \<Longrightarrow> m' (filename + of_nat k) = g k"
      "\<And>x. (\<forall>k. Suc j \<le> k \<and> k \<le> n \<longrightarrow> x \<noteq> filename + of_nat k) \<Longrightarrow> m' x = ?m x" by blast
    have n: "n = j + length (takeWhile (\<lambda>c. c \<noteq> 32) (map g [j..<8]))"
      using m'(2) False j by (simp add: upt_conv_Cons)
    have "length (takeWhile (\<lambda>c. c \<noteq> 32) (map g [Suc j..<8])) \<le> 8 - Suc j"
      using length_takeWhile_le [of "\<lambda>c. c \<noteq> 32" "map g [Suc j..<8]"] by simp
    then have le: "n \<le> 8" using m'(2) j by simp
    have "m' (filename + of_nat j) = ?m (filename + of_nat j)"
      by (rule m'(4)) (use near_distinct [of j 9 _ filename] le j in auto)
    then have at: "m' (filename + of_nat k) = g k" if "j \<le> k" "k < n" for k
      using m'(3) [of k] that by (cases "k = j") auto
    have "m' x = m x" if "\<forall>k. j \<le> k \<and> k \<le> n \<longrightarrow> x \<noteq> filename + of_nat k" for x
      using that m'(4) [of x] m'(2) by auto
    moreover have "copy_name filename current j m = (m', n)"
      using m'(1) False j by (subst copy_name.simps) (simp add: Let_def g)
    ultimately show ?thesis using n at by blast
  qed
qed

lemma short_name_text:
  assumes "apart (filename, 13) (current, 32)" and "\<And>k. k < 32 \<Longrightarrow> m (current + of_nat k) = g k"
  shows "cstr (short_name filename current m) filename (short_text g)"
    and "13 \<le> unat (x - filename) \<Longrightarrow> short_name filename current m x = m x"
proof -
  obtain m1 n where m1: "copy_name filename current 0 m = (m1, n)" "n = length (takeWhile (\<lambda>c. c \<noteq> 32) (map g [0..<8]))"
    "\<And>k. k < n \<Longrightarrow> m1 (filename + of_nat k) = g k"
    "\<And>x. (\<forall>k \<le> n. x \<noteq> filename + of_nat k) \<Longrightarrow> m1 x = m x"
    using copy_name_copies [OF assms(1), of 0 m g] assms(2) by auto
  have n: "n \<le> 8" using length_takeWhile_le [of "\<lambda>c. c \<noteq> 32" "map g [0..<8]"] m1(2) by simp
  note D = near_distinct [where n = 13 and a = filename]
  let ?m2 = "m1(filename + of_nat n := 46)"
  have cur: "?m2 (current + of_nat k) = g k" if "k < 32" for k
  proof -
    have "filename + of_nat j \<noteq> current + of_nat k" if "j \<le> n" for j
      using apart_ne(1) [OF assms(1), of j k] that n \<open>k < 32\<close> by simp
    then have "current + of_nat k \<noteq> filename + of_nat j" if "j \<le> n" for j using that by metis
    then show ?thesis using m1(4) [of "current + of_nat k"] assms(2) [OF that] by simp
  qed
  let ?d = "filename + of_nat n + 1" and ?s = "current + 8"
  have dd: "?d = filename + of_nat (n + 1)" by (simp add: add.assoc)
  have ap: "unat (3 :: u64) \<le> unat (?d - ?s)"
  proof (rule ccontr)
    assume "\<not> ?thesis"
    then obtain j where j: "j < 3" "?d = ?s + of_nat j" using region_elem [of ?d ?s 3] by auto
    then have "filename + of_nat (n + 1) = current + of_nat (8 + j)" by (simp add: dd [symmetric] add.assoc)
    with apart_ne(1) [OF assms(1), of "n + 1" "8 + j"] n j(1) show False by simp
  qed
  let ?m3 = "fst (memcpy ?m2 ?d ?s 3)"
  have m3: "?m3 x = (if unat (x - ?d) < 3 then ?m2 (?s + (x - ?d)) else ?m2 x)" for x
    using memcpy_loop_apply [of 3 ?d ?s ?m2 x] ap by (simp add: memcpy_def)
  have full: "short_name filename current m = ?m3(filename + of_nat n + 4 := 0)"
    by (simp add: short_name_def m1(1))
  let ?raw = "takeWhile (\<lambda>c. c \<noteq> 32) (map g [0..<8]) @ 46 # map g [8..<11]"
  have len: "length ?raw = n + 4" using m1(2) by simp
  have dk: "?d + of_nat k = filename + of_nat (n + 1 + k)" for k by (simp add: add.assoc)
  have m3_in: "?m3 (filename + of_nat (n + 1 + k)) = g (8 + k)" if "k < 3" for k
    using m3 [of "?d + of_nat k"] cur [of "8 + k"] that by (simp add: dk [symmetric] ac_simps)
  have m3_out: "?m3 (filename + of_nat k) = ?m2 (filename + of_nat k)" if "k \<le> n" for k
  proof -
    have "filename + of_nat k \<noteq> filename + of_nat (n + 1 + j)" if "j < 3" for j
      using D [of k "n + 1 + j"] that \<open>k \<le> n\<close> n by simp
    then have "\<not> unat (filename + of_nat k - ?d) < 3" using region_elem [of "filename + of_nat k" ?d 3] dk by metis
    then show ?thesis using m3 by simp
  qed
  have last: "filename + of_nat n + 4 = filename + of_nat (n + 4)" by (simp add: add.assoc)
  have at: "short_name filename current m (filename + of_nat j) = ?raw ! j" if "j < n + 4" for j
  proof -
    have "filename + of_nat j \<noteq> filename + of_nat (n + 4)" using D [of j "n + 4"] that n by simp
    then have "short_name filename current m (filename + of_nat j) = ?m3 (filename + of_nat j)"
      by (simp add: full last)
    also have "\<dots> = ?raw ! j"
    proof (cases "j \<le> n")
      case True
      then show ?thesis
        using m3_out [OF True] m1(2,3) D [of j n] n
        by (cases "j = n") (simp_all add: nth_append takeWhile_nth)
    next
      case False
      then obtain k where k: "j = n + 1 + k" "k < 3" using \<open>j < n + 4\<close> by (intro that [of "j - n - 1"]) auto
      moreover have "[g 8, g 9, g 10] ! k = g (8 + k)" using k(2) by (auto simp: numeral_3_eq_3 less_Suc_eq)
      ultimately have "?raw ! j = g (8 + k)" using m1(2) by (auto simp: nth_append)
      then show ?thesis using m3_in [OF k(2)] k(1) by simp
    qed
    finally show ?thesis .
  qed
  have end0: "short_name filename current m (filename + of_nat (length ?raw)) = 0"
    unfolding len by (simp add: full last)
  show "cstr (short_name filename current m) filename (short_text g)"
    unfolding short_text_def by (rule cstr_takeWhile) (use at len end0 in simp_all)
  assume x: "13 \<le> unat (x - filename)"
  have ne: "x \<noteq> filename + of_nat k" if "k < 13" for k using x that unat_of_nat_small [of k] by auto
  have "\<not> unat (x - ?d) < 3"
  proof
    assume "unat (x - ?d) < 3"
    then obtain k where "k < 3" "x = filename + of_nat (n + 1 + k)" using region_elem dk by metis
    with ne [of "n + 1 + k"] n show False by simp
  qed
  then show "short_name filename current m x = m x"
    using ne [of "n + 4"] ne [of n] m1(4) [of x] ne n m3 [of x] by (simp add: full last)
qed

section \<open>Paths\<close>

text \<open>
  The entry a name has in a directory's first cluster of \<^term>\<open>n\<close> entries (no result when a piece of a
  long name comes first), and the entry a path leads to from a directory.
\<close>

definition lookup_dir :: "(nat \<Rightarrow> u8) \<Rightarrow> nat \<Rightarrow> u8 list \<Rightarrow> (nat \<Rightarrow> u8) option" where
  "lookup_dir dirb n name =
     (case scan (\<lambda>j. dirb (32 * j + 11) = FAT_LFN \<or> short_text (\<lambda>x. dirb (32 * j + x)) = name) 0 n of
        None \<Rightarrow> None
      | Some j \<Rightarrow> if dirb (32 * j + 11) = FAT_LFN then None else Some (\<lambda>x. dirb (32 * j + x)))"

definition entry_of :: "(nat \<Rightarrow> u8) \<Rightarrow> FAT_entry" where
  "entry_of g = FAT_entry_at (\<lambda>x. g (unat x)) 0"

fun resolve :: "(u32 \<Rightarrow> nat \<Rightarrow> u8) \<Rightarrow> nat \<Rightarrow> u32 \<Rightarrow> u8 list list \<Rightarrow> (nat \<Rightarrow> u8) option" where
  "resolve cl n c [] = None"
| "resolve cl n c (name # names) =
     (case lookup_dir (cl c) n name of
        None \<Rightarrow> None
      | Some g \<Rightarrow>
          if g 11 AND DIRECTORY = 0 then (if names = [] then Some g else None)
          else resolve cl n (first_cluster (entry_of g)) names)"

text \<open>The components of a path in memory: an array of pointers to strings, all at safe addresses.\<close>

primrec path_at :: "mem \<Rightarrow> (u64 \<Rightarrow> bool) \<Rightarrow> u64 \<Rightarrow> u8 list list \<Rightarrow> bool" where
  "path_at m safe a [] \<longleftrightarrow> True"
| "path_at m safe a (name # names) \<longleftrightarrow>
     cstr m (load64 m a) name \<and> (\<forall>j \<le> length name. safe (load64 m a + of_nat j)) \<and>
     (\<forall>j < 8. safe (a + of_nat j)) \<and> path_at m safe (a + 8) names"

lemma path_at_cong:
  assumes "\<And>x. safe x \<Longrightarrow> m' x = m x"
  shows "path_at m safe a names \<Longrightarrow> path_at m' safe a names"
proof (induction names arbitrary: a)
  case (Cons name names)
  then have "load64 m' a = load64 m a" using assms by (intro load_le_cong) simp
  moreover have "cstr m' (load64 m a) name = cstr m (load64 m a) name" using Cons.prems assms by (intro cstr_cong) simp
  ultimately show ?case using Cons by simp
qed simp

lemma path_at_safe: "(\<And>x. safe x \<Longrightarrow> safe' x) \<Longrightarrow> path_at m safe a names \<Longrightarrow> path_at m safe' a names"
  by (induction names arbitrary: a) simp_all

lemma entry_image:
  assumes "\<And>k. k < 32 \<Longrightarrow> m (a + of_nat k) = g k"
  shows "FAT_entry_at m a = entry_of g"
proof -
  have R: "load_le m (a + of_nat off) n = (load_le (\<lambda>x. g (unat x)) (of_nat off) n :: 'a::len word)"
    if "off + n \<le> 32" for off n
  proof (rule load_le_shift)
    fix j
    assume "j < n"
    then show "m (a + of_nat off + of_nat j) = g (unat (of_nat off + of_nat j :: u64))"
      using assms [of "off + j"] unat_of_nat_small [of "off + j"] that by (simp add: add.assoc)
  qed
  have B: "bytes_at m (a + of_nat off) n = bytes_at (\<lambda>x. g (unat x)) (of_nat off) n" if "off + n \<le> 32" for off n
  proof -
    have "m (a + of_nat off + of_nat j) = g (unat (of_nat off + of_nat j :: u64))" if "j < n" for j
      using assms [of "off + j"] unat_of_nat_small [of "off + j"] that \<open>off + n \<le> 32\<close> by (simp add: add.assoc)
    then show ?thesis by (simp add: bytes_at_def)
  qed
  have M: "m (a + of_nat off) = g (unat (of_nat off :: u64))" if "off < 32" for off
    using assms [OF that] unat_of_nat_small [of off] that by simp
  show ?thesis
    unfolding FAT_entry_at_def entry_of_def
    using R [of 14 2] R [of 16 2] R [of 18 2] R [of 20 2] R [of 22 2] R [of 24 2] R [of 26 2] R [of 28 4]
      B [of 0 8] B [of 8 3] M [of 11] M [of 12] M [of 13]
    by simp
qed

section \<open>The search loop\<close>

text \<open>What the search writes, and what it has to find untouched.\<close>

definition written :: "fat_env \<Rightarrow> (u64 \<times> nat) list" where
  "written e = [(w_filename e, 13), (w_buffer e, 512 * unat (sectors_per_cluster (w_fs e))), (w_entry e, 32)]"

definition dir_cluster :: "(u32 \<Rightarrow> u64 \<Rightarrow> nat \<Rightarrow> u8) \<Rightarrow> fat_env \<Rightarrow> u32 \<Rightarrow> nat \<Rightarrow> u8" where
  "dir_cluster sec e c = sec (w_disk e) (cluster_lba (w_loc e) (w_fs e) c)"

definition search_env :: "fat_env \<Rightarrow> bool" where
  "search_env e \<longleftrightarrow> bytes_per_sector (w_fs e) = 512 \<and>
     apart (w_filename e, 13) (w_buffer e, 512 * unat (sectors_per_cluster (w_fs e))) \<and>
     apart (w_entry e, 32) (w_buffer e, 512 * unat (sectors_per_cluster (w_fs e)))"

definition dir_entries :: "fat_fs_info \<Rightarrow> nat" where
  "dir_entries fs = 16 * unat (sectors_per_cluster fs)"

definition found :: "fat_env \<Rightarrow> fat_walk \<Rightarrow> fsys \<Rightarrow> (int \<times> fsys) option" where
  "found e w s =
     (let E = FAT_entry_at (fs_mem s) (w_current w);
          w = w\<lparr>w_active := first_cluster E\<rparr>;
          s = s\<lparr>fs_mem := fst (memcpy (fs_mem s) (w_entry e) (w_current w) 32)\<rparr> in
      if fs_mem s (w_current w + 11) AND DIRECTORY = 0 then Some (0, s)
      else find_loop e Inloop (w\<lparr>w_depth := w_depth w + 1\<rparr>) s)"

lemma spc_bound: "unat (sectors_per_cluster fs) < 256"
  using unsigned_less [of "sectors_per_cluster fs"] by simp

lemma entries_512:
  assumes "bytes_per_sector fs = 512"
  shows "unat (entries_per_cluster fs) = dir_entries fs"
proof -
  have "unat (512 * ucast (sectors_per_cluster fs) :: u32) = 512 * unat (sectors_per_cluster fs)"
    using spc_bound [of fs] by (simp add: unat_word_ariths)
  then show ?thesis using assms by (simp add: entries_per_cluster_def bytes_per_cluster_def unat_div dir_entries_def)
qed

lemma region_sub:
  assumes "k \<le> unat (x - b)" and "j + l \<le> k" and "k \<le> 2 ^ 64"
  shows "l \<le> unat (x - (b + of_nat j) :: u64)"
proof (rule ccontr)
  assume "\<not> ?thesis"
  then obtain i where i: "i < l" "x = b + of_nat j + of_nat i" using region_elem by (meson not_le)
  then have "x - b = of_nat (j + i)" by simp
  moreover have "j + i < 2 ^ 64" using i(1) assms(2,3) by simp
  ultimately have "unat (x - b) = j + i" by (simp only: unat_of_nat_small)
  with assms(1,2) i(1) show False by simp
qed

lemma apart_sub: "apart (a, n) (b, k) \<Longrightarrow> j + l \<le> k \<Longrightarrow> k \<le> 2 ^ 64 \<Longrightarrow> apart (a, n) (b + of_nat j, l)"
  using region_sub [of k _ b j l] unfolding apart_def fst_conv snd_conv by blast

lemma apart_shrink: "apart (a, n) (b, k) \<Longrightarrow> n' \<le> n \<Longrightarrow> k' \<le> k \<Longrightarrow> apart (a, n') (b, k')"
  unfolding apart_def fst_conv snd_conv by (meson order_less_le_trans order_trans)

lemma entry_step:
  assumes e: "search_env e" and i: "j < dir_entries (w_fs e)" "w_i w = of_nat j" "w_current w = w_buffer e + of_nat (32 * j)"
    and dirb: "\<And>k. k < 32 * dir_entries (w_fs e) \<Longrightarrow> fs_mem s (w_buffer e + of_nat k) = dirb k"
    and lfn: "dirb (32 * j + 11) \<noteq> FAT_LFN"
    and path: "path_at (fs_mem s) (outside (written e)) (w_path e + 8 * ucast (w_depth w)) (name # names)"
    and s1: "s1 = s\<lparr>fs_mem := short_name (w_filename e) (w_current w) (fs_mem s)\<rparr>"
  shows "touched [(w_filename e, 13)] s s1"
    and "find_loop e For w s = (if short_text (\<lambda>x. dirb (32 * j + x)) = name then found e w s1
      else find_loop e For (w\<lparr>w_current := w_current w + 32, w_i := w_i w + 1\<rparr>) s1)"
proof -
  let ?spc = "unat (sectors_per_cluster (w_fs e))"
  have n: "32 * dir_entries (w_fs e) = 512 * ?spc" by (simp add: dir_entries_def)
  have small: "512 * ?spc < 2 ^ 17" using spc_bound [of "w_fs e"] by simp
  have cur: "fs_mem s (w_current w + of_nat k) = dirb (32 * j + k)" if "k < 32" for k
    using dirb [of "32 * j + k"] that i(1) by (simp add: i(3) add.assoc)
  have "apart (w_filename e, 13) (w_buffer e + of_nat (32 * j), 32)"
    by (rule apart_sub [where k = "512 * ?spc"]) (use e i(1) n small in \<open>simp_all add: search_env_def\<close>)
  then have ap: "apart (w_filename e, 13) (w_current w, 32)" by (simp add: i(3))
  note T = short_name_text [OF ap, of "fs_mem s" "\<lambda>k. dirb (32 * j + k)", OF cur]
  show t: "touched [(w_filename e, 13)] s s1" using T(2) by (simp add: touched_def s1)
  let ?pa = "w_path e + 8 * ucast (w_depth w)"
  have same: "fs_mem s1 x = fs_mem s x" if "outside (written e) x" for x
    using touched_mem [OF t] that by (simp add: written_def)
  from path_at_cong [of "outside (written e)" "fs_mem s1" "fs_mem s", OF same path]
  have "cstr (fs_mem s1) (load64 (fs_mem s1) ?pa) name" by simp
  moreover have "cstr (fs_mem s1) (w_filename e) (short_text (\<lambda>x. dirb (32 * j + x)))" using T(1) by (simp add: s1)
  ultimately have cmp: "strcmp (fs_mem s1) (w_filename e) (load64 (fs_mem s1) ?pa) =
      Some (strcmp_ref (short_text (\<lambda>x. dirb (32 * j + x))) name)"
    by (intro strcmp_eq_ref)
  have "w_i w < entries_per_cluster (w_fs e)"
  proof -
    have "dir_entries (w_fs e) < 2 ^ 32" using spc_bound [of "w_fs e"] by (simp add: dir_entries_def)
    then have "unat (w_i w) = j" using i(1,2) by (simp add: unat_of_nat)
    with i(1) entries_512 [of "w_fs e"] e show ?thesis by (simp add: word_less_nat_alt search_env_def)
  qed
  moreover have "fs_mem s (w_current w + 11) \<noteq> FAT_LFN" using cur [of 11] lfn by simp
  ultimately have "find_loop e For w s = find_loop e Compare w s1"
    by (subst find_loop.simps) (simp add: s1)
  also have "\<dots> = (if short_text (\<lambda>x. dirb (32 * j + x)) = name then found e w s1
      else find_loop e For (w\<lparr>w_current := w_current w + 32, w_i := w_i w + 1\<rparr>) s1)"
    by (subst find_loop.simps) (simp add: cmp strcmp_ref_0_iff found_def Let_def)
  finally show "find_loop e For w s = (if short_text (\<lambda>x. dirb (32 * j + x)) = name then found e w s1
      else find_loop e For (w\<lparr>w_current := w_current w + 32, w_i := w_i w + 1\<rparr>) s1)" .
qed

lemma dir_scan:
  assumes e: "search_env e" and i: "i \<le> k" "k < dir_entries (w_fs e)"
    and w: "w_i w = of_nat i" "w_current w = w_buffer e + of_nat (32 * i)"
    and dirb: "\<And>j. j < 32 * dir_entries (w_fs e) \<Longrightarrow> fs_mem s (w_buffer e + of_nat j) = dirb j"
    and lfn: "\<And>j. i \<le> j \<Longrightarrow> j \<le> k \<Longrightarrow> dirb (32 * j + 11) \<noteq> FAT_LFN"
    and names: "\<And>j. i \<le> j \<Longrightarrow> j < k \<Longrightarrow> short_text (\<lambda>x. dirb (32 * j + x)) \<noteq> name"
    and hit: "short_text (\<lambda>x. dirb (32 * k + x)) = name"
    and path: "path_at (fs_mem s) (outside (written e)) (w_path e + 8 * ucast (w_depth w)) (name # names)"
  shows "\<exists>s'. touched [(w_filename e, 13)] s s' \<and>
    find_loop e For w s = found e (w\<lparr>w_i := of_nat k, w_current := w_buffer e + of_nat (32 * k)\<rparr>) s'"
  using i(1) w dirb lfn names path
proof (induction "k - i" arbitrary: i w s)
  case 0
  then have k: "i = k" by simp
  let ?s = "s\<lparr>fs_mem := short_name (w_filename e) (w_current w) (fs_mem s)\<rparr>"
  note step = entry_step [OF e, of i w s dirb name names ?s]
  have w_eq: "w\<lparr>w_i := of_nat k, w_current := w_buffer e + of_nat (32 * k)\<rparr> = w" using 0(3,4) k by simp
  show ?case unfolding w_eq using step 0(3-8) i(2) hit k by (intro exI [of _ ?s]) simp
next
  case (Suc d)
  let ?s = "s\<lparr>fs_mem := short_name (w_filename e) (w_current w) (fs_mem s)\<rparr>"
  let ?w = "w\<lparr>w_current := w_current w + 32, w_i := w_i w + 1\<rparr>"
  have ik: "i < k" "i < dir_entries (w_fs e)" using Suc.hyps(2) i(2) by simp_all
  note step = entry_step [OF e ik(2), of w s dirb name names ?s]
  have t: "touched [(w_filename e, 13)] s ?s" using step(1) Suc.prems ik by simp
  have f: "find_loop e For w s = find_loop e For ?w ?s" using step(2) Suc.prems ik by simp
  have same: "fs_mem ?s x = fs_mem s x" if "13 \<le> unat (x - w_filename e)" for x
    using touched_mem [OF t, of x] that by simp
  have "13 \<le> unat (w_buffer e + of_nat j - w_filename e)" if "j < 32 * dir_entries (w_fs e)" for j
    using apartD [where j = j and a = "w_buffer e"] apart_sym e that spc_bound [of "w_fs e"]
    by (auto simp: search_env_def dir_entries_def)
  then have dirb': "fs_mem ?s (w_buffer e + of_nat j) = dirb j" if "j < 32 * dir_entries (w_fs e)" for j
    using same Suc.prems(4) that by metis
  have path': "path_at (fs_mem ?s) (outside (written e)) (w_path e + 8 * ucast (w_depth ?w)) (name # names)"
    using path_at_cong [OF _ Suc.prems(7), of "fs_mem ?s"] same by (simp add: written_def)
  have "\<exists>s'. touched [(w_filename e, 13)] ?s s' \<and>
    find_loop e For ?w ?s = found e (?w\<lparr>w_i := of_nat k, w_current := w_buffer e + of_nat (32 * k)\<rparr>) s'"
    by (rule Suc.hyps(1) [of "Suc i"])
      (use Suc.hyps(2) Suc.prems ik dirb' path' in \<open>simp_all add: algebra_simps\<close>)
  then obtain s' where s': "touched [(w_filename e, 13)] ?s s'"
    "find_loop e For ?w ?s = found e (?w\<lparr>w_i := of_nat k, w_current := w_buffer e + of_nat (32 * k)\<rparr>) s'" by blast
  have "?w\<lparr>w_i := of_nat k, w_current := w_buffer e + of_nat (32 * k)\<rparr> =
    w\<lparr>w_i := of_nat k, w_current := w_buffer e + of_nat (32 * k)\<rparr>" by simp
  moreover have "touched [(w_filename e, 13)] s s'" by (rule touched_trans [OF t s'(1)]) simp_all
  ultimately show ?case using s'(2) f by metis
qed

lemma lookup_dirD:
  assumes "lookup_dir dirb n name = Some g"
  obtains k where "k < n" "g = (\<lambda>x. dirb (32 * k + x))" "\<And>j. j \<le> k \<Longrightarrow> dirb (32 * j + 11) \<noteq> FAT_LFN"
    "\<And>j. j < k \<Longrightarrow> short_text (\<lambda>x. dirb (32 * j + x)) \<noteq> name" "short_text (\<lambda>x. dirb (32 * k + x)) = name"
proof -
  from assms obtain k where k: "scan (\<lambda>j. dirb (32 * j + 11) = FAT_LFN \<or> short_text (\<lambda>x. dirb (32 * j + x)) = name) 0 n = Some k"
    "dirb (32 * k + 11) \<noteq> FAT_LFN" "g = (\<lambda>x. dirb (32 * k + x))"
    by (auto simp: lookup_dir_def split: option.splits if_splits)
  note S = scan_zeroD [OF k(1)]
  show ?thesis
  proof (rule that)
    show "k < n" by (rule S(1))
    show "dirb (32 * j + 11) \<noteq> FAT_LFN" if "j \<le> k" for j using S(3) [of j] k(2) that by (cases "j = k") auto
  qed (use S k in auto)
qed

text \<open>What a match does: the entry is copied, and a directory is entered.\<close>

lemma found_entry:
  assumes e: "search_env e" and k: "k < dir_entries (w_fs e)" "w_current w = w_buffer e + of_nat (32 * k)"
    and h: "\<And>j. j < 32 * dir_entries (w_fs e) \<Longrightarrow> fs_mem s (w_buffer e + of_nat j) = dirb j" "h = (\<lambda>x. dirb (32 * k + x))"
  shows "\<exists>s'. touched [(w_entry e, 32)] s s' \<and> (\<forall>x < 32. fs_mem s' (w_entry e + of_nat x) = h x) \<and>
    found e w s = (if h 11 AND DIRECTORY = 0 then Some (0, s')
      else find_loop e Inloop (w\<lparr>w_active := first_cluster (entry_of h), w_depth := w_depth w + 1\<rparr>) s')"
proof -
  let ?len = "512 * unat (sectors_per_cluster (w_fs e))" and ?s = "s\<lparr>fs_mem := fst (memcpy (fs_mem s) (w_entry e) (w_current w) 32)\<rparr>"
  have small: "?len \<le> 2 ^ 64" using spc_bound [of "w_fs e"] by simp
  have cur: "fs_mem s (w_current w + of_nat x) = h x" if "x < 32" for x
    using h(1) [of "32 * k + x"] that k by (simp add: h(2) add.assoc)
  have "apart (w_entry e, 32) (w_buffer e + of_nat (32 * k), 32)"
    by (rule apart_sub [where k = ?len]) (use e k(1) small in \<open>simp_all add: search_env_def dir_entries_def\<close>)
  then have ap: "apart (w_entry e, 32) (w_current w, 32)" by (simp add: k(2))
  have "32 \<le> unat (w_entry e - w_current w)" using apartD [OF ap, of 0] by simp
  then have m: "fs_mem ?s x = (if unat (x - w_entry e) < 32 then fs_mem s (w_current w + (x - w_entry e)) else fs_mem s x)" for x
    using memcpy_loop_apply [of 32 "w_entry e" "w_current w" "fs_mem s" x] by (simp add: memcpy_def)
  have at: "fs_mem ?s (w_entry e + of_nat x) = h x" if "x < 32" for x
    using m [of "w_entry e + of_nat x"] cur [OF that] that by simp
  have "fs_mem ?s (w_current w + of_nat 11) = h 11"
    using m [of "w_current w + of_nat 11"] cur [of 11] apartD [OF ap [THEN iffD1 [OF apart_sym]], of 11] by auto
  then have "fs_mem ?s (w_current w + 11) = h 11" by simp
  moreover have "FAT_entry_at (fs_mem s) (w_current w) = entry_of h" using cur by (rule entry_image)
  ultimately have "found e w s = (if h 11 AND DIRECTORY = 0 then Some (0, ?s)
      else find_loop e Inloop (w\<lparr>w_active := first_cluster (entry_of h), w_depth := w_depth w + 1\<rparr>) ?s)"
    by (simp add: found_def Let_def)
  moreover have "touched [(w_entry e, 32)] s ?s" using m by (simp add: touched_def)
  ultimately show ?thesis using at by blast
qed

lemma next_component: "unat n + 1 < 2 ^ 32 \<Longrightarrow> a + 8 * ucast (n + 1) = a + 8 * ucast n + (8 :: u64)" for n :: u32
proof -
  assume "unat n + 1 < 2 ^ 32"
  then have "unat (n + 1) = unat n + 1" by (simp add: unat_word_ariths)
  then have s: "unat (n + 1) = unat n + 1" by simp
  have u: "(ucast (v :: u32) :: u64) = of_nat (unat v)" for v by simp
  show ?thesis unfolding u s of_nat_add of_nat_1 distrib_left by (simp only: mult_1_right add.assoc)
qed

context sector_source
begin

lemma read_dir:
  assumes "w_dev e = d" and "search_env e"
  shows "\<exists>s'. touched [(w_buffer e, 512 * unat (sectors_per_cluster (w_fs e)))] s s' \<and>
    (\<forall>j < 32 * dir_entries (w_fs e). fs_mem s' (w_buffer e + of_nat j) = dir_cluster sec e (w_active w) j) \<and>
    find_loop e Inloop w s = find_loop e For (w\<lparr>w_current := w_buffer e, w_i := 0\<rparr>) s'"
proof -
  let ?spc = "sectors_per_cluster (w_fs e)"
  obtain s' where s': "read_sec d (cluster_lba (w_loc e) (w_fs e) (w_active w)) (ucast ?spc) (w_buffer e) (w_disk e) s = Some s'"
    "touched [(w_buffer e, 512 * unat (ucast ?spc :: u16))] s s'"
    "\<And>k. k < 512 * unat (ucast ?spc :: u16) \<Longrightarrow> fs_mem s' (w_buffer e + of_nat k) =
       sec (w_disk e) (cluster_lba (w_loc e) (w_fs e) (w_active w)) k"
    using read_sec_returns [of "cluster_lba (w_loc e) (w_fs e) (w_active w)" "ucast ?spc" "w_buffer e" "w_disk e" s] by blast
  have "find_loop e Inloop w s = find_loop e Inloop2 w s'"
    using s'(1) assms(1) by (subst find_loop.simps) simp
  also have "\<dots> = find_loop e For (w\<lparr>w_current := w_buffer e, w_i := 0\<rparr>) s'"
    by (subst find_loop.simps) simp
  finally show ?thesis using s'(2,3) by (intro exI [of _ s']) (simp add: dir_cluster_def dir_entries_def)
qed

text \<open>The search returns the entry a path leads to, over any number of directories.\<close>

lemma find_loop_resolves:
  assumes e: "search_env e" "w_dev e = d"
  shows "resolve (dir_cluster sec e) (dir_entries (w_fs e)) (w_active w) names = Some g \<Longrightarrow>
    path_at (fs_mem s) (outside (written e)) (w_path e + 8 * ucast (w_depth w)) names \<Longrightarrow>
    unat (w_depth w) + length names < 2 ^ 32 \<Longrightarrow>
    \<exists>s'. find_loop e Inloop w s = Some (0, s') \<and> touched (written e) s s' \<and>
      (\<forall>k < 32. fs_mem s' (w_entry e + of_nat k) = g k)"
proof (induction names arbitrary: w s)
  case Nil
  then show ?case by simp
next
  case (Cons name names)
  let ?cl = "dir_cluster sec e (w_active w)" and ?n = "dir_entries (w_fs e)" and ?len = "512 * unat (sectors_per_cluster (w_fs e))"
  from Cons.prems(1) obtain h where h: "lookup_dir ?cl ?n name = Some h"
    "(if h 11 AND DIRECTORY = 0 then (if names = [] then Some h else None)
      else resolve (dir_cluster sec e) ?n (first_cluster (entry_of h)) names) = Some g"
    by (auto split: option.splits)
  obtain k where k: "k < ?n" "h = (\<lambda>x. ?cl (32 * k + x))" "\<And>j. j \<le> k \<Longrightarrow> ?cl (32 * j + 11) \<noteq> FAT_LFN"
    "\<And>j. j < k \<Longrightarrow> short_text (\<lambda>x. ?cl (32 * j + x)) \<noteq> name" "short_text (\<lambda>x. ?cl (32 * k + x)) = name"
    using lookup_dirD [OF h(1)] by blast
  obtain s1 where s1: "touched [(w_buffer e, ?len)] s s1"
    "\<And>j. j < 32 * ?n \<Longrightarrow> fs_mem s1 (w_buffer e + of_nat j) = ?cl j"
    "find_loop e Inloop w s = find_loop e For (w\<lparr>w_current := w_buffer e, w_i := 0\<rparr>) s1"
    using read_dir [OF e(2,1), of s w] by blast
  let ?w = "w\<lparr>w_i := of_nat k, w_current := w_buffer e + of_nat (32 * k)\<rparr>"
  have path1: "path_at (fs_mem s1) (outside (written e)) (w_path e + 8 * ucast (w_depth w)) (name # names)"
    by (rule path_at_cong [OF _ Cons.prems(2)]) (use touched_mem [OF s1(1)] in \<open>simp add: written_def\<close>)
  have "\<exists>s2. touched [(w_filename e, 13)] s1 s2 \<and> find_loop e For (w\<lparr>w_current := w_buffer e, w_i := 0\<rparr>) s1 =
      found e (w\<lparr>w_current := w_buffer e, w_i := 0\<rparr>\<lparr>w_i := of_nat k, w_current := w_buffer e + of_nat (32 * k)\<rparr>) s2"
    by (rule dir_scan [OF e(1) _ k(1), where dirb = ?cl and names = names and i = 0 and name = name])
      (use s1(2) k(3-5) path1 in simp_all)
  then obtain s2 where s2: "touched [(w_filename e, 13)] s1 s2"
    "find_loop e For (w\<lparr>w_current := w_buffer e, w_i := 0\<rparr>) s1 = found e ?w s2"
    by auto
  have len: "32 * ?n = ?len" "?len < 2 ^ 32" using spc_bound [of "w_fs e"] by (simp_all add: dir_entries_def)
  have "fs_mem s2 (w_buffer e + of_nat j) = ?cl j" if "j < 32 * ?n" for j
    using touched_mem [OF s2(1), of "w_buffer e + of_nat j"] s1(2) [OF that] that len e(1)
      apartD [of "w_buffer e" ?len "w_filename e" 13 j] apart_sym by (auto simp: search_env_def)
  then obtain s3 where s3: "touched [(w_entry e, 32)] s2 s3" "\<And>x. x < 32 \<Longrightarrow> fs_mem s3 (w_entry e + of_nat x) = h x"
    "found e ?w s2 = (if h 11 AND DIRECTORY = 0 then Some (0, s3)
      else find_loop e Inloop (?w\<lparr>w_active := first_cluster (entry_of h), w_depth := w_depth w + 1\<rparr>) s3)"
    using found_entry [OF e(1) k(1), of ?w s2 ?cl h] k(2) by auto
  have t: "touched (written e) s s3"
    by (rule touched_mono [OF touched_then [OF s1(1) touched_then [OF s2(1) s3(1)]]]) (simp add: written_def)
  have run: "find_loop e Inloop w s = (if h 11 AND DIRECTORY = 0 then Some (0, s3)
      else find_loop e Inloop (?w\<lparr>w_active := first_cluster (entry_of h), w_depth := w_depth w + 1\<rparr>) s3)"
    using s1(3) s2(2) s3(3) by simp
  show ?case
  proof (cases "h 11 AND DIRECTORY = 0")
    case True
    with h(2) have "g = h" by (simp split: if_splits)
    with True run t s3(2) show ?thesis by auto
  next
    case False
    let ?v = "?w\<lparr>w_active := first_cluster (entry_of h), w_depth := w_depth w + 1\<rparr>"
    have "path_at (fs_mem s3) (outside (written e)) (w_path e + 8 * ucast (w_depth w)) (name # names)"
      by (rule path_at_cong [OF _ Cons.prems(2)]) (use touched_mem [OF t] in simp)
    then have p: "path_at (fs_mem s3) (outside (written e)) (w_path e + 8 * ucast (w_depth ?v)) names"
      using next_component [of "w_depth w" "w_path e"] Cons.prems(3) by (simp add: add.assoc)
    have "unat (w_depth ?v) + length names < 2 ^ 32"
      using Cons.prems(3) by (simp add: unat_word_ariths)
    moreover have "resolve (dir_cluster sec e) ?n (w_active ?v) names = Some g" using h(2) False by simp
    ultimately obtain s' where "find_loop e Inloop ?v s3 = Some (0, s')" "touched (written e) s3 s'"
      "\<forall>k < 32. fs_mem s' (w_entry e + of_nat k) = g k" using Cons.IH [of ?v s3] p by blast
    with run False touched_trans [OF t this(2)] show ?thesis by auto
  qed
qed

end

section \<open>The directory entry of a file\<close>

definition file_entry :: "(u64 \<Rightarrow> nat \<Rightarrow> u8) \<Rightarrow> u64 \<Rightarrow> fat_fs_info \<Rightarrow> u8 list list \<Rightarrow> (nat \<Rightarrow> u8) option" where
  "file_entry sec loc fs names =
     resolve (\<lambda>c. sec (cluster_lba loc fs c)) (dir_entries fs) (root_cluster fs) names"

text \<open>Addresses that neither the search nor its allocations write to.\<close>

definition safe_from :: "(u64 \<times> nat) list \<Rightarrow> fsys \<Rightarrow> u64 \<Rightarrow> bool" where
  "safe_from rs s x \<longleftrightarrow> outside rs x \<and> unat x \<notin> spare_mem s"

lemma fs_malloc_safe:
  assumes "heap_ok (fs_heap s)" and "fs_malloc sz s = Some (a, s')" and "a \<noteq> 0" and "unat x \<notin> spare_mem s"
  shows "unat sz \<le> unat (x - a)" and "unat x \<notin> spare_mem s'"
proof -
  have "y = x" if "unat (y - x) < 1" for y using that by (simp add: unat_eq_0)
  then have "kept s (x, 1)" using assms(4) by (auto simp: kept_def)
  note K = fs_malloc_block(2) [OF assms(1-3) this]
  show "unat sz \<le> unat (x - a)"
  proof (rule ccontr)
    assume "\<not> ?thesis"
    then have "unat (x - a) < unat sz" by simp
    with K have "1 \<le> unat (x - x)" unfolding apart_def fst_conv snd_conv by blast
    then show False by simp
  qed
  show "unat x \<notin> spare_mem s'" using K by (auto simp: kept_def)
qed

lemma fs_malloc_fields:
  assumes "heap_ok (fs_heap s)" and "fs_malloc sz s = Some (a, s')"
  shows "fs_mem s' = fs_mem s" "disktable s' = disktable s" "volumes s' = volumes s" "files s' = files s"
    "files_addr s' = files_addr s" "heap_ok (fs_heap s')" "spare_mem s' \<subseteq> spare_mem s"
proof -
  obtain k where "s' = s\<lparr>fs_heap := k\<rparr>" "heap_ok k" "spare_mem s' \<subseteq> spare_mem s"
    using fs_malloc_returns [OF assms(1), of sz] assms(2) by auto
  then show "fs_mem s' = fs_mem s" "disktable s' = disktable s" "volumes s' = volumes s" "files s' = files s"
    "files_addr s' = files_addr s" "heap_ok (fs_heap s')" "spare_mem s' \<subseteq> spare_mem s" by simp_all
qed

lemma unat_bpc:
  assumes "bytes_per_sector fs = 512"
  shows "unat (ucast (bytes_per_cluster fs) :: u64) = 512 * unat (sectors_per_cluster fs)"
proof -
  have "unat (512 * ucast (sectors_per_cluster fs) :: u32) = 512 * unat (sectors_per_cluster fs)"
    using spc_bound [of fs] by (simp add: unat_word_ariths)
  then show ?thesis using assms by (simp add: bytes_per_cluster_def)
qed

text \<open>The heap can serve these requests one after the other.\<close>

primrec served :: "u64 list \<Rightarrow> fsys \<Rightarrow> bool" where
  "served [] s \<longleftrightarrow> True"
| "served (n # ns) s \<longleftrightarrow> (\<exists>a s'. fs_malloc n s = Some (a, s') \<and> a \<noteq> 0 \<and> served ns s')"

lemma served_cong: "fs_heap s' = fs_heap s \<Longrightarrow> served ns s' = served ns s"
proof (induction ns arbitrary: s s')
  case (Cons n ns)
  have step: "served ns (s'\<lparr>fs_heap := k\<rparr>) = served ns (s\<lparr>fs_heap := k\<rparr>)" for k by (rule Cons.IH) simp
  show ?case using Cons.prems step by (auto simp: fs_malloc_def split: option.splits)
qed simp

text \<open>The memory map has as many entries as the free map, so that \<^verbatim>\<open>free\<close> stays in the free map.\<close>

definition fs_flat :: "fsys \<Rightarrow> bool" where
  "fs_flat s \<longleftrightarrow> mm_descs (pages (vm (fs_heap s))) = fm_descs (pages (vm (fs_heap s)))"

lemma fs_malloc_flat:
  assumes "heap_ok (fs_heap s)" and "fs_malloc sz s = Some (a, s')" and "fs_flat s"
  shows "fs_flat s'"
proof -
  obtain k where k: "malloc_heap sz (int 0) (fs_heap s) = Some (a, k)" "s' = s\<lparr>fs_heap := k\<rparr>"
    using assms(2) by (auto simp: fs_malloc_def malloc_def split: option.splits)
  show ?thesis using malloc_flat [OF assms(1) _ k(1)] assms(3) k(2) by (simp add: fs_flat_def HEAPS_def)
qed

context sector_source
begin

lemma find_fat_entry_result:
  assumes ok: "heap_ok (fs_heap s)" and vol: "volume_part s (f_volume fp) = Some (disk, part, info)" "p_fsdata info = Some fs"
    and bps: "bytes_per_sector fs = 512" and g: "file_entry (sec disk) (p_loc info) fs names = Some g"
    and path: "path_at (fs_mem s) (safe_from [(filename, 13), (ent, 32)] s) (f_path fp) names" "length names < 2 ^ 32"
    and keep: "kept s (filename, 13)" "kept s (ent, 32)"
    and room: "served (SECTOR_SIZE # ucast (bytes_per_cluster fs) # ns) s"
  shows "\<exists>s'. find_fat_entry d charbuf ent filename fp s = Some (0, s') \<and> (\<forall>k < 32. fs_mem s' (ent + of_nat k) = g k) \<and>
    (\<forall>x. safe_from [(filename, 13), (ent, 32)] s x \<longrightarrow> fs_mem s' x = fs_mem s x) \<and>
    served ns s' \<and> heap_ok (fs_heap s') \<and> spare_mem s' \<subseteq> spare_mem s \<and> disktable s' = disktable s \<and> volumes s' = volumes s \<and>
    files s' = files s \<and> files_addr s' = files_addr s \<and> (fs_flat s \<longrightarrow> fs_flat s')"
proof -
  let ?rs = "[(filename, 13), (ent, 32)]" and ?bpc = "ucast (bytes_per_cluster fs) :: u64"
  let ?len = "512 * unat (sectors_per_cluster fs)"
  obtain a s1 b s2 where m: "fs_malloc SECTOR_SIZE s = Some (a, s1)" "a \<noteq> 0" "fs_malloc ?bpc s1 = Some (b, s2)" "b \<noteq> 0"
    and room2: "served ns s2"
    using room by auto
  note F1 = fs_malloc_fields [OF ok m(1)] note F2 = fs_malloc_fields [OF F1(6) m(3)]
  note K1 = fs_malloc_block(2) [OF ok m(1,2)] note K2 = fs_malloc_block(2) [OF F1(6) m(3,4)]
  have safe: "512 \<le> unat (x - a)" "?len \<le> unat (x - b)" if "unat x \<notin> spare_mem s" for x
    using fs_malloc_safe [OF ok m(1,2) that] fs_malloc_safe(1) [OF F1(6) m(3,4)] unat_bpc [OF bps]
    by (simp_all add: SECTOR_SIZE_def)
  obtain s3 where s3: "read_sec d (fat_lba (p_loc info) fs (root_cluster fs)) 1 a disk s2 = Some s3" "touched [(a, 512)] s2 s3"
    using read_sec_returns [of "fat_lba (p_loc info) fs (root_cluster fs)" 1 a disk s2] by auto
  let ?e = "\<lparr>w_dev = d, w_disk = disk, w_loc = p_loc info, w_fs = fs, w_path = f_path fp, w_entry = ent,
      w_filename = filename, w_charbuf = charbuf, w_fatbuf = a, w_buffer = b\<rparr>"
  let ?w = "\<lparr>w_active = root_cluster fs, w_current = b, w_i = 0, w_len = 0, w_depth = 0\<rparr>"
  have mem3: "fs_mem s3 x = fs_mem s x" if "unat x \<notin> spare_mem s" for x
    using touched_mem [OF s3(2)] safe(1) [OF that] F1(1) F2(1) by simp
  have "apart (filename, 13) (b, ?len)" "apart (ent, 32) (b, ?len)"
    using K1 [OF keep(1)] K1 [OF keep(2)] K2 unat_bpc [OF bps] apart_sym by metis+
  then have e: "search_env ?e" using bps by (simp add: search_env_def)
  have w: "outside (written ?e) x" if "safe_from ?rs s x" for x
    using that safe(2) by (simp add: written_def safe_from_def)
  have "path_at (fs_mem s3) (safe_from ?rs s) (f_path fp) names"
    by (rule path_at_cong [OF _ path(1)]) (simp add: mem3 safe_from_def)
  then have p: "path_at (fs_mem s3) (outside (written ?e)) (w_path ?e + 8 * ucast (w_depth ?w)) names"
    using path_at_safe [OF w] by simp
  have "resolve (dir_cluster sec ?e) (dir_entries (w_fs ?e)) (w_active ?w) names = Some g"
  proof -
    have "dir_cluster sec ?e = (\<lambda>c. sec disk (cluster_lba (p_loc info) fs c))" by (simp add: dir_cluster_def fun_eq_iff)
    then show ?thesis using g by (simp add: file_entry_def)
  qed
  from find_loop_resolves [OF e _ this p] path(2) obtain s4 where s4: "find_loop ?e Inloop ?w s3 = Some (0, s4)"
    "touched (written ?e) s3 s4" "\<forall>k < 32. fs_mem s4 (ent + of_nat k) = g k" by auto
  have "find_fat_entry d charbuf ent filename fp s = Some (0, s4)"
    by (simp add: find_fat_entry_def vol m(1,3) s3(1) s4(1) Let_def)
  moreover have "fs_mem s4 x = fs_mem s x" if "safe_from ?rs s x" for x
    using touched_mem [OF s4(2) w [OF that]] mem3 that by (simp add: safe_from_def)
  moreover have "spare_mem s4 = spare_mem s2" "fs_heap s4 = fs_heap s2" "disktable s4 = disktable s2" "volumes s4 = volumes s2"
    "files s4 = files s2" "files_addr s4 = files_addr s2"
    using touched_fields [OF s3(2)] touched_fields [OF s4(2)] by (simp_all add: spare_mem_def)
  moreover have "fs_flat s4" if "fs_flat s"
    using fs_malloc_flat [OF F1(6) m(3) fs_malloc_flat [OF ok m(1) that]] calculation(4) by (simp add: fs_flat_def)
  moreover have "served ns s4" using room2 calculation(4) served_cong by metis
  ultimately show ?thesis using s4(3) F1 F2 by auto
qed

end

text \<open>
  Looking up a path whose components are found, by their short names, in the first clusters of
  the directories on the way: \<^verbatim>\<open>find_fat_entry\<close> returns 0 and leaves the file's directory entry, byte for
  byte, in \<^verbatim>\<open>entry\<close>; nothing but \<^verbatim>\<open>filename\<close>, \<^verbatim>\<open>entry\<close> and free heap memory is written.
\<close>

theorem find_fat_entry_finds:
  assumes "drives d img" and "heap_ok (fs_heap s)"
    and "volume_part s (f_volume fp) = Some (disk, part, info)" and "p_fsdata info = Some fs" and "bytes_per_sector fs = 512"
    and "file_entry (disk_bytes img disk) (p_loc info) fs names = Some g"
    and "path_at (fs_mem s) (safe_from [(filename, 13), (ent, 32)] s) (f_path fp) names" and "length names < 2 ^ 32"
    and "kept s (filename, 13)" and "kept s (ent, 32)" and "served [SECTOR_SIZE, ucast (bytes_per_cluster fs)] s"
  shows "\<exists>s'. find_fat_entry d charbuf ent filename fp s = Some (0, s') \<and> (\<forall>k < 32. fs_mem s' (ent + of_nat k) = g k) \<and>
    (\<forall>x. safe_from [(filename, 13), (ent, 32)] s x \<longrightarrow> fs_mem s' x = fs_mem s x)"
  using sector_source.find_fat_entry_result [OF drives_source [OF assms(1)] assms(2-11)] by blast

text \<open>The small volume, mounted, with the path of its file in memory.\<close>

definition demo_fs :: fat_fs_info where
  "demo_fs = \<lparr>sector_count = 0, bytes_per_sector = 512, sectors_per_cluster = 1, sectors_per_fat = 1, fat_count = 1,
     root_entries = 0, root_sectors = 0, root_cluster = 2, root_clusters = 1, fat_loc = 1, data_loc = 0\<rparr>"

definition demo_mem :: mem where
  "demo_mem = (\<lambda>_. 0)(0x101 := 2, 0x200 := 65, 0x201 := 46, 0x202 := 84, 0x203 := 88, 0x204 := 84)"

definition demo_info :: partinfo where
  "demo_info = \<lparr>p_loc = 0, p_size = 4, p_fs = fat32, p_fsdata = Some demo_fs\<rparr>"

definition demo_state :: fsys where
  "demo_state = \<lparr>files_addr = 0x800, files = [], disktable = [\<lparr>disk_blocks = 4, parts = [demo_info]\<rparr>],
     volumes = [\<lparr>v_disk = 0, v_partition = 0\<rparr>], fs_heap = fresh, fs_mem = demo_mem, fs_io = []\<rparr>"

definition demo_file :: FILE where
  "demo_file = \<lparr>f_path = 0x100, f_volume = 0, f_pointer = 1, f_size = 5, f_flags = 0, f_used = True\<rparr>"

definition demo_names :: "u8 list list" where
  "demo_names = [[65, 46, 84, 88, 84]]"

lemma demo_spare: "spare_mem demo_state = {0x1800000000..<0x2000000000}"
  using fresh_ok(2) [of 0]
  by (simp add: spare_mem_def demo_state_def HEAPS_def heap_lo_def heap_hi_def kernel_heap_def kernel_stack_def)

lemma demo_safe: "unat x < 0x1000 \<Longrightarrow> safe_from [(0x3000, 13), (0x4000, 32)] demo_state x"
  using in_range_iff [of "0x3000" 13 x] in_range_iff [of "0x4000" 32 x]
  by (simp add: safe_from_def demo_spare not_less [symmetric])

lemma demo_kept: "unat a + n \<le> 0x1800000000 \<Longrightarrow> kept demo_state (a, n)"
  using in_range_iff [of a n] by (auto simp: kept_def demo_spare)

lemma demo_path: "path_at demo_mem (safe_from [(0x3000, 13), (0x4000, 32)] demo_state) 0x100 demo_names"
proof -
  have p: "load64 demo_mem 0x100 = 0x200" by (simp add: load_le_numeral demo_mem_def)
  have c: "cstr demo_mem 0x200 [65, 46, 84, 88, 84]" by (simp add: demo_mem_def)
  have low: "safe_from [(0x3000, 13), (0x4000, 32)] demo_state (a + of_nat j)" if "unat a + j < 0x1000" for a j
    using that by (intro demo_safe) (simp add: unat_word_ariths)
  show ?thesis
    using p c low [of "0x200"] low [of "0x100"] by (simp add: demo_names_def)
qed

lemma bump_served:
  "bump (fs_heap s) a room n \<Longrightarrow> n + length ns \<le> ALLOCATIONS \<Longrightarrow> \<forall>k \<in> set ns. k \<noteq> 0 \<Longrightarrow>
     sum_list (map unat ns) \<le> room \<Longrightarrow> 0 < unat a \<Longrightarrow> unat a + room < 2 ^ 64 \<Longrightarrow> served ns s"
proof (induction ns arbitrary: s a room n)
  case (Cons k ns)
  have k: "k \<noteq> 0" "unat k \<le> room" "n < ALLOCATIONS" using Cons.prems by simp_all
  from bump_malloc [OF Cons.prems(1) this] obtain t where t: "malloc k (fs_heap s) = Some (a, t)"
    "bump t (a + k) (room - unat k) (Suc n)" by blast
  have "unat (a + k) = unat a + unat k" using Cons.prems k(2) by (simp add: unat_word_ariths)
  then have "served ns (s\<lparr>fs_heap := t\<rparr>)"
    using Cons.prems t(2) k(2) by (intro Cons.IH [of "s\<lparr>fs_heap := t\<rparr>" "a + k" "room - unat k" "Suc n"]) simp_all
  moreover have "a \<noteq> 0" using Cons.prems(5) by auto
  ultimately show ?case using t(1) by (simp add: fs_malloc_def)
qed simp

lemma demo_served: "served [SECTOR_SIZE, ucast (bytes_per_cluster demo_fs), SECTOR_SIZE, ucast (bytes_per_cluster demo_fs)] demo_state"
proof (rule bump_served)
  show "bump (fs_heap demo_state) kernel_heap 0x800000000 0" using bump_fresh by (simp add: demo_state_def)
qed (simp_all add: ALLOCATIONS_def SECTOR_SIZE_def bytes_per_cluster_def demo_fs_def kernel_heap_def)

lemma demo_entry:
  "\<exists>g. file_entry (disk_bytes (\<lambda>_. demo_disk) 0) 0 demo_fs demo_names = Some g \<and>
    first_cluster (entry_of g) = 3 \<and> e_size (entry_of g) = 5"
proof -
  let ?d = "disk_bytes (\<lambda>_. demo_disk) 0 (cluster_lba 0 demo_fs 2)"
  have lba: "cluster_lba 0 demo_fs 2 = 2" by (simp add: cluster_lba_def demo_fs_def)
  have "short_text (\<lambda>x. ?d (32 * 0 + x)) = [65, 46, 84, 88, 84]"
    by (simp add: lba short_text_def upt_conv_Cons [of 0 8] upt_conv_Cons [of "Suc 0" 8] demo_bytes demo_byte_def take_bit_numeral_numeral)
  moreover have "?d 11 \<noteq> FAT_LFN" "?d 11 AND DIRECTORY = 0"
    by (simp_all add: lba demo_bytes demo_byte_def take_bit_numeral_numeral FAT_LFN_def DIRECTORY_def)
  moreover have "scan (\<lambda>j. ?d (32 * j + 11) = FAT_LFN \<or> short_text (\<lambda>x. ?d (32 * j + x)) = [65, 46, 84, 88, 84]) 0 (dir_entries demo_fs) = Some 0"
    using calculation by (intro scan_head) (simp_all add: dir_entries_def demo_fs_def)
  ultimately have "file_entry (disk_bytes (\<lambda>_. demo_disk) 0) 0 demo_fs demo_names = Some ?d"
    by (simp add: file_entry_def demo_names_def lookup_dir_def demo_fs_def [THEN arg_cong [where f = root_cluster], simplified])
  moreover have "first_cluster (entry_of ?d) = 3" "e_size (entry_of ?d) = 5"
    by (simp_all add: entry_of_def FAT_entry_at_def first_cluster_def load_le_numeral lba demo_bytes demo_byte_def
        take_bit_numeral_numeral)
  ultimately show ?thesis by blast
qed

lemma demo_ok: "heap_ok (fs_heap demo_state)" "fs_flat demo_state"
proof -
  show "heap_ok (fs_heap demo_state)" by (simp add: demo_state_def fresh_ok)
  show "fs_flat demo_state"
    by (simp add: fs_flat_def demo_state_def fresh_def boot_state_def init_malloc_def flat_vm_def small_phys_def Let_def)
qed

lemma demo_volume: "volume_part demo_state 0 = Some (0, 0, demo_info)" "p_loc demo_info = 0" "p_fsdata demo_info = Some demo_fs"
  by (simp_all add: volume_part_def disk_part_def demo_state_def demo_info_def)

theorem find_fat_entry_finds_witness:
  "\<exists>s'. find_fat_entry (ram_disk demo_disk) 0x5000 0x4000 0x3000 demo_file demo_state = Some (0, s') \<and>
    e_size (FAT_entry_at (fs_mem s') 0x4000) = 5"
proof -
  obtain g where g: "file_entry (disk_bytes (\<lambda>_. demo_disk) 0) (p_loc demo_info) demo_fs demo_names = Some g"
    "e_size (entry_of g) = 5" using demo_entry demo_volume(2) by auto
  have "drives (ram_disk demo_disk) (\<lambda>_. demo_disk)" by (rule ram.drives_axioms)
  moreover have "heap_ok (fs_heap demo_state)" by (simp add: demo_state_def fresh_ok)
  moreover have "volume_part demo_state (f_volume demo_file) = Some (0, 0, demo_info)"
    using demo_volume by (simp add: demo_file_def)
  moreover have "bytes_per_sector demo_fs = 512" by (simp add: demo_fs_def)
  moreover have "path_at (fs_mem demo_state) (safe_from [(0x3000, 13), (0x4000, 32)] demo_state) (f_path demo_file) demo_names"
    using demo_path by (simp add: demo_state_def demo_file_def)
  moreover have "length demo_names < 2 ^ 32" by (simp add: demo_names_def)
  moreover have "kept demo_state (0x3000, 13)" "kept demo_state (0x4000, 32)" by (simp_all add: demo_kept)
  moreover have "served [SECTOR_SIZE, ucast (bytes_per_cluster demo_fs)] demo_state" using demo_served by auto
  ultimately obtain s' where "find_fat_entry (ram_disk demo_disk) 0x5000 0x4000 0x3000 demo_file demo_state = Some (0, s')"
    "\<forall>k < 32. fs_mem s' (0x4000 + of_nat k) = g k"
    using find_fat_entry_finds [OF _ _ _ demo_volume(3) _ g(1), where charbuf = "0x5000"] by blast
  with entry_image [of "fs_mem s'" "0x4000" g] g(2) show ?thesis by auto
qed

section \<open>Reading a file\<close>

definition cluster_size :: "fat_fs_info \<Rightarrow> nat" where
  "cluster_size fs = 512 * unat (sectors_per_cluster fs)"

text \<open>Byte \<open>k\<close> of the file whose clusters are \<^term>\<open>cs\<close>.\<close>

definition file_byte :: "(u64 \<Rightarrow> nat \<Rightarrow> u8) \<Rightarrow> u64 \<Rightarrow> fat_fs_info \<Rightarrow> u32 list \<Rightarrow> nat \<Rightarrow> u8" where
  "file_byte sec loc fs cs k = sec (cluster_lba loc fs (cs ! (k div cluster_size fs))) (k mod cluster_size fs)"

lemma chain_nth:
  "chain cell c cs \<Longrightarrow> k < length cs \<Longrightarrow>
     chain_goes_on (cs ! k) \<and> (k = 0 \<longrightarrow> cs ! k = c) \<and> (Suc k < length cs \<longrightarrow> cs ! Suc k = cell (cs ! k))"
proof (induction cs arbitrary: c k)
  case (Cons x xs)
  show ?case
  proof (cases k)
    case 0
    with Cons.prems show ?thesis by (cases xs) auto
  next
    case (Suc j)
    with Cons.IH [of "cell c" j] Cons.prems show ?thesis by simp
  qed
qed simp

lemma copy_out_copies:
  assumes "apart (ptr, unat n) (src, unat n)"
  shows "touched [(ptr, unat n)] s (copy_out ptr src n s)"
    and "k < unat n \<Longrightarrow> fs_mem (copy_out ptr src n s) (ptr + of_nat k) = fs_mem s (src + of_nat k)"
proof -
  have n: "unat n < 2 ^ 64" using unsigned_less [of n] by simp
  have "unat n \<le> unat (ptr - src)" using apartD [OF assms, of 0] by (cases "unat n = 0") simp_all
  then have m: "fs_mem (copy_out ptr src n s) x = (if unat (x - ptr) < unat n then fs_mem s (src + (x - ptr)) else fs_mem s x)" for x
    using memcpy_loop_apply [of "unat n" ptr src "fs_mem s" x] n by (simp add: copy_out_def memcpy_def)
  show "touched [(ptr, unat n)] s (copy_out ptr src n s)" using m by (simp add: touched_def) (simp add: copy_out_def)
  assume "k < unat n"
  then show "fs_mem (copy_out ptr src n s) (ptr + of_nat k) = fs_mem s (src + of_nat k)"
    using m [of "ptr + of_nat k"] n by simp
qed

lemma holds_sector_touched:
  assumes "holds_sector sec base buf c s" and "touched rs s s'" and "\<forall>r \<in> set rs. apart r (buf, 512)"
  shows "holds_sector sec base buf c s'"
proof -
  have "outside rs (buf + of_nat k)" if "k < 512" for k
    unfolding outside_def
  proof (clarify)
    fix a n
    assume "(a, n) \<in> set rs"
    then have "apart (buf, 512) (a, n)" using assms(3) apart_sym by blast
    from apartD [OF this that] that show "n \<le> unat (buf + of_nat k - a)" by simp
  qed
  then show ?thesis using assms(1) touched_mem [OF assms(2)] by (simp add: holds_sector_def)
qed

text \<open>A file as the reading loops see it: a chain in one sector of the table, held in the buffer.\<close>

definition open_chain :: "(u64 \<Rightarrow> nat \<Rightarrow> u8) \<Rightarrow> u64 \<Rightarrow> fat_fs_info \<Rightarrow> u32 list \<Rightarrow> u32 \<Rightarrow> bool" where
  "open_chain sec loc fs cs c \<longleftrightarrow> bytes_per_sector fs = 512 \<and> one_sector cs \<and>
     chain (fat_cell sec (loc + ucast (fat_loc fs))) c cs"

lemma next_in_buffer:
  assumes "open_chain sec loc fs cs c" and "holds_sector sec (loc + ucast (fat_loc fs)) buf c s" and "Suc k < length cs"
  shows "FAT_buffer_at (fs_mem s) buf ((cs ! k) mod FEPS) = cs ! Suc k" and "(cs ! k) div FEPS = (cs ! Suc k) div FEPS"
proof -
  note C = assms(1) [unfolded open_chain_def]
  note N = chain_nth [OF conjunct2 [OF conjunct2 [OF C]]]
  have "0 < length cs" using assms(3) by linarith
  then have "cs ! 0 = c" using N by blast
  then have "c \<in> set cs" using assms(3) by (metis nth_mem less_trans zero_less_Suc)
  then have "(cs ! k) div FEPS = c div FEPS"
    using one_sectorD [OF conjunct1 [OF conjunct2 [OF C]], of "cs ! k" c] assms(3) by simp
  then have "FAT_buffer_at (fs_mem s) buf ((cs ! k) mod FEPS) = fat_cell sec (loc + ucast (fat_loc fs)) (cs ! k)"
    by (rule FAT_buffer_cell [OF assms(2)])
  then show "FAT_buffer_at (fs_mem s) buf ((cs ! k) mod FEPS) = cs ! Suc k"
    using N [of k] assms(3) by simp
  show "(cs ! k) div FEPS = (cs ! Suc k) div FEPS"
    by (rule one_sectorD [OF conjunct1 [OF conjunct2 [OF C]]]) (use assms(3) in simp_all)
qed

lemma follow_next:
  assumes "open_chain sec loc fs cs c" and "holds_sector sec (loc + ucast (fat_loc fs)) buf c s" and "Suc k < length cs"
  shows "follow d disk loc fs buf (cs ! k) s = Some (cs ! Suc k, s)"
  using next_in_buffer [OF assms] by (simp add: follow_def Let_def)

lemma skip_to:
  assumes "open_chain sec loc fs cs c" and "holds_sector sec (loc + ucast (fat_loc fs)) buf c s"
  shows "k + n < length cs \<Longrightarrow> skip_clusters n d disk loc fs buf (cs ! k) s = Some (cs ! (k + n), s)"
proof (induction n arbitrary: k)
  case (Suc n)
  then show ?case using follow_next [OF assms, of k d disk] Suc.IH [of "Suc k"] by simp
qed simp

lemma region_after:
  assumes "k < j" and "j + l \<le> 2 ^ 64"
  shows "l \<le> unat (a + of_nat k - (a + of_nat j) :: u64)"
proof -
  have u: "unat (of_nat k :: u64) = k" using assms by simp
  have "a + of_nat k - (a + of_nat j) = of_nat k - (of_nat j :: u64)" by simp
  moreover have "l \<le> unat (of_nat k - (of_nat j :: u64))"
  proof (cases "j = 2 ^ 64")
    case False
    then have "unat (of_nat j :: u64) = j" using assms by simp
    with u assms show ?thesis by (simp add: unat_sub_if_size word_size)
  qed (use assms in simp)
  ultimately show ?thesis by simp
qed

text \<open>The rest of a region after its first part.\<close>

lemma tail_region:
  fixes n r :: u64
  assumes "unat r \<le> unat n"
  shows "unat (n - r) = unat n - unat r"
    and "unat n \<le> unat (x - a) \<Longrightarrow> unat (n - r) \<le> unat (x - (a + r))"
    and "k < unat r \<Longrightarrow> unat (n - r) \<le> unat (a + of_nat k - (a + r))"
    and "apart (a, unat n) (b, m) \<Longrightarrow> apart (a + r, unat (n - r)) (b, m)"
proof -
  have nlt: "unat n < 2 ^ 64" using unsigned_less [of n] by simp
  show n': "unat (n - r) = unat n - unat r" using assms by (simp add: unat_sub word_le_nat_alt)
  have p: "a + r = a + of_nat (unat r)" by simp
  show out: "unat (n - r) \<le> unat (x - (a + r))" if "unat n \<le> unat (x - a)" for x
    unfolding p by (rule region_sub [OF that]) (use n' assms nlt in simp_all)
  show "unat (n - r) \<le> unat (a + of_nat k - (a + r))" if "k < unat r"
    unfolding p by (rule region_after [OF that]) (use n' assms nlt in simp)
  assume ap: "apart (a, unat n) (b, m)"
  have "unat n \<le> unat (x - a)" if "unat (x - b) < m" for x
    using iffD1 [OF apart_sym ap] that by (simp add: apart_def)
  then have "apart (b, m) (a + r, unat (n - r))" using out by (simp add: apart_def)
  then show "apart (a + r, unat (n - r)) (b, m)" by (rule iffD1 [OF apart_sym])
qed

context sector_source
begin

lemma read_cluster_fills:
  assumes "bytes_per_sector fs = 512"
  shows "\<exists>s'. read_cluster d disk loc fs buffer c s = Some s' \<and> touched [(buffer, cluster_size fs)] s s' \<and>
    (\<forall>k < cluster_size fs. fs_mem s' (buffer + of_nat k) = sec disk (cluster_lba loc fs c) k)"
  using read_sec_returns [of "cluster_lba loc fs c" "ucast (sectors_per_cluster fs)" buffer disk s] assms
  by (simp add: read_cluster_def cluster_size_def)

lemma read_loop_reads:
  assumes o: "open_chain (sec disk) loc fs cs c" and ap: "apart (buffer, cluster_size fs) (buf, 512)" and L: "0 < cluster_size fs"
  shows "holds_sector (sec disk) (loc + ucast (fat_loc fs)) buf c s \<Longrightarrow> n \<noteq> 0 \<Longrightarrow>
    i < length cs \<Longrightarrow> i * cluster_size fs + unat n \<le> length cs * cluster_size fs \<Longrightarrow>
    apart (ptr, unat n) (buf, 512) \<Longrightarrow> apart (ptr, unat n) (buffer, cluster_size fs) \<Longrightarrow>
    \<exists>s'. read_loop d disk loc fs buf buffer ptr n (cs ! i) s = Some s' \<and>
      touched [(ptr, unat n), (buffer, cluster_size fs)] s s' \<and>
      (\<forall>k < unat n. fs_mem s' (ptr + of_nat k) = file_byte (sec disk) loc fs cs (i * cluster_size fs + k))"
proof (induction "unat n" arbitrary: n ptr i s rule: less_induct)
  case less
  let ?L = "cluster_size fs" and ?bpc = "ucast (bytes_per_cluster fs) :: u64"
  have bps: "bytes_per_sector fs = 512" using o by (simp add: open_chain_def)
  have bpc: "unat ?bpc = ?L" using unat_bpc [OF bps] by (simp add: cluster_size_def)
  have small: "?L < 2 ^ 32" using spc_bound [of fs] by (simp add: cluster_size_def)
  obtain s1 where s1: "read_cluster d disk loc fs buffer (cs ! i) s = Some s1" "touched [(buffer, ?L)] s s1"
    "\<And>k. k < ?L \<Longrightarrow> fs_mem s1 (buffer + of_nat k) = sec disk (cluster_lba loc fs (cs ! i)) k"
    using read_cluster_fills [OF bps] by blast
  have byte: "file_byte (sec disk) loc fs cs (i * ?L + k) = sec disk (cluster_lba loc fs (cs ! i)) k" if "k < ?L" for k
    using that by (simp add: file_byte_def)
  have nlt: "unat n < 2 ^ 64" using unsigned_less [of n] by simp
  have ap1: "apart (ptr, l) (buffer, l)" if "l \<le> unat n" "l \<le> ?L" for l
    by (rule apart_shrink [OF less.prems(6) that])
  have h1: "holds_sector (sec disk) (loc + ucast (fat_loc fs)) buf c s1"
    by (rule holds_sector_touched [OF less.prems(1) s1(2)]) (simp add: ap)
  show ?case
  proof (cases "n > ?bpc")
    case False
    let ?s = "copy_out ptr buffer n s1"
    have le: "unat n \<le> ?L" using False bpc by (simp add: word_less_nat_alt)
    note C = copy_out_copies [OF ap1 [OF order_refl le], where s = s1]
    have "read_loop d disk loc fs buf buffer ptr n (cs ! i) s = Some ?s"
      by (subst read_loop.simps) (simp add: s1(1) False Let_def)
    moreover have "touched [(ptr, unat n), (buffer, ?L)] s ?s"
      by (rule touched_mono [OF touched_then [OF s1(2) C(1)]]) simp
    moreover have "fs_mem ?s (ptr + of_nat k) = file_byte (sec disk) loc fs cs (i * ?L + k)" if "k < unat n" for k
      using C(2) [OF that] s1(3) [of k] byte [of k] that le by simp
    ultimately show ?thesis by blast
  next
    case True
    let ?s2 = "copy_out ptr buffer ?bpc s1" and ?n = "n - ?bpc" and ?p = "ptr + ?bpc"
    have lt: "?L < unat n" using True bpc by (simp add: word_less_nat_alt)
    have le: "unat ?bpc \<le> unat n" using lt bpc by simp
    note T = tail_region [OF le] and n' = tail_region(1) [OF le, unfolded bpc]
    have "Suc i < length cs"
    proof (rule ccontr)
      assume "\<not> ?thesis"
      then have "length cs * ?L \<le> Suc i * ?L" by (intro mult_le_mono1) simp
      with less.prems(4) lt show False by simp
    qed
    note C = copy_out_copies [where n = ?bpc and ptr = ptr and src = buffer and s = s1, unfolded bpc, OF ap1 [of ?L]]
    have t2: "touched [(ptr, ?L)] s1 ?s2" using C(1) lt by simp
    have aptr: "apart (ptr, ?L) (buf, 512)" by (rule apart_shrink [OF less.prems(5)]) (use lt in simp_all)
    have h2: "holds_sector (sec disk) (loc + ucast (fat_loc fs)) buf c ?s2"
      by (rule holds_sector_touched [OF h1 t2]) (simp add: aptr)
    note N = next_in_buffer [OF o h2 \<open>Suc i < length cs\<close>]
    have go: "chain_goes_on (cs ! Suc i)"
      using chain_nth [of _ c cs "Suc i"] o \<open>Suc i < length cs\<close> unfolding open_chain_def by blast
    have run: "read_loop d disk loc fs buf buffer ptr n (cs ! i) s =
        read_loop d disk loc fs buf buffer ?p ?n (cs ! Suc i) ?s2"
      by (subst read_loop.simps) (simp add: s1(1) True N go Let_def)
    have p: "?p = ptr + of_nat ?L" by (simp flip: bpc)
    have "\<exists>s'. read_loop d disk loc fs buf buffer ?p ?n (cs ! Suc i) ?s2 = Some s' \<and>
      touched [(?p, unat ?n), (buffer, ?L)] ?s2 s' \<and>
      (\<forall>k < unat ?n. fs_mem s' (?p + of_nat k) = file_byte (sec disk) loc fs cs (Suc i * ?L + k))"
    proof (rule less.hyps [OF _ h2 _ \<open>Suc i < length cs\<close>])
      show "unat ?n < unat n" using n' L lt by simp
      show "?n \<noteq> 0" using n' lt by auto
      show "Suc i * ?L + unat ?n \<le> length cs * ?L" using n' lt less.prems(4) by simp
    qed (rule T(4), rule less.prems)+
    then obtain s' where s': "read_loop d disk loc fs buf buffer ?p ?n (cs ! Suc i) ?s2 = Some s'"
      "touched [(?p, unat ?n), (buffer, ?L)] ?s2 s'"
      "\<And>k. k < unat ?n \<Longrightarrow> fs_mem s' (?p + of_nat k) = file_byte (sec disk) loc fs cs (Suc i * ?L + k)" by blast
    have "fs_mem s' (ptr + of_nat k) = file_byte (sec disk) loc fs cs (i * ?L + k)" if "k < unat n" for k
    proof (cases "k < ?L")
      case True
      have "unat ?n \<le> unat (ptr + of_nat k - ?p)" by (rule T(3)) (use True bpc in simp)
      moreover have "?L \<le> unat (ptr + of_nat k - buffer)" using apartD [OF less.prems(6) that] that nlt by simp
      ultimately have "fs_mem s' (ptr + of_nat k) = fs_mem ?s2 (ptr + of_nat k)" using touched_mem [OF s'(2)] by simp
      then show ?thesis using C(2) [of k] s1(3) [OF True] byte [OF True] True lt by simp
    next
      case False
      then obtain j where j: "k = ?L + j" using le_Suc_ex by (metis not_less)
      then have "ptr + of_nat k = ?p + of_nat j" by (simp add: p add.assoc)
      moreover have "i * ?L + k = Suc i * ?L + j" using j by simp
      ultimately show ?thesis using s'(3) [of j] that j n' by (simp add: ac_simps)
    qed
    moreover have "touched [(ptr, unat n), (buffer, ?L)] s s'"
    proof -
      have "touched [(buffer, ?L), (ptr, ?L), (?p, unat ?n)] s s'"
        by (rule touched_mono [OF touched_then [OF s1(2) touched_then [OF t2 s'(2)]]]) simp
      moreover have "outside [(buffer, ?L), (ptr, ?L), (?p, unat ?n)] x" if "outside [(ptr, unat n), (buffer, ?L)] x" for x
        using that T(2) lt by simp
      ultimately show ?thesis unfolding touched_def by blast
    qed
    ultimately show ?thesis using run s'(1) by simp
  qed
qed

text \<open>The first, partial cluster of a read that does not start on a cluster boundary.\<close>

lemma read_first_part:
  assumes o: "open_chain (sec disk) loc fs cs c" and h: "holds_sector (sec disk) (loc + ucast (fat_loc fs)) buf c s"
    and ap: "apart (buffer, cluster_size fs) (buf, 512)" and q: "q < length cs" and off: "unat off < cluster_size fs"
    and n: "unat n + unat off \<le> cluster_size fs"
    and ptr: "apart (ptr, unat n) (buf, 512)" "apart (ptr, unat n) (buffer, cluster_size fs)"
  shows "\<exists>s1. read_cluster d disk loc fs buffer (cs ! q) s = Some s1 \<and>
    (let s2 = copy_out ptr (buffer + off) n s1 in
      touched [(ptr, unat n), (buffer, cluster_size fs)] s s2 \<and> holds_sector (sec disk) (loc + ucast (fat_loc fs)) buf c s2 \<and>
      (\<forall>k < unat n. fs_mem s2 (ptr + of_nat k) = file_byte (sec disk) loc fs cs (q * cluster_size fs + unat off + k)))"
proof -
  let ?L = "cluster_size fs"
  have bps: "bytes_per_sector fs = 512" using o by (simp add: open_chain_def)
  have small: "?L < 2 ^ 32" using spc_bound [of fs] by (simp add: cluster_size_def)
  obtain s1 where s1: "read_cluster d disk loc fs buffer (cs ! q) s = Some s1" "touched [(buffer, ?L)] s s1"
    "\<And>k. k < ?L \<Longrightarrow> fs_mem s1 (buffer + of_nat k) = sec disk (cluster_lba loc fs (cs ! q)) k"
    using read_cluster_fills [OF bps] by blast
  have "apart (ptr, unat n) (buffer + of_nat (unat off), unat n)"
    by (rule apart_sub [OF ptr(2)]) (use n small in simp_all)
  then have "apart (ptr, unat n) (buffer + off, unat n)" by simp
  note C = copy_out_copies [OF this, where s = s1]
  have "holds_sector (sec disk) (loc + ucast (fat_loc fs)) buf c (copy_out ptr (buffer + off) n s1)"
    by (rule holds_sector_touched [OF h touched_then [OF s1(2) C(1)]]) (simp add: ap ptr(1))
  moreover have "touched [(ptr, unat n), (buffer, ?L)] s (copy_out ptr (buffer + off) n s1)"
    by (rule touched_mono [OF touched_then [OF s1(2) C(1)]]) simp
  moreover have "fs_mem (copy_out ptr (buffer + off) n s1) (ptr + of_nat k) =
      file_byte (sec disk) loc fs cs (q * ?L + unat off + k)" if "k < unat n" for k
  proof -
    have "buffer + off + of_nat k = buffer + of_nat (unat off + k)" by (simp add: add.assoc)
    then have "fs_mem s1 (buffer + off + of_nat k) = sec disk (cluster_lba loc fs (cs ! q)) (unat off + k)"
      using s1(3) [of "unat off + k"] n that by (simp add: add.assoc)
    moreover have "(q * ?L + unat off + k) div ?L = q" "(q * ?L + unat off + k) mod ?L = unat off + k"
      using n that by (simp_all add: add.assoc)
    ultimately show ?thesis using C(2) [OF that] by (simp add: file_byte_def)
  qed
  ultimately show ?thesis using s1(1) by (auto simp: Let_def)
qed

lemma read_from_reads:
  assumes o: "open_chain (sec disk) loc fs cs c" and h: "holds_sector (sec disk) (loc + ucast (fat_loc fs)) buf c s"
    and ap: "apart (buffer, cluster_size fs) (buf, 512)" and q: "q < length cs" and off: "unat off < cluster_size fs"
    and n: "n \<noteq> 0" "q * cluster_size fs + unat off + unat n \<le> length cs * cluster_size fs"
    and ptr: "apart (ptr, unat n) (buf, 512)" "apart (ptr, unat n) (buffer, cluster_size fs)"
  shows "\<exists>early s'. read_from d disk loc fs buf buffer ptr n off (cs ! q) s = Some (early, s') \<and>
    touched [(ptr, unat n), (buffer, cluster_size fs)] s s' \<and>
    (\<forall>k < unat n. fs_mem s' (ptr + of_nat k) = file_byte (sec disk) loc fs cs (q * cluster_size fs + unat off + k))"
proof -
  let ?L = "cluster_size fs" and ?bpc = "ucast (bytes_per_cluster fs) :: u64"
  have bps: "bytes_per_sector fs = 512" using o by (simp add: open_chain_def)
  have bpc: "unat ?bpc = ?L" using unat_bpc [OF bps] by (simp add: cluster_size_def)
  have small: "?L < 2 ^ 32" using spc_bound [of fs] by (simp add: cluster_size_def)
  have L: "0 < ?L" using off by simp
  have nlt: "unat n < 2 ^ 64" using unsigned_less [of n] by simp
  let ?r = "?bpc - off"
  have r: "unat ?r = ?L - unat off" using off bpc by (simp add: unat_sub word_le_nat_alt)
  consider "off = 0" | "off \<noteq> 0" "\<not> n > ?r" | "off \<noteq> 0" "n > ?r" by blast
  then show ?thesis
  proof cases
    case 1
    then show ?thesis using read_loop_reads [OF o ap L h n(1) q _ ptr] n(2) by (auto simp: read_from_def)
  next
    case 2
    then have "unat n + unat off \<le> ?L" using r off by (simp add: word_less_nat_alt)
    from read_first_part [OF o h ap q off this ptr] 2 show ?thesis by (auto simp: read_from_def Let_def)
  next
    case 3
    let ?p = "ptr + ?r" and ?n = "n - ?r"
    have lt: "unat ?r < unat n" using 3 by (simp add: word_less_nat_alt)
    note T = tail_region [OF less_imp_le [OF lt]] and n' = tail_region(1) [OF less_imp_le [OF lt]]
    have "apart (ptr, unat ?r) (buf, 512)" "apart (ptr, unat ?r) (buffer, ?L)"
      using apart_shrink [OF ptr(1), of "unat ?r" 512] apart_shrink [OF ptr(2), of "unat ?r" ?L] lt by simp_all
    from read_first_part [OF o h ap q off _ this] r off obtain s1 s2 where
      s1: "read_cluster d disk loc fs buffer (cs ! q) s = Some s1" and s2: "s2 = copy_out ptr (buffer + off) ?r s1"
      "touched [(ptr, unat ?r), (buffer, ?L)] s s2" "holds_sector (sec disk) (loc + ucast (fat_loc fs)) buf c s2"
      "\<And>k. k < unat ?r \<Longrightarrow> fs_mem s2 (ptr + of_nat k) = file_byte (sec disk) loc fs cs (q * ?L + unat off + k)"
      by (auto simp: Let_def)
    have q1: "Suc q < length cs"
    proof (rule ccontr)
      assume "\<not> ?thesis"
      then have "length cs * ?L \<le> Suc q * ?L" by (intro mult_le_mono1) simp
      with n(2) lt r off show False by simp
    qed
    have "?n \<noteq> 0" using n' lt by auto
    moreover have "Suc q * ?L + unat ?n \<le> length cs * ?L" using n' lt n(2) r off by simp
    ultimately obtain s' where s': "read_loop d disk loc fs buf buffer ?p ?n (cs ! Suc q) s2 = Some s'"
      "touched [(?p, unat ?n), (buffer, ?L)] s2 s'"
      "\<And>k. k < unat ?n \<Longrightarrow> fs_mem s' (?p + of_nat k) = file_byte (sec disk) loc fs cs (Suc q * ?L + k)"
      using read_loop_reads [OF o ap L s2(3) _ q1 _ T(4) [OF ptr(1)] T(4) [OF ptr(2)]] by blast
    have "read_from d disk loc fs buf buffer ptr n off (cs ! q) s = Some (False, s')"
      using 3 follow_next [OF o s2(3) q1, of d disk] s'(1) by (simp add: read_from_def s1 Let_def flip: s2(1))
    moreover have "touched [(ptr, unat n), (buffer, ?L)] s s'"
    proof -
      have "touched [(ptr, unat ?r), (buffer, ?L), (?p, unat ?n)] s s'"
        by (rule touched_mono [OF touched_then [OF s2(2) s'(2)]]) simp
      moreover have "outside [(ptr, unat ?r), (buffer, ?L), (?p, unat ?n)] x" if "outside [(ptr, unat n), (buffer, ?L)] x" for x
        using that T(2) lt by simp
      ultimately show ?thesis unfolding touched_def by blast
    qed
    moreover have "fs_mem s' (ptr + of_nat k) = file_byte (sec disk) loc fs cs (q * ?L + unat off + k)" if "k < unat n" for k
    proof (cases "k < unat ?r")
      case True
      have "unat ?n \<le> unat (ptr + of_nat k - ?p)" by (rule T(3) [OF True])
      moreover have "?L \<le> unat (ptr + of_nat k - buffer)" using apartD [OF ptr(2) that] that nlt by simp
      ultimately show ?thesis using touched_mem [OF s'(2)] s2(4) [OF True] by simp
    next
      case False
      then obtain j where j: "k = unat ?r + j" using le_Suc_ex by (metis not_less)
      then have e1: "ptr + of_nat k = ?p + of_nat j" by (simp add: add.assoc)
      have e2: "q * ?L + unat off + k = Suc q * ?L + j" using j r off by simp
      show ?thesis unfolding e1 e2 by (rule s'(3)) (use that j n' in simp)
    qed
    ultimately show ?thesis by blast
  qed
qed

lemma fat_read_result:
  assumes ok: "heap_ok (fs_heap s)" "fs_flat s" and vol: "volume_part s (f_volume fp) = Some (disk, part, info)" "p_fsdata info = Some fs"
    and g: "file_entry (sec disk) (p_loc info) fs names = Some g"
    and path: "path_at (fs_mem s) (safe_from [(filename, 13), (ent, 32)] s) (f_path fp) names" "length names < 2 ^ 32"
    and keep: "kept s (filename, 13)" "kept s (ent, 32)" "kept s (ptr, unat n)"
    and room: "served [SECTOR_SIZE, ucast (bytes_per_cluster fs), SECTOR_SIZE, ucast (bytes_per_cluster fs)] s"
    and o: "open_chain (sec disk) (p_loc info) fs cs (first_cluster (entry_of g))" and cs: "length cs < 2 ^ 32"
    and n: "n \<noteq> 0" "unat (f_pointer fp) + unat n \<le> length cs * cluster_size fs"
  shows "\<exists>s'. fat_read d charbuf ent filename ptr n fp s = Some (n, s') \<and>
    (\<forall>k < unat n. fs_mem s' (ptr + of_nat k) = file_byte (sec disk) (p_loc info) fs cs (unat (f_pointer fp) + k)) \<and>
    (\<forall>x. safe_from [(filename, 13), (ent, 32), (ptr, unat n)] s x \<longrightarrow> fs_mem s' x = fs_mem s x) \<and>
    heap_ok (fs_heap s') \<and> fs_flat s'"
proof -
  let ?rs = "[(filename, 13), (ent, 32)]" and ?bpc = "ucast (bytes_per_cluster fs) :: u64" and ?L = "cluster_size fs"
  let ?loc = "p_loc info" and ?c = "first_cluster (entry_of g)" and ?pos = "f_pointer fp"
  have bps: "bytes_per_sector fs = 512" using o by (simp add: open_chain_def)
  have bpc: "unat ?bpc = ?L" using unat_bpc [OF bps] by (simp add: cluster_size_def)
  obtain a s1 b s2 where m: "fs_malloc SECTOR_SIZE s = Some (a, s1)" "a \<noteq> 0" "fs_malloc ?bpc s1 = Some (b, s2)" "b \<noteq> 0"
    and room2: "served [SECTOR_SIZE, ?bpc] s2"
    using room by auto
  note F1 = fs_malloc_fields [OF ok(1) m(1)] note F2 = fs_malloc_fields [OF F1(6) m(3)]
  note K1 = fs_malloc_block(2) [OF ok(1) m(1,2)] note K2 = fs_malloc_block(2) [OF F1(6) m(3,4)]
  have keep2: "kept s2 r" if "kept s r" for r using K1 [OF that] K2 by blast
  have safe2: "safe_from ?rs s2 x" if "safe_from ?rs s x" for x using that F1(7) F2(7) by (auto simp: safe_from_def)
  have vol2: "volume_part s2 (f_volume fp) = Some (disk, part, info)"
    using vol(1) volume_part_cong [of s2 s] F1(2,3) F2(2,3) by simp
  have path2: "path_at (fs_mem s2) (safe_from ?rs s2) (f_path fp) names"
    using path_at_safe [OF safe2 path(1)] F1(1) F2(1) by simp
  from find_fat_entry_result [OF F2(6) vol2 vol(2) bps g path2 path(2) keep2 [OF keep(1)] keep2 [OF keep(2)] room2, of charbuf]
  obtain s3 where s3: "find_fat_entry d charbuf ent filename fp s2 = Some (0, s3)"
    "\<And>k. k < 32 \<Longrightarrow> fs_mem s3 (ent + of_nat k) = g k" "\<And>x. safe_from ?rs s2 x \<Longrightarrow> fs_mem s3 x = fs_mem s2 x"
    "heap_ok (fs_heap s3)" "fs_flat s2 \<longrightarrow> fs_flat s3" by blast
  have flat3: "fs_flat s3"
    using s3(5) fs_malloc_flat [OF F1(6) m(3) fs_malloc_flat [OF ok(1) m(1) ok(2)]] by blast
  have E: "FAT_entry_at (fs_mem s3) ent = entry_of g" using s3(2) by (rule entry_image)
  let ?base = "?loc + ucast (fat_loc fs)"
  obtain s4 where s4: "read_sec d (fat_lba ?loc fs ?c) 1 a disk s3 = Some s4" "touched [(a, 512)] s3 s4"
    "holds_sector (sec disk) ?base a ?c s4"
    using read_table_sector [of ?base ?c a disk s3] unfolding fat_lba_def by blast
  have ap: "apart (b, ?L) (a, 512)" "apart (ptr, unat n) (a, 512)" "apart (ptr, unat n) (b, ?L)"
  proof -
    have "kept s1 (a, 512)" using fs_malloc_block(1) [OF ok(1) m(1,2)] by (simp add: SECTOR_SIZE_def)
    then show "apart (b, ?L) (a, 512)" using K2 bpc by metis
    show "apart (ptr, unat n) (a, 512)" using K1 [OF keep(3)] apart_sym by (simp add: SECTOR_SIZE_def)
    show "apart (ptr, unat n) (b, ?L)" using K1 [OF keep(3)] K2 bpc apart_sym by metis
  qed
  have L: "0 < ?L" using n by (cases "?L = 0") (simp_all add: unat_eq_0)
  let ?q = "unat ?pos div ?L" and ?off = "?pos mod ?bpc"
  have qL: "?q * ?L + unat ?off = unat ?pos" using bpc by (simp add: unat_mod)
  have "0 < unat n" using n(1) by (simp add: unat_gt_0)
  then have "unat ?pos < length cs * ?L" using n(2) by simp
  then have q: "?q < length cs" by (simp add: less_mult_imp_div_less)
  have off: "unat ?off < ?L" using L bpc by (simp add: unat_mod)
  have skipped: "unat (ucast (?pos div ?bpc) :: u32) = ?q"
    using q cs bpc by (simp add: unsigned_ucast_eq take_bit_nat_eq_self unat_div)
  have "cs ! 0 = ?c" using chain_nth [of _ ?c cs 0] o q unfolding open_chain_def by (metis gr_implies_not0 gr0I)
  then have skip: "skip_clusters ?q d disk ?loc fs a ?c s4 = Some (cs ! ?q, s4)"
    using skip_to [OF o s4(3), of 0 ?q d disk] q by simp
  obtain early s5 where s5: "read_from d disk ?loc fs a b ptr n ?off (cs ! ?q) s4 = Some (early, s5)"
    "touched [(ptr, unat n), (b, ?L)] s4 s5"
    "\<And>k. k < unat n \<Longrightarrow> fs_mem s5 (ptr + of_nat k) = file_byte (sec disk) ?loc fs cs (unat ?pos + k)"
    using read_from_reads [OF o s4(3) ap(1) q off n(1) _ ap(2,3)] n(2) qL by auto
  have heap5: "fs_heap s5 = fs_heap s3" using touched_fields(5) [OF s4(2)] touched_fields(5) [OF s5(2)] by simp
  then obtain k where k: "free a (fs_heap s5) = Some k"
    using free_returns_ok [OF s3(4)] flat3 unfolding fs_flat_def by auto
  then have fr: "fs_free a s5 = Some (s5\<lparr>fs_heap := k\<rparr>)" by (simp add: fs_free_def)
  have ok5: "heap_ok (fs_heap s5)" "fs_flat s5" using s3(4) flat3 heap5 by (simp_all add: fs_flat_def)
  have ok6: "heap_ok k" "fs_flat (s5\<lparr>fs_heap := k\<rparr>)"
    using kheap.give_ok [OF ok5(1) k] free_flat [OF ok5(1) k] ok5(2) by (simp_all add: fs_flat_def)
  have "?bpc \<noteq> 0"
  proof
    assume "?bpc = 0"
    then have "unat ?bpc = 0" by (simp only: unsigned_0)
    with bpc L show False by linarith
  qed
  then have "\<exists>s'. fat_read d charbuf ent filename ptr n fp s = Some (n, s') \<and> fs_mem s' = fs_mem s5 \<and>
      heap_ok (fs_heap s') \<and> fs_flat s'"
    using fr ok5 ok6 by (simp add: fat_read_def vol m(1,3) s3(1) E s4(1) skipped skip s5(1) Let_def)
  moreover have "fs_mem s5 x = fs_mem s x" if "safe_from [(filename, 13), (ent, 32), (ptr, unat n)] s x" for x
  proof -
    have x: "outside ?rs x" "unat n \<le> unat (x - ptr)" "unat x \<notin> spare_mem s" using that by (simp_all add: safe_from_def)
    have "512 \<le> unat (x - a)" "?L \<le> unat (x - b)"
      using fs_malloc_safe [OF ok(1) m(1,2) x(3)] fs_malloc_safe(1) [OF F1(6) m(3,4)] bpc by (simp_all add: SECTOR_SIZE_def)
    then have "fs_mem s5 x = fs_mem s3 x" using touched_mem [OF s4(2)] touched_mem [OF s5(2)] x by simp
    also have "\<dots> = fs_mem s2 x" using s3(3) safe2 x by (simp add: safe_from_def)
    finally show ?thesis using F1(1) F2(1) by simp
  qed
  ultimately show ?thesis using s5(3) by metis
qed

end


lemma demo_chain: "open_chain (disk_bytes (\<lambda>_. demo_disk) 0) 0 demo_fs [3] 3"
proof -
  have "fat_cell (disk_bytes (\<lambda>_. demo_disk) 0) 1 3 = 0x0FFFFFFF"
    by (simp add: fat_cell_def FEPS_def image_le_def load_le_numeral demo_bytes demo_byte_def take_bit_numeral_numeral)
  then show ?thesis by (simp add: open_chain_def one_sector_def chain_goes_on_def demo_fs_def)
qed


end
