(* ===== verification/FS.thy ===== *)
theory FS
  imports FATRead
begin

text \<open>
  The file layer of \<^verbatim>\<open>kernel/fs/FS.c\<close>: opening, checking, reading, seeking and closing files. Handles
  are addresses into the table of open files; paths are arrays of strings in memory from the kernel
  heap, which \<^verbatim>\<open>fopen\<close> builds and \<^verbatim>\<open>fclose\<close> gives back.
\<close>

section \<open>Operations\<close>

datatype fpos_t = SEEK_SET | SEEK_CUR | SEEK_END

text \<open>The loops of \<^verbatim>\<open>fopen\<close>: counting the slashes, allocating a block per component, splitting.\<close>

partial_function (option) count_dirs :: "mem \<Rightarrow> u64 \<Rightarrow> u32 \<Rightarrow> u32 option" where
  "count_dirs m path dirs =
     (if m path = 0 then Some dirs
      else count_dirs m (path + 1) (if m path = 47 then dirs + 1 else dirs))"

primrec alloc_names :: "nat \<Rightarrow> u32 \<Rightarrow> u64 \<Rightarrow> fsys \<Rightarrow> fsys option" where
  "alloc_names 0 i fpath s = Some s"
| "alloc_names (Suc n) i fpath s = do {
     (a, s) \<leftarrow> fs_malloc FILENAME_LENGTH s;
     alloc_names n (i + 1) fpath (s\<lparr>fs_mem := store64 (fs_mem s) (fpath + 8 * ucast i) a\<rparr>)
   }"

text \<open>The last component is not terminated.\<close>

partial_function (option) split_path :: "u64 \<Rightarrow> u64 \<Rightarrow> u32 \<Rightarrow> u32 \<Rightarrow> mem \<Rightarrow> mem option" where
  "split_path fpath path j i m =
     (if m path = 47 then
        split_path fpath (path + 1) (j + 1) 0 (m(load64 m (fpath + 8 * ucast j) + ucast i := 0))
      else if m path = 0 then Some (store64 m (fpath + 8 * ucast (j + 1)) 0)
      else split_path fpath (path + 1) j (i + 1) (m(load64 m (fpath + 8 * ucast j) + ucast i := m path)))"

definition fopen_error :: "u64 \<Rightarrow> fsys \<Rightarrow> (u64 \<times> fsys) option" where
  "fopen_error fpath s = (case fs_free fpath s of None \<Rightarrow> None | Some s \<Rightarrow> Some (0, s))"

text \<open>The search for an unused entry has no bound; past the table it is undefined.\<close>

definition fopen :: "device \<Rightarrow> u64 \<Rightarrow> u64 \<Rightarrow> u64 \<Rightarrow> u64 \<Rightarrow> u8 \<Rightarrow> fsys \<Rightarrow> (u64 \<times> fsys) option" where
  "fopen d charbuf ent filename path flags s = do {
     dirs \<leftarrow> count_dirs (fs_mem s) path 0;
     (if dirs = 0 then Some (0, s)
      else do {
       (fpath, s) \<leftarrow> fs_malloc (ucast (dirs + 1) * 8) s;
       s \<leftarrow> alloc_names (unat dirs) 0 fpath s;
       let s = s\<lparr>fs_mem := store64 (fs_mem s) (fpath + 8 * ucast (dirs + 1)) 0\<rparr>;
       let volume = fs_mem s (path + 1) - 65;
       (if fs_mem s path \<noteq> 124 then fopen_error fpath s
        else if sint volume \<ge> 26 then fopen_error fpath s
        else if fs_mem s (path + 2) \<noteq> 47 then fopen_error fpath s
        else do {
         m \<leftarrow> split_path fpath (path + 3) 0 0 (fs_mem s);
         i \<leftarrow> scan (\<lambda>i. \<not> f_used (files s ! i)) 0 (length (files s));
         let f = (files s ! i)\<lparr>f_used := True, f_path := fpath, f_pointer := 0, f_volume := volume\<rparr>;
         let s = s\<lparr>fs_mem := m, files := (files s)[i := f]\<rparr>;
         (disk, part, info) \<leftarrow> volume_part s volume;
         (case p_fs info of
            fat32 \<Rightarrow> do {
              (n, f, s) \<leftarrow> fat_filesize d charbuf ent filename f s;
              Some (files_addr s + of_nat i * FILE_SIZE, s\<lparr>files := (files s)[i := f\<lparr>f_size := n\<rparr>]\<rparr>)
            }
          | none \<Rightarrow> Some (0, s))
       })
     })
   }"

definition fread :: "device \<Rightarrow> u64 \<Rightarrow> u64 \<Rightarrow> u64 \<Rightarrow> u64 \<Rightarrow> u64 \<Rightarrow> FILE \<Rightarrow> fsys \<Rightarrow> (u64 \<times> fsys) option" where
  "fread d charbuf ent filename ptr n fp s =
     (if n = 0 then Some (0, s)
      else if n > f_size fp - f_pointer fp then Some (0, s)
      else do {
       (disk, part, info) \<leftarrow> volume_part s (f_volume fp);
       (case p_fs info of
          fat32 \<Rightarrow> fat_read d charbuf ent filename ptr n fp s
        | none \<Rightarrow> Some (0, s))
     })"

definition aligncheck :: "u64 \<Rightarrow> u64 \<Rightarrow> nat" where
  "aligncheck base fp =
     (if fp < base \<or> fp \<ge> base + of_nat MAX_OPEN_FILES * FILE_SIZE then 1
      else if fp mod FILE_SIZE \<noteq> base mod FILE_SIZE then 2
      else 0)"

definition handle_index :: "u64 \<Rightarrow> u64 \<Rightarrow> nat" where
  "handle_index base fp = unat (fp - base) div 40"

text \<open>\<^verbatim>\<open>while (*ptr != NULL) free(*ptr++);\<close>\<close>

partial_function (option) free_names :: "mem \<Rightarrow> u64 \<Rightarrow> kstate \<Rightarrow> kstate option" where
  "free_names m ptr s =
     (if load64 m ptr \<noteq> 0
      then (case free (load64 m ptr) s of None \<Rightarrow> None | Some s' \<Rightarrow> free_names m (ptr + 8) s')
      else Some s)"

definition fclose :: "u64 \<Rightarrow> fsys \<Rightarrow> (int \<times> fsys) option" where
  "fclose fp s =
     (if aligncheck (files_addr s) fp \<noteq> 0 then Some (1, s)
      else
        let i = handle_index (files_addr s) fp;
            f = (files s ! i)\<lparr>f_used := False\<rparr>;
            s = s\<lparr>files := (files s)[i := f]\<rparr> in
        (case free_names (fs_mem s) (f_path f) (fs_heap s) of
           None \<Rightarrow> None
         | Some k \<Rightarrow>
             (case free (f_path f) k of
                None \<Rightarrow> None
              | Some k \<Rightarrow> Some (0, s\<lparr>fs_heap := k\<rparr>))))"

text \<open>
  In \<^verbatim>\<open>fseek\<close> the comparisons with \<^verbatim>\<open>fp->size\<close> and the sum \<^verbatim>\<open>offset + fp->pointer\<close> are unsigned;
  \<^verbatim>\<open>SEEK_END\<close> has no \<^verbatim>\<open>break\<close> and runs into \<^verbatim>\<open>default: return -1\<close>.
\<close>

definition fseek :: "u64 \<Rightarrow> fpos_t \<Rightarrow> FILE \<Rightarrow> int \<times> FILE" where
  "fseek offset position f = (case position of
     SEEK_SET \<Rightarrow>
       (if offset \<ge> f_size f then (- 2, f)
        else if sint offset < 0 then (- 2, f)
        else (0, f\<lparr>f_pointer := offset\<rparr>))
   | SEEK_CUR \<Rightarrow>
       (if offset + f_pointer f \<ge> f_size f then (- 2, f)
        else (0, f\<lparr>f_pointer := f_pointer f + offset\<rparr>))
   | SEEK_END \<Rightarrow>
       (if sint offset \<ge> 0 then (- 2, f)
        else if - offset > f_size f then (- 2, f)
        else (- 1, f\<lparr>f_pointer := f_size f + offset\<rparr>)))"

definition rewind :: "u64 \<Rightarrow> fsys \<Rightarrow> fsys" where
  "rewind fp s =
     (if aligncheck (files_addr s) fp \<noteq> 0 then s
      else let i = handle_index (files_addr s) fp
        in s\<lparr>files := (files s)[i := (files s ! i)\<lparr>f_pointer := 0\<rparr>]\<rparr>)"

definition fsize :: "u64 \<Rightarrow> fsys \<Rightarrow> u64" where
  "fsize fp s =
     (if aligncheck (files_addr s) fp \<noteq> 0 then 0 else f_size (files s ! handle_index (files_addr s) fp))"

section \<open>Properties\<close>

lemma nat_mod_eq_dvd: "b \<le> a \<Longrightarrow> a mod m = b mod m \<longleftrightarrow> m dvd (a - b)" for a b m :: nat
  using mod_eq_dvd_iff_nat by blast

lemma aligncheck_handle:
  assumes "unat base + 10240 < 2 ^ 64"
  shows "aligncheck base fp = 0 \<longleftrightarrow> (\<exists>i < MAX_OPEN_FILES. fp = base + of_nat i * FILE_SIZE)"
proof -
  have lim: "unat (base + of_nat MAX_OPEN_FILES * FILE_SIZE) = unat base + 10240"
    using assms by (simp add: MAX_OPEN_FILES_def FILE_SIZE_def unat_word_ariths)
  have elem: "unat (base + of_nat i * FILE_SIZE) = unat base + 40 * i" if "i < 256" for i
  proof -
    have "unat (of_nat i * FILE_SIZE :: u64) = 40 * i"
      using that by (simp add: FILE_SIZE_def unat_word_ariths unat_of_nat)
    with assms that show ?thesis by (simp add: unat_word_ariths)
  qed
  show ?thesis
  proof
    assume "aligncheck base fp = 0"
    then have c: "unat base \<le> unat fp" "unat fp < unat base + 10240" "unat fp mod 40 = unat base mod 40"
      using lim by (auto simp: aligncheck_def word_le_nat_alt word_less_nat_alt FILE_SIZE_def unat_mod
          word_unat_eq_iff split: if_splits)
    then have "40 dvd unat fp - unat base" by (simp add: nat_mod_eq_dvd)
    then obtain i where "unat fp - unat base = 40 * i" by (elim dvdE)
    then have i: "i < 256" "unat fp = unat base + 40 * i" using c by auto
    then have "fp = base + of_nat i * FILE_SIZE" using elem by (simp add: word_unat_eq_iff)
    with i show "\<exists>i < MAX_OPEN_FILES. fp = base + of_nat i * FILE_SIZE" by (auto simp: MAX_OPEN_FILES_def)
  next
    assume "\<exists>i < MAX_OPEN_FILES. fp = base + of_nat i * FILE_SIZE"
    then obtain i where i: "i < 256" "unat fp = unat base + 40 * i" using elem by (auto simp: MAX_OPEN_FILES_def)
    then have "unat fp mod 40 = unat base mod 40" by simp
    with i lim show "aligncheck base fp = 0"
      by (simp add: aligncheck_def word_le_nat_alt word_less_nat_alt FILE_SIZE_def unat_mod word_unat_eq_iff)
  qed
qed

text \<open>
  \<^verbatim>\<open>aligncheck\<close> accepts a handle exactly when it is the address of one of the 256 entries of the
  table of open files (for a table that does not reach the end of the address space).
\<close>

theorem aligncheck_exact:
  assumes "unat base + 10240 < 2 ^ 64"
  shows "aligncheck base fp = 0 \<longleftrightarrow> (\<exists>i < MAX_OPEN_FILES. fp = base + of_nat i * FILE_SIZE)"
  using assms by (rule aligncheck_handle)

theorem aligncheck_exact_witness: "aligncheck 0x1000 (0x1000 + 80) = 0"
  using aligncheck_exact [of "0x1000" "0x1000 + 80"]
  by (auto simp: MAX_OPEN_FILES_def FILE_SIZE_def intro!: exI [of _ 2])

definition seek_base :: "fpos_t \<Rightarrow> FILE \<Rightarrow> int" where
  "seek_base position f = (case position of
     SEEK_SET \<Rightarrow> 0 | SEEK_CUR \<Rightarrow> uint (f_pointer f) | SEEK_END \<Rightarrow> uint (f_size f))"

definition seek_target :: "u64 \<Rightarrow> fpos_t \<Rightarrow> FILE \<Rightarrow> int" where
  "seek_target offset position f = seek_base position f + sint offset"

lemma sint_eq: "sint (w :: u64) = (if uint w < 2 ^ 63 then uint w else uint w - 2 ^ 64)"
proof -
  have w: "0 \<le> uint w" "uint w < 2 ^ 64" using unsigned_less [of w, where ?'a = int] by simp_all
  have "bit (uint w) 63 \<longleftrightarrow> \<not> uint w < 2 ^ 63"
  proof (cases "uint w < 2 ^ 63")
    case True
    with w have "uint w div 2 ^ 63 = 0" by (intro div_pos_pos_trivial) simp_all
    with True show ?thesis by (simp add: bit_iff_odd)
  next
    case False
    with w have "uint w div 2 ^ 63 = 1" by (intro int_div_pos_eq [where r = "uint w - 2 ^ 63"]) simp_all
    with False show ?thesis by (simp add: bit_iff_odd)
  qed
  then have "sint w = take_bit 64 (uint w) - 2 ^ 64 * of_bool (\<not> uint w < 2 ^ 63)"
    using signed_take_bit_eq_take_bit_minus [of 63 "uint w"] by (simp add: sint_uint)
  then show ?thesis using w by (simp add: take_bit_int_eq_self)
qed

text \<open>
  C38: \<^verbatim>\<open>fseek\<close> keeps the position inside the file: it moves the pointer exactly when the target lies
  in the file, to the start, current or end position plus the offset, and refuses every other
  request without moving. A successful seek from the end nevertheless returns -1.
\<close>

theorem fseek_stays_in_file:
  assumes "uint (f_size f) < 2 ^ 63" and "uint (f_pointer f) < 2 ^ 63"
  shows "fseek offset position f =
    (if 0 \<le> seek_target offset position f \<and> seek_target offset position f < uint (f_size f)
     then (if position = SEEK_END then - 1 else 0, f\<lparr>f_pointer := word_of_int (seek_target offset position f)\<rparr>)
     else (- 2, f))"
proof -
  have o: "0 \<le> uint offset" "uint offset < 2 ^ 64" "0 \<le> uint (f_size f)" "0 \<le> uint (f_pointer f)"
    using unsigned_less [of offset, where ?'a = int] by simp_all
  have le: "(u :: u64) \<le> v \<longleftrightarrow> uint u \<le> uint v" "(u :: u64) < v \<longleftrightarrow> uint u < uint v" for u v
    by (simp_all add: word_le_def word_less_def)
  have of_t: "(word_of_int (sint offset) :: u64) = offset" by simp
  show ?thesis
  proof (cases position)
    case SEEK_SET
    then show ?thesis using assms o of_t
      by (auto simp: fseek_def seek_target_def seek_base_def le sint_eq)
  next
    case SEEK_CUR
    let ?s = "uint offset + uint (f_pointer f)"
    have "?s mod 2 ^ 64 = (if ?s < 2 ^ 64 then ?s else ?s - 2 ^ 64)"
    proof (cases "?s < 2 ^ 64")
      case False
      then have "(?s - 2 ^ 64) mod 2 ^ 64 = ?s - 2 ^ 64" using o assms(2) by (intro mod_pos_pos_trivial) simp_all
      with False show ?thesis by (simp only: minus_mod_self2 if_False)
    qed (use o in simp)
    then have "uint (offset + f_pointer f) = (if ?s < 2 ^ 64 then ?s else ?s - 2 ^ 64)"
      by (simp add: uint_word_ariths)
    moreover have "word_of_int (uint (f_pointer f) + sint offset) = f_pointer f + offset"
      by (simp only: wi_hom_add [symmetric] of_t word_of_int_uint)
    ultimately show ?thesis using SEEK_CUR assms o
      by (auto simp: fseek_def seek_target_def seek_base_def le sint_eq, insert o(4), linarith)
  next
    case SEEK_END
    have "word_of_int (uint (f_size f) + sint offset) = f_size f + offset"
      by (simp only: wi_hom_add [symmetric] of_t word_of_int_uint)
    moreover have "uint (- offset) = 2 ^ 64 - uint offset" if "\<not> uint offset < 2 ^ 63"
    proof -
      have "(2 ^ 64 - uint offset) mod 2 ^ 64 = 2 ^ 64 - uint offset" using that o by (intro mod_pos_pos_trivial) simp_all
      then show ?thesis by (simp add: uint_word_ariths minus_mod_eq_div_mult [symmetric] zmod_zminus1_eq_if)
    qed
    ultimately show ?thesis using SEEK_END assms o
      by (auto simp: fseek_def seek_target_def seek_base_def le sint_eq)
  qed
qed

theorem fseek_stays_in_file_witness:
  "fseek (- 10) SEEK_END \<lparr>f_path = 0, f_volume = 0, f_pointer = 0, f_size = 100, f_flags = 0, f_used = True\<rparr> =
    (- 1, \<lparr>f_path = 0, f_volume = 0, f_pointer = 90, f_size = 100, f_flags = 0, f_used = True\<rparr>)"
proof -
  let ?f = "\<lparr>f_path = 0, f_volume = 0, f_pointer = 0, f_size = 100, f_flags = 0, f_used = True\<rparr>"
  have "sint (- 10 :: u64) = - 10" by simp
  then have "seek_target (- 10) SEEK_END ?f = 90" by (simp add: seek_target_def seek_base_def)
  with fseek_stays_in_file [of ?f "- 10" SEEK_END] show ?thesis by simp
qed

section \<open>Reading\<close>

text \<open>
  \<^verbatim>\<open>fread\<close> refuses (returns 0 and changes nothing) when no bytes or more bytes than the rest of the
  file are asked for. Otherwise, for a file on a FAT32 volume whose clusters hold its size, it
  returns the number of bytes and leaves at \<^verbatim>\<open>ptr\<close> exactly the file's bytes from the position on.
\<close>

theorem fread_reads:
  assumes "drives d img" and "heap_ok (fs_heap s)" and "fs_flat s"
    and "volume_part s (f_volume fp) = Some (disk, part, info)" and "p_fs info = fat32" and "p_fsdata info = Some fs"
    and "file_entry (disk_bytes img disk) (p_loc info) fs names = Some g"
    and "path_at (fs_mem s) (safe_from [(filename, 13), (ent, 32)] s) (f_path fp) names" and "length names < 2 ^ 32"
    and "kept s (filename, 13)" and "kept s (ent, 32)" and "kept s (ptr, unat n)"
    and "served [SECTOR_SIZE, ucast (bytes_per_cluster fs), SECTOR_SIZE, ucast (bytes_per_cluster fs)] s"
    and "open_chain (disk_bytes img disk) (p_loc info) fs cs (first_cluster (entry_of g))" and "length cs < 2 ^ 32"
    and "f_pointer fp \<le> f_size fp" and "unat (f_size fp) \<le> length cs * cluster_size fs"
  shows "if n = 0 \<or> unat (f_size fp) < unat (f_pointer fp) + unat n
    then fread d charbuf ent filename ptr n fp s = Some (0, s)
    else \<exists>s'. fread d charbuf ent filename ptr n fp s = Some (n, s') \<and>
      (\<forall>k < unat n. fs_mem s' (ptr + of_nat k) =
         file_byte (disk_bytes img disk) (p_loc info) fs cs (unat (f_pointer fp) + k))"
proof -
  have "unat (f_size fp - f_pointer fp) = unat (f_size fp) - unat (f_pointer fp)"
    using assms(16) by (simp add: unat_sub word_le_nat_alt)
  then have more: "n > f_size fp - f_pointer fp \<longleftrightarrow> unat (f_size fp) < unat (f_pointer fp) + unat n"
    using assms(16) by (auto simp: word_less_nat_alt word_le_nat_alt)
  show ?thesis
  proof (cases "n = 0 \<or> unat (f_size fp) < unat (f_pointer fp) + unat n")
    case True
    then show ?thesis using more by (auto simp: fread_def)
  next
    case False
    then have "unat (f_pointer fp) + unat n \<le> length cs * cluster_size fs" "n \<noteq> 0" using assms(17) by simp_all
    from sector_source.fat_read_result [OF drives_source [OF assms(1)] assms(2-4,6-15) this(2,1), of charbuf] False more
    show ?thesis by (auto simp: fread_def assms(4,5))
  qed
qed

theorem fread_reads_witness:
  "\<exists>s'. fread (ram_disk demo_disk) 0x5000 0x4000 0x3000 0x6000 1 demo_file demo_state = Some (1, s') \<and> fs_mem s' 0x6000 = 101"
proof -
  obtain g where g: "file_entry (disk_bytes (\<lambda>_. demo_disk) 0) (p_loc demo_info) demo_fs demo_names = Some g"
    "first_cluster (entry_of g) = 3" using demo_entry demo_volume(2) by auto
  have A1: "drives (ram_disk demo_disk) (\<lambda>_. demo_disk)" by (rule ram.drives_axioms)
  have A4: "volume_part demo_state (f_volume demo_file) = Some (0, 0, demo_info)" "p_fs demo_info = fat32"
    using demo_volume by (simp_all add: demo_file_def demo_info_def)
  have A5: "path_at (fs_mem demo_state) (safe_from [(0x3000, 13), (0x4000, 32)] demo_state) (f_path demo_file) demo_names"
    using demo_path by (simp add: demo_state_def demo_file_def)
  have A6: "length demo_names < 2 ^ 32" by (simp add: demo_names_def)
  have A7: "kept demo_state (0x3000, 13)" "kept demo_state (0x4000, 32)" "kept demo_state (0x6000, unat (1 :: u64))"
    by (simp_all add: demo_kept)
  have A8: "open_chain (disk_bytes (\<lambda>_. demo_disk) 0) (p_loc demo_info) demo_fs [3] (first_cluster (entry_of g))"
    using demo_chain g(2) demo_volume(2) by simp
  have A9: "length [3 :: u32] < 2 ^ 32" "f_pointer demo_file \<le> f_size demo_file"
    "unat (f_size demo_file) \<le> length [3 :: u32] * cluster_size demo_fs"
    by (simp_all add: demo_file_def cluster_size_def demo_fs_def)
  have "\<not> ((1 :: u64) = 0 \<or> unat (f_size demo_file) < unat (f_pointer demo_file) + unat (1 :: u64))"
    by (simp add: demo_file_def)
  with fread_reads [OF A1 demo_ok A4 demo_volume(3) g(1) A5 A6 A7 demo_served A8 A9, of "0x5000"]
  obtain s' where s': "fread (ram_disk demo_disk) 0x5000 0x4000 0x3000 0x6000 1 demo_file demo_state = Some (1, s')"
    "\<forall>k < unat (1 :: u64). fs_mem s' (0x6000 + of_nat k) =
       file_byte (disk_bytes (\<lambda>_. demo_disk) 0) (p_loc demo_info) demo_fs [3] (unat (f_pointer demo_file) + k)"
    by auto
  have "file_byte (disk_bytes (\<lambda>_. demo_disk) 0) 0 demo_fs [3] 1 = 101"
    by (simp add: file_byte_def cluster_size_def demo_fs_def cluster_lba_def demo_bytes demo_byte_def take_bit_numeral_numeral)
  then have "fs_mem s' 0x6000 = 101"
    using s'(2) [rule_format, of 0] unfolding demo_volume(2) by (simp add: demo_file_def)
  with s'(1) show ?thesis by blast
qed

end
