(* ===== verification/DiskInit.thy ===== *)
theory DiskInit
  imports FAT
begin

text \<open>
  \<^verbatim>\<open>init_disk\<close> of \<^verbatim>\<open>kernel/disk/PIO.c\<close>: it asks the four possible drives for their size, reads their
  partition tables into the table of drives, gives every nonempty partition the next volume letter
  and mounts the FAT32 volumes.
\<close>

section \<open>Operations\<close>

definition DISKS :: nat where "DISKS = 4"

definition set_blocks :: "u32 \<Rightarrow> u64 \<Rightarrow> fsys \<Rightarrow> fsys" where
  "set_blocks disk b s =
     s\<lparr>disktable := (disktable s)[unat disk := (disktable s ! unat disk)\<lparr>disk_blocks := b\<rparr>]\<rparr>"

text \<open>The loop over the four entries of the partition table, from entry \<^term>\<open>k\<close> on.\<close>

primrec read_table :: "nat \<Rightarrow> nat \<Rightarrow> u64 \<Rightarrow> u32 \<Rightarrow> u16 \<Rightarrow> fsys \<Rightarrow> (u16 \<times> fsys) option" where
  "read_table 0 k buffer disk letter s = Some (letter, s)"
| "read_table (Suc n) k buffer disk letter s = do {
     info \<leftarrow> disk_part s disk (of_nat k);
     let size = part_size (fs_mem s) buffer k;
     let s = set_part disk (of_nat k) (info\<lparr>p_loc := part_loc (fs_mem s) buffer k, p_size := size\<rparr>) s;
     (if size \<noteq> 0
      then (if unat letter < length (volumes s)
        then read_table n (Suc k) buffer disk (letter + 1)
               (s\<lparr>volumes := (volumes s)[unat letter := \<lparr>v_disk = disk, v_partition = of_nat k\<rparr>]\<rparr>)
        else None)
      else read_table n (Suc k) buffer disk letter s)
   }"

text \<open>The loop that mounts: byte \<^verbatim>\<open>0x42\<close> of a partition's first sector marks FAT32.\<close>

primrec detect :: "nat \<Rightarrow> nat \<Rightarrow> device \<Rightarrow> u64 \<Rightarrow> u64 \<Rightarrow> u64 \<Rightarrow> u32 \<Rightarrow> fsys \<Rightarrow> fsys option" where
  "detect 0 k d bpb fatbuf buffer disk s = Some s"
| "detect (Suc n) k d bpb fatbuf buffer disk s = do {
     info \<leftarrow> disk_part s disk (of_nat k);
     s \<leftarrow> read_sec d (p_loc info) 1 buffer disk s;
     s \<leftarrow> (if fs_mem s (buffer + 0x42) = 0x28 \<or> fs_mem s (buffer + 0x42) = 0x29
          then fat_setup d bpb fatbuf disk (of_nat k) s else Some s);
     detect n (Suc k) d bpb fatbuf buffer disk s
   }"

definition init_one :: "device \<Rightarrow> u64 \<Rightarrow> u64 \<Rightarrow> u64 \<Rightarrow> u32 \<Rightarrow> u16 \<Rightarrow> fsys \<Rightarrow> (u16 \<times> fsys) option" where
  "init_one d bpb fatbuf buffer disk letter s =
     (if unat disk < length (disktable s) then do {
        (b, t) \<leftarrow> identify_disk d disk (disk_blocks (disktable s ! unat disk)) (fs_io s);
        let s = set_blocks disk b (s\<lparr>fs_io := t\<rparr>);
        (if b = 0 then Some (letter, s)
         else do {
          s \<leftarrow> read_sec d 0 1 buffer disk s;
          (letter, s) \<leftarrow> read_table 4 0 buffer disk letter s;
          s \<leftarrow> detect 4 0 d bpb fatbuf buffer disk s;
          Some (letter, s)
        })
      }
      else None)"

primrec init_disks :: "nat \<Rightarrow> device \<Rightarrow> u64 \<Rightarrow> u64 \<Rightarrow> u64 \<Rightarrow> u32 \<Rightarrow> u16 \<Rightarrow> fsys \<Rightarrow> (u16 \<times> fsys) option" where
  "init_disks 0 d bpb fatbuf buffer disk letter s = Some (letter, s)"
| "init_disks (Suc n) d bpb fatbuf buffer disk letter s = do {
     (letter, s) \<leftarrow> init_one d bpb fatbuf buffer disk letter s;
     init_disks n d bpb fatbuf buffer (disk + 1) letter s
   }"

text \<open>
  The two tables come from \<^verbatim>\<open>malloc\<close>, which does not clear them: what they hold at first is an
  argument. The sizes are those of four \<^verbatim>\<open>diskdata\<close>, 26 \<^verbatim>\<open>volume_t\<close> and 256 \<^verbatim>\<open>FILE\<close>.
\<close>

definition zero_file :: FILE where
  "zero_file = \<lparr>f_path = 0, f_volume = 0, f_pointer = 0, f_size = 0, f_flags = 0, f_used = False\<rparr>"

definition init_disk ::
  "device \<Rightarrow> u64 \<Rightarrow> u64 \<Rightarrow> u64 \<Rightarrow> diskdata list \<Rightarrow> volume_t list \<Rightarrow> fsys \<Rightarrow> fsys option" where
  "init_disk d bpb fatbuf buffer dt vt s = do {
     (a, s) \<leftarrow> fs_malloc (136 * of_nat DISKS) s;
     (b, s) \<leftarrow> fs_malloc (8 * of_nat LETTERS) s;
     (letter, s) \<leftarrow> init_disks 4 d bpb fatbuf buffer 0 0 (s\<lparr>disktable := dt, volumes := vt\<rparr>);
     (f, s) \<leftarrow> fs_malloc (FILE_SIZE * of_nat MAX_OPEN_FILES) s;
     Some (s\<lparr>files_addr := f, files := replicate MAX_OPEN_FILES zero_file\<rparr>)
   }"

section \<open>Volumes\<close>

text \<open>The entries of the partition table in use, from entry \<^term>\<open>k\<close> on.\<close>

definition used_parts :: "mem \<Rightarrow> u64 \<Rightarrow> nat \<Rightarrow> nat \<Rightarrow> nat list" where
  "used_parts m buffer k n = filter (\<lambda>i. part_size m buffer i \<noteq> 0) [k..<n]"

lemma used_parts_Suc:
  "k < n \<Longrightarrow> used_parts m buffer k n =
     (if part_size m buffer k \<noteq> 0 then k # used_parts m buffer (Suc k) n else used_parts m buffer (Suc k) n)"
  by (simp add: used_parts_def upt_conv_Cons)

lemma disk_part_volumes [simp]: "disk_part (s\<lparr>volumes := v\<rparr>) q r = disk_part s q r"
  by (simp add: disk_part_def)

lemma set_part_fields [simp]:
  "volumes (set_part disk part p s) = volumes s" "fs_mem (set_part disk part p s) = fs_mem s"
  "fs_heap (set_part disk part p s) = fs_heap s" "files (set_part disk part p s) = files s"
  by (simp_all add: set_part_def Let_def)

lemma of_nat_u32: "i < 4 \<Longrightarrow> j < 4 \<Longrightarrow> (of_nat i :: u32) = of_nat j \<longleftrightarrow> i = j"
proof -
  assume "i < 4" "j < 4"
  then have "unat (of_nat i :: u32) = i" "unat (of_nat j :: u32) = j" by (simp_all add: unat_of_nat)
  then show ?thesis by metis
qed

lemma read_table_volumes:
  assumes "\<And>i. k \<le> i \<Longrightarrow> i < k + n \<Longrightarrow> disk_part s disk (of_nat i) = Some (info i)" and "k + n \<le> 4"
    and "unat letter + n \<le> length (volumes s)" and "length (volumes s) < 2 ^ 16"
    and "us = used_parts (fs_mem s) buffer k (k + n)"
  shows "\<exists>s'. read_table n k buffer disk letter s = Some (letter + of_nat (length us), s') \<and>
    (\<forall>j < length us. volumes s' ! (unat letter + j) = \<lparr>v_disk = disk, v_partition = of_nat (us ! j)\<rparr>) \<and>
    (\<forall>j < length (volumes s). j < unat letter \<or> unat letter + length us \<le> j \<longrightarrow> volumes s' ! j = volumes s ! j) \<and>
    length (volumes s') = length (volumes s) \<and>
    (\<forall>i. k \<le> i \<and> i < k + n \<longrightarrow> disk_part s' disk (of_nat i) =
       Some (info i\<lparr>p_loc := part_loc (fs_mem s) buffer i, p_size := part_size (fs_mem s) buffer i\<rparr>)) \<and>
    (\<forall>i. i < k \<longrightarrow> disk_part s' disk (of_nat i) = disk_part s disk (of_nat i))"
  using assms
proof (induction n arbitrary: k letter s us)
  case 0
  then show ?case by (auto simp: used_parts_def)
next
  case (Suc n)
  let ?m = "fs_mem s"
  let ?info = "info k\<lparr>p_loc := part_loc ?m buffer k, p_size := part_size ?m buffer k\<rparr>"
  let ?s1 = "set_part disk (of_nat k) ?info s"
  define b where "b \<longleftrightarrow> part_size ?m buffer k \<noteq> 0"
  let ?s2 = "if b then ?s1\<lparr>volumes := (volumes ?s1)[unat letter := \<lparr>v_disk = disk, v_partition = of_nat k\<rparr>]\<rparr> else ?s1"
  let ?l = "if b then letter + 1 else letter" and ?us = "used_parts ?m buffer (Suc k) (Suc k + n)"
  have k4: "k < 4" "Suc k + n \<le> 4" using Suc.prems(2) by simp_all
  have here: "disk_part s disk (of_nat k) = Some (info k)" using Suc.prems(1) by simp
  note D = disk_part_set [OF here, where p = ?info]
  have ll: "unat letter < length (volumes s)" using Suc.prems(3) by simp
  have l1: "unat (letter + 1) = unat letter + 1" using Suc.prems(3,4) by (simp add: unat_word_ariths)
  have us: "us = (if b then k # ?us else ?us)"
    using used_parts_Suc [of k "k + Suc n" ?m buffer] Suc.prems(5) by (simp add: b_def)
  have run: "read_table (Suc n) k buffer disk letter s = read_table n (Suc k) buffer disk ?l ?s2"
    using ll by (simp add: here Let_def b_def)
  have dp: "disk_part ?s2 disk (of_nat i) = (if i = k then Some ?info else disk_part s disk (of_nat i))" if "i < 4" for i
    using D of_nat_u32 [OF that k4(1)] by simp
  have mem2: "fs_mem ?s2 = ?m" and len2: "length (volumes ?s2) = length (volumes s)" by simp_all
  have "\<exists>s'. read_table n (Suc k) buffer disk ?l ?s2 = Some (?l + of_nat (length ?us), s') \<and>
    (\<forall>j < length ?us. volumes s' ! (unat ?l + j) = \<lparr>v_disk = disk, v_partition = of_nat (?us ! j)\<rparr>) \<and>
    (\<forall>j < length (volumes ?s2). j < unat ?l \<or> unat ?l + length ?us \<le> j \<longrightarrow> volumes s' ! j = volumes ?s2 ! j) \<and>
    length (volumes s') = length (volumes ?s2) \<and>
    (\<forall>i. Suc k \<le> i \<and> i < Suc k + n \<longrightarrow> disk_part s' disk (of_nat i) =
       Some (info i\<lparr>p_loc := part_loc (fs_mem ?s2) buffer i, p_size := part_size (fs_mem ?s2) buffer i\<rparr>)) \<and>
    (\<forall>i. i < Suc k \<longrightarrow> disk_part s' disk (of_nat i) = disk_part ?s2 disk (of_nat i))"
  proof (rule Suc.IH)
    show "disk_part ?s2 disk (of_nat i) = Some (info i)" if "Suc k \<le> i" "i < Suc k + n" for i
      using dp [of i] that k4 Suc.prems(1) [of i] by simp
    show "unat ?l + n \<le> length (volumes ?s2)" using Suc.prems(3) l1 by simp
  qed (use k4 Suc.prems(4) in simp_all)
  then obtain s' where s': "read_table n (Suc k) buffer disk ?l ?s2 = Some (?l + of_nat (length ?us), s')"
    "\<And>j. j < length ?us \<Longrightarrow> volumes s' ! (unat ?l + j) = \<lparr>v_disk = disk, v_partition = of_nat (?us ! j)\<rparr>"
    "\<And>j. j < length (volumes s) \<Longrightarrow> j < unat ?l \<or> unat ?l + length ?us \<le> j \<Longrightarrow> volumes s' ! j = volumes ?s2 ! j"
    "length (volumes s') = length (volumes s)"
    "\<And>i. Suc k \<le> i \<Longrightarrow> i < Suc k + n \<Longrightarrow> disk_part s' disk (of_nat i) =
       Some (info i\<lparr>p_loc := part_loc ?m buffer i, p_size := part_size ?m buffer i\<rparr>)"
    "\<And>i. i < Suc k \<Longrightarrow> disk_part s' disk (of_nat i) = disk_part ?s2 disk (of_nat i)"
    unfolding mem2 len2 by blast
  have "?l + of_nat (length ?us) = letter + of_nat (length us)" by (simp add: us)
  moreover have "volumes s' ! (unat letter + j) = \<lparr>v_disk = disk, v_partition = of_nat (us ! j)\<rparr>" if "j < length us" for j
  proof (cases b)
    case True
    show ?thesis
    proof (cases j)
      case 0
      then show ?thesis using s'(3) [of "unat letter"] ll l1 True by (simp add: us)
    next
      case (Suc i)
      then show ?thesis using s'(2) [of i] that l1 True by (simp add: us)
    qed
  next
    case False
    then show ?thesis using s'(2) [of j] that by (simp add: us)
  qed
  moreover have "volumes s' ! j = volumes s ! j"
    if "j < length (volumes s)" "j < unat letter \<or> unat letter + length us \<le> j" for j
    using s'(3) [of j] that l1 by (cases b) (auto simp: us nth_list_update)
  moreover have "disk_part s' disk (of_nat i) =
      Some (info i\<lparr>p_loc := part_loc ?m buffer i, p_size := part_size ?m buffer i\<rparr>)" if "k \<le> i" "i < k + Suc n" for i
    using s'(5) [of i] s'(6) [of k] dp [OF k4(1)] that by (cases "i = k") simp_all
  moreover have "disk_part s' disk (of_nat i) = disk_part s disk (of_nat i)" if "i < k" for i
    using s'(6) [of i] dp [of i] that k4 by simp
  ultimately show ?case using run s'(1,4) by auto
qed

text \<open>
  C19: The loop of \<^verbatim>\<open>init_disk\<close> over a drive's partition table gives the nonempty partitions, in order,
  the next volume letters and leaves every other letter alone; each of the four partitions takes
  its place and size from the table.
\<close>

theorem init_disk_volumes:
  assumes "\<And>i. i < 4 \<Longrightarrow> disk_part s disk (of_nat i) = Some (info i)" and "unat letter + 4 \<le> length (volumes s)"
    and "length (volumes s) = LETTERS" and "us = used_parts (fs_mem s) buffer 0 4"
  shows "\<exists>s'. read_table 4 0 buffer disk letter s = Some (letter + of_nat (length us), s') \<and>
    (\<forall>j < length us. volumes s' ! (unat letter + j) = \<lparr>v_disk = disk, v_partition = of_nat (us ! j)\<rparr>) \<and>
    (\<forall>j < LETTERS. j < unat letter \<or> unat letter + length us \<le> j \<longrightarrow> volumes s' ! j = volumes s ! j) \<and>
    (\<forall>i < 4. disk_part s' disk (of_nat i) =
       Some (info i\<lparr>p_loc := part_loc (fs_mem s) buffer i, p_size := part_size (fs_mem s) buffer i\<rparr>))"
  using read_table_volumes [of 0 4 s disk info letter us buffer] assms by (auto simp: LETTERS_def)

definition demo_table :: fsys where
  "demo_table = demo_fsys\<lparr>disktable := [\<lparr>disk_blocks = 100, parts = replicate 4 demo_part\<rparr>],
     volumes := replicate LETTERS \<lparr>v_disk = 9, v_partition = 9\<rparr>,
     fs_mem := (\<lambda>_. 0)(0x1000 + 0x1D6 := 3, 0x1000 + 0x1DA := 50, 0x1000 + 0x1F6 := 60, 0x1000 + 0x1FA := 10)\<rparr>"

theorem init_disk_volumes_witness:
  "\<exists>s'. read_table 4 0 0x1000 0 0 demo_table = Some (2, s') \<and> volumes s' ! 1 = \<lparr>v_disk = 0, v_partition = 3\<rparr> \<and>
    disk_part s' 0 1 = Some (demo_part\<lparr>p_loc := 3, p_size := 50\<rparr>)"
proof -
  have us: "used_parts (fs_mem demo_table) 0x1000 0 4 = [1, 3]"
    by (simp add: used_parts_def upt_rec part_size_def int_field_def demo_table_def)
  have "unat (of_nat i :: u32) = i" if "i < 4" for i using that by (simp add: unat_of_nat)
  then have "disk_part demo_table 0 (of_nat i) = Some demo_part" if "i < 4" for i
    using that by (simp add: disk_part_def demo_table_def)
  from init_disk_volumes [OF this, of 0 "[1, 3]" "0x1000"] us obtain s' where
    s': "read_table 4 0 0x1000 0 0 demo_table = Some (0 + of_nat (length [1, 3 :: nat]), s')"
    "\<And>j. j < length [1, 3 :: nat] \<Longrightarrow> volumes s' ! (unat (0 :: u16) + j) = \<lparr>v_disk = 0, v_partition = of_nat ([1, 3] ! j)\<rparr>"
    "\<And>i. i < 4 \<Longrightarrow> disk_part s' 0 (of_nat i) =
       Some (demo_part\<lparr>p_loc := part_loc (fs_mem demo_table) 0x1000 i, p_size := part_size (fs_mem demo_table) 0x1000 i\<rparr>)"
    by (auto simp: demo_table_def LETTERS_def)
  have "part_loc (fs_mem demo_table) 0x1000 1 = 3" "part_size (fs_mem demo_table) 0x1000 1 = 50"
    by (simp_all add: part_loc_def part_size_def int_field_def demo_table_def)
  then show ?thesis using s'(1) s'(2) [of 1] s'(3) [of 1] by simp
qed

end
