(* ===== verification/FSOpen.thy ===== *)
theory FSOpen
  imports FS DiskInit
begin

text \<open>
  What \<^verbatim>\<open>fopen\<close> of \<^verbatim>\<open>kernel/fs/FS.c\<close> does with a path that is there: the path's text is split into
  its components, in blocks of the kernel heap, and the handle has the size of the file found. With
  \<^verbatim>\<open>fread\<close> this gives the file's bytes.
\<close>

section \<open>Paths\<close>

text \<open>The text of a path is \<^verbatim>\<open>|\<close>, the letter of the volume, \<^verbatim>\<open>/\<close> and the names with \<^verbatim>\<open>/\<close> between them.\<close>

fun joined :: "u8 list list \<Rightarrow> u8 list" where
  "joined [] = []"
| "joined [w] = w"
| "joined (w # ws) = w @ 47 # joined ws"

definition path_text :: "u8 \<Rightarrow> u8 list list \<Rightarrow> u8 list" where
  "path_text volume names = 124 # (65 + volume) # 47 # joined names"

definition good_name :: "u8 list \<Rightarrow> bool" where
  "good_name w \<longleftrightarrow> 0 \<notin> set w \<and> 47 \<notin> set w \<and> length w < 256"

lemma count_dirs_text: "cstr m a w \<Longrightarrow> count_dirs m a n = Some (n + of_nat (count_list w 47))"
proof (induction w arbitrary: a n)
  case Nil
  then show ?case by (subst count_dirs.simps) simp
next
  case (Cons c w)
  then show ?case by (subst count_dirs.simps) (auto simp: algebra_simps)
qed

lemma joined_slashes: "ws \<noteq> [] \<Longrightarrow> \<forall>w \<in> set ws. good_name w \<Longrightarrow> Suc (count_list (joined ws) 47) = length ws"
proof (induction ws rule: joined.induct)
  case (2 w)
  then have "count_list w 47 = 0" by (simp add: good_name_def count_list_0_iff)
  then show ?case by simp
next
  case (3 w v vs)
  then have "count_list w 47 = 0" by (simp add: good_name_def count_list_0_iff)
  with 3 show ?case by simp
qed simp

section \<open>Copying the components\<close>

lemma unat_offset: "unat (x - a) = k \<longleftrightarrow> x = a + of_nat k \<and> k < 2 ^ 64" for x a :: u64
  using unat_u64_less [of "x - a"] by auto

lemma fill_Cons:
  assumes "Suc (length w) < 2 ^ 64"
  shows "fill (m(a := c)) (a + 1) (length w) (nth w) = fill m a (Suc (length w)) (nth (c # w))"
proof
  fix x
  show "fill (m(a := c)) (a + 1) (length w) (nth w) x = fill m a (Suc (length w)) (nth (c # w)) x"
  proof (cases "x = a")
    case True
    have "unat (a - (a + 1)) = 2 ^ 64 - 1" by simp
    with True assms show ?thesis by (simp add: fill_def)
  next
    case False
    then have "unat (x - a) \<noteq> 0" by (simp add: unat_eq_0)
    then have "unat (x - (a + 1)) = unat (x - a) - 1"
      using unat_minus_one [of "x - a"] by (simp add: unat_eq_0 algebra_simps)
    with False \<open>unat (x - a) \<noteq> 0\<close> show ?thesis by (auto simp: fill_def nth_Cons split: nat.splits)
  qed
qed

lemma load64_apart:
  assumes "apart (b, n) (q, 8)" and "\<And>x. n \<le> unat (x - b) \<Longrightarrow> m' x = m x"
  shows "load64 m' q = load64 m q"
proof (rule load_le_cong)
  fix i :: nat
  assume "i < 8"
  then have "n \<le> unat (q + of_nat i - b)" using apartD [OF assms(1) [unfolded apart_sym [of "(b, n)"]], of i] by simp
  then show "m' (q + of_nat i) = m (q + of_nat i)" by (rule assms(2))
qed

text \<open>The inner loop copies a name to its block \<^term>\<open>b\<close>.\<close>

lemma split_name:
  assumes "\<And>k. k < length w \<Longrightarrow> m (p + of_nat k) = w ! k" and "0 \<notin> set w" and "47 \<notin> set w"
    and "load64 m (fpath + 8 * ucast j) = b" and "apart (b, 256) (fpath + 8 * ucast j, 8)"
    and "apart (b, 256) (p, length w)" and "i + length w < 256"
  shows "split_path fpath p j (of_nat i) m =
    split_path fpath (p + of_nat (length w)) j (of_nat (i + length w)) (fill m (b + of_nat i) (length w) (nth w))"
  using assms
proof (induction w arbitrary: p i m)
  case Nil
  have "fill m (b + of_nat i) 0 (nth []) = m" by (simp add: fill_def fun_eq_iff)
  then show ?case by simp
next
  case (Cons c w)
  let ?m = "m(b + of_nat i := c)"
  have c: "m p = c" "c \<noteq> 0" "c \<noteq> 47" using Cons.prems(1) [of 0] Cons.prems(2,3) by auto
  have i: "unat (of_nat i :: u32) = i" using Cons.prems(7) by (simp add: unat_of_nat)
  have ii: "ucast (of_nat i :: u32) = (of_nat i :: u64)" using Cons.prems(7) by (simp add: word_unat_eq_iff i)
  have ne: "m' x = m x" if "m' = ?m" "unat (x - q) < n" "apart (b, 256) (q, n)" for x q n and m' :: mem
  proof -
    have "x \<noteq> b + of_nat i" using that(2,3) apartD [of b 256 q n i] Cons.prems(7) by force
    with that(1) show ?thesis by simp
  qed
  have rest: "?m (p + 1 + of_nat k) = w ! k" if "k < length w" for k
  proof -
    have "unat (p + of_nat (Suc k) - p) < Suc (length w)" using that Cons.prems(7) by (simp del: of_nat_Suc)
    from ne [OF refl this] Cons.prems(1) [of "Suc k"] Cons.prems(6) that show ?thesis by (simp add: algebra_simps)
  qed
  have ap: "apart (b, 256) (p + 1, length w)"
    using apart_sub [of b 256 p "Suc (length w)" 1 "length w"] Cons.prems(6,7) by simp
  have ld: "load64 ?m (fpath + 8 * ucast j) = b"
    using Cons.prems(4,7) load64_apart [OF Cons.prems(5), of ?m m] by fastforce
  have "split_path fpath p j (of_nat i) m = split_path fpath (p + 1) j (of_nat i + 1) ?m"
    using c Cons.prems(4) by (subst split_path.simps) (simp add: ii)
  also have "\<dots> = split_path fpath (p + 1) j (of_nat (Suc i)) ?m" by (simp add: add.commute)
  also have "\<dots> = split_path fpath (p + 1 + of_nat (length w)) j (of_nat (Suc i + length w))
      (fill ?m (b + of_nat (Suc i)) (length w) (nth w))"
    using Cons.prems by (intro Cons.IH rest ld ap) simp_all
  also have "fill ?m (b + of_nat (Suc i)) (length w) (nth w) = fill m (b + of_nat i) (Suc (length w)) (nth (c # w))"
    using fill_Cons [of w m "b + of_nat i" c] Cons.prems(7) by (simp add: algebra_simps)
  finally show ?case by (simp add: algebra_simps)
qed

text \<open>The blocks of the names, from name \<^term>\<open>j\<close> of \<^term>\<open>n\<close> on, before they are filled.\<close>

definition blocks_ready :: "mem \<Rightarrow> u64 \<Rightarrow> nat \<Rightarrow> nat \<Rightarrow> (nat \<Rightarrow> u64) \<Rightarrow> bool" where
  "blocks_ready m fpath j n b \<longleftrightarrow> n < 2 ^ 32 \<and>
     (\<forall>k < n. load64 m (fpath + 8 * of_nat k) = b k \<and> apart (b k, 256) (fpath, 8 * (n + 1)) \<and>
        (\<forall>l < n. k \<noteq> l \<longrightarrow> apart (b k, 256) (b l, 256)) \<and> (j \<le> k \<longrightarrow> (\<forall>x < 256. m (b k + of_nat x) = 0)))"

lemma unat_slot: "n < 2 ^ 32 \<Longrightarrow> k \<le> n \<Longrightarrow> unat (8 * of_nat k :: u64) = 8 * k"
  by (simp add: unat_word_ariths)

lemma slot_apart:
  assumes "apart r (fpath, 8 * (n + 1))" and "n < 2 ^ 32" and "k \<le> n"
  shows "apart r (fpath + 8 * of_nat k, 8)"
proof -
  obtain a l where r: "r = (a, l)" by force
  have "apart (a, l) (fpath + of_nat (8 * k), 8)" using assms unfolding r by (intro apart_sub) auto
  then show ?thesis by (simp add: r)
qed

lemma fill_apart: "apart (b, n) (q, l) \<Longrightarrow> unat (x - q) < l \<Longrightarrow> k \<le> n \<Longrightarrow> fill m b k g x = m x"
  by (force simp: fill_def apart_def not_less [symmetric])

lemma blocks_ready_next:
  assumes r: "blocks_ready m fpath j n b" and j: "j < n" and out: "\<And>x. 256 \<le> unat (x - b j) \<Longrightarrow> m' x = m x"
  shows "blocks_ready m' fpath (Suc j) n b"
proof -
  have n: "n < 2 ^ 32" using r by (simp add: blocks_ready_def)
  have "load64 m' (fpath + 8 * of_nat k) = load64 m (fpath + 8 * of_nat k)" if "k < n" for k
    using slot_apart [of "(b j, 256)" fpath n k] r j that
    by (intro load64_apart [of "b j" 256] out) (simp_all add: blocks_ready_def)
  moreover have "m' (b k + of_nat x) = 0" if "Suc j \<le> k" "k < n" "x < 256" for k x
  proof -
    have "apart (b k, 256) (b j, 256)" using r j that by (simp add: blocks_ready_def)
    from out [OF apartD [OF this]] that r show ?thesis by (simp add: blocks_ready_def)
  qed
  ultimately show ?thesis using r n by (simp add: blocks_ready_def)
qed

lemma fill_name:
  assumes "\<forall>x < 256. m (b + of_nat x) = 0" and "good_name w"
  shows "cstr (fill m b (length w) (nth w)) b w"
  using assms by (auto simp: cstr_nth fill_def good_name_def in_set_conv_nth)

lemma split_names:
  assumes "ws \<noteq> []" and "\<forall>w \<in> set ws. good_name w" and "cstr m p (joined ws)" and "length (joined ws) < 2 ^ 63"
    and "blocks_ready m fpath j n b" and "n = j + length ws"
    and "\<And>k. k < n \<Longrightarrow> apart (b k, 256) (p, Suc (length (joined ws)))"
  shows "\<exists>m'. split_path fpath p (of_nat j) 0 m = Some m' \<and> (\<forall>k < length ws. cstr m' (b (j + k)) (ws ! k)) \<and>
    (\<forall>x. 8 \<le> unat (x - (fpath + 8 * of_nat n)) \<longrightarrow> (\<forall>k < n. j \<le> k \<longrightarrow> 256 \<le> unat (x - b k)) \<longrightarrow> m' x = m x)"
  using assms
proof (induction ws arbitrary: m p j rule: joined.induct)
  case 1
  then show ?case by simp
next
  case (2 w)
  have j: "j < n" "n = Suc j" "n < 2 ^ 32" using "2.prems" by (simp_all add: blocks_ready_def)
  have w: "0 \<notin> set w" "47 \<notin> set w" "length w < 256" and g: "good_name w" using "2.prems"(2) by (simp_all add: good_name_def)
  have letters: "m (p + of_nat k) = w ! k" if "k < length w" for k using "2.prems"(3) that by (simp add: cstr_nth)
  have jj: "ucast (of_nat j :: u32) = (of_nat j :: u64)" "ucast (of_nat j + 1 :: u32) = (of_nat n :: u64) \<or> n = 2 ^ 32"
    using j by (simp_all add: word_unat_eq_iff unat_of_nat unat_word_ariths)
  define m1 where "m1 = fill m (b j) (length w) (nth w)"
  have slot: "load64 m (fpath + 8 * ucast (of_nat j :: u32)) = b j" "apart (b j, 256) (fpath + 8 * ucast (of_nat j :: u32), 8)"
    using "2.prems"(5) slot_apart [of "(b j, 256)" fpath n j] j by (simp_all add: blocks_ready_def jj(1))
  have ap: "apart (b j, 256) (p, Suc (length w))" using "2.prems"(7) [of j] j by simp
  then have "apart (b j, 256) (p, length w)" by (rule apart_shrink) simp_all
  from split_name [of w m p fpath "of_nat j" "b j" 0, OF letters w(1,2) slot this] w(3)
  have "split_path fpath p (of_nat j) 0 m = split_path fpath (p + of_nat (length w)) (of_nat j) (of_nat (length w)) m1"
    by (simp add: m1_def)
  moreover have "m1 (p + of_nat (length w)) = 0"
  proof -
    have "m1 (p + of_nat (length w)) = m (p + of_nat (length w))"
      unfolding m1_def using w(3) by (intro fill_apart [OF ap]) simp_all
    then show ?thesis using "2.prems"(3) by (simp add: cstr_nth)
  qed
  ultimately have run: "split_path fpath p (of_nat j) 0 m = Some (store64 m1 (fpath + 8 * of_nat n) 0)"
    using jj(2) j by (subst (asm) (2) split_path.simps) simp
  let ?m = "store64 m1 (fpath + 8 * of_nat n) 0"
  have away: "apart (b j, 256) (fpath + 8 * of_nat n, 8)"
    using slot_apart [of "(b j, 256)" fpath n n] "2.prems"(5) j by (simp add: blocks_ready_def)
  have "\<forall>x < 256. m (b j + of_nat x) = 0" using "2.prems"(5) j by (simp add: blocks_ready_def)
  from fill_name [OF this g] have "cstr m1 (b j) w" by (simp add: m1_def)
  moreover have "?m (b j + of_nat k) = m1 (b j + of_nat k)" if "k < 256" for k
    using apartD [OF away, of k] that by (simp add: store_le_def)
  ultimately have "cstr ?m (b j) w" using cstr_cong [of w ?m "b j" m1] w(3) by simp
  moreover have "?m x = m x" if "8 \<le> unat (x - (fpath + 8 * of_nat n))" "256 \<le> unat (x - b j)" for x
    using that w(3) by (simp add: store_le_def m1_def fill_def)
  ultimately show ?case using run j by auto
next
  case (3 w v vs)
  let ?ws = "v # vs"
  have j: "j < n" "n = Suc j + length ?ws" "n < 2 ^ 32" using "3.prems" by (simp_all add: blocks_ready_def)
  have w: "0 \<notin> set w" "47 \<notin> set w" "length w < 256" and g: "good_name w" using "3.prems"(2) by (simp_all add: good_name_def)
  have len: "length (joined (w # ?ws)) = length w + 1 + length (joined ?ws)" by simp
  have char: "m (p + of_nat k) = (w @ 47 # joined ?ws) ! k" if "k < length (joined (w # ?ws))" for k
    using "3.prems"(3) that by (simp add: cstr_nth)
  have letters: "m (p + of_nat k) = w ! k" if "k < length w" for k using char [of k] that by (simp add: nth_append)
  have jj: "ucast (of_nat j :: u32) = (of_nat j :: u64)" using j by (simp add: word_unat_eq_iff unat_of_nat)
  define m1 where "m1 = fill m (b j) (length w) (nth w)"
  define m2 where "m2 = m1(b j + of_nat (length w) := 0)"
  have slot: "load64 m (fpath + 8 * ucast (of_nat j :: u32)) = b j" "apart (b j, 256) (fpath + 8 * ucast (of_nat j :: u32), 8)"
    using "3.prems"(5) slot_apart [of "(b j, 256)" fpath n j] j by (simp_all add: blocks_ready_def jj)
  have ap: "apart (b j, 256) (p, Suc (length (joined (w # ?ws))))" using "3.prems"(7) [of j] j by simp
  then have "apart (b j, 256) (p, length w)" by (rule apart_shrink) simp_all
  from split_name [of w m p fpath "of_nat j" "b j" 0, OF letters w(1,2) slot this] w(3)
  have "split_path fpath p (of_nat j) 0 m = split_path fpath (p + of_nat (length w)) (of_nat j) (of_nat (length w)) m1"
    by (simp add: m1_def)
  moreover have "m1 (p + of_nat (length w)) = 47"
  proof -
    have "m1 (p + of_nat (length w)) = m (p + of_nat (length w))"
      unfolding m1_def using w(3) by (intro fill_apart [OF ap]) simp_all
    then show ?thesis using char [of "length w"] by simp
  qed
  moreover have "load64 m1 (fpath + 8 * ucast (of_nat j :: u32)) = b j"
    using slot(1) load64_apart [OF slot(2), of m1 m] w(3) by (simp add: m1_def fill_def)
  moreover have "ucast (of_nat (length w) :: u32) = (of_nat (length w) :: u64)"
    using w(3) by (simp add: word_unat_eq_iff unat_of_nat)
  ultimately have run: "split_path fpath p (of_nat j) 0 m = split_path fpath (p + of_nat (Suc (length w))) (of_nat (Suc j)) 0 m2"
    by (subst (asm) (2) split_path.simps) (simp add: m2_def algebra_simps)
  have out: "m2 x = m x" if "256 \<le> unat (x - b j)" for x
    using that w(3) by (auto simp: m2_def m1_def fill_def)
  have ready: "blocks_ready m2 fpath (Suc j) n b" by (rule blocks_ready_next [OF "3.prems"(5) j(1) out])
  have ap2: "apart (b k, 256) (p + of_nat (Suc (length w)), Suc (length (joined ?ws)))" if "k < n" for k
    using "3.prems"(7) [OF that] "3.prems"(4) by (intro apart_sub [of "b k" 256 p "Suc (length (joined (w # ?ws)))"]) (simp_all del: of_nat_Suc)
  have cm: "cstr m (p + of_nat (Suc (length w))) (joined ?ws)"
  proof -
    have "m (p + of_nat (Suc (length w)) + of_nat k) = joined ?ws ! k \<and> joined ?ws ! k \<noteq> 0" if "k < length (joined ?ws)" for k
      using "3.prems"(3) that unfolding cstr_nth
      by (auto simp: nth_append algebra_simps dest!: spec [of _ "Suc (length w + k)"])
    moreover have "m (p + of_nat (Suc (length w)) + of_nat (length (joined ?ws))) = 0"
      using "3.prems"(3) by (simp add: cstr_nth algebra_simps)
    ultimately show ?thesis by (simp add: cstr_nth)
  qed
  have c2: "cstr m2 (p + of_nat (Suc (length w))) (joined ?ws)"
  proof -
    have "m2 (p + of_nat (Suc (length w)) + of_nat k) = m (p + of_nat (Suc (length w)) + of_nat k)"
      if "k \<le> length (joined ?ws)" for k
      using that ap2 [OF j(1)] "3.prems"(4) unfolding apart_sym [of "(b j, 256)"]
      by (intro out) (auto simp: apart_def simp del: of_nat_Suc)
    then show ?thesis using cm cstr_cong by metis
  qed
  obtain m' where m': "split_path fpath (p + of_nat (Suc (length w))) (of_nat (Suc j)) 0 m2 = Some m'"
    "\<forall>k < length ?ws. cstr m' (b (Suc j + k)) (?ws ! k)"
    "\<And>x. 8 \<le> unat (x - (fpath + 8 * of_nat n)) \<Longrightarrow> \<forall>k < n. Suc j \<le> k \<longrightarrow> 256 \<le> unat (x - b k) \<Longrightarrow> m' x = m2 x"
    using "3.IH" [OF _ _ c2 _ ready j(2) ap2] "3.prems"(2,4) by auto
  have keep: "m' (b j + of_nat k) = m2 (b j + of_nat k)" if "k < 256" for k
  proof (rule m'(3))
    show "8 \<le> unat (b j + of_nat k - (fpath + 8 * of_nat n))"
      using apartD [OF slot_apart [of "(b j, 256)" fpath n n], of k] "3.prems"(5) j that by (simp add: blocks_ready_def)
    show "\<forall>l < n. Suc j \<le> l \<longrightarrow> 256 \<le> unat (b j + of_nat k - b l)"
      using "3.prems"(5) j that by (auto simp: blocks_ready_def intro!: apartD)
  qed
  have "\<forall>x < 256. m (b j + of_nat x) = 0" using "3.prems"(5) j by (simp add: blocks_ready_def)
  from fill_name [OF this g] have "cstr m1 (b j) w" by (simp add: m1_def)
  then have "cstr m2 (b j) w" by (auto simp: cstr_nth m2_def)
  then have here: "cstr m' (b j) w" using cstr_cong [of w m' "b j" m2] keep w(3) by simp
  have "\<forall>k < length (w # ?ws). cstr m' (b (j + k)) ((w # ?ws) ! k)"
    using here m'(2) by (auto simp: nth_Cons split: nat.splits)
  moreover have "m' x = m x" if "8 \<le> unat (x - (fpath + 8 * of_nat n))" "\<forall>k < n. j \<le> k \<longrightarrow> 256 \<le> unat (x - b k)" for x
    using m'(3) [of x] out [of x] that j(1) by auto
  ultimately show ?case using run m'(1) by auto
qed

section \<open>Allocating the blocks\<close>

lemma kept_mono: "spare_mem s' \<subseteq> spare_mem s \<Longrightarrow> kept s r \<Longrightarrow> kept s' r"
  by (auto simp: kept_def)

lemma kept_apart: "\<forall>x. unat (x - b) < l \<longrightarrow> unat x \<in> spare_mem s \<Longrightarrow> kept s r \<Longrightarrow> apart (b, l) r"
  by (force simp: apart_def kept_def not_less [symmetric])

lemma fs_malloc_bump:
  assumes b: "bump (fs_heap s) b room c" "sz \<noteq> 0" "unat sz \<le> room" "c < ALLOCATIONS" and lim: "0 < unat b"
  shows "\<exists>k. fs_malloc sz s = Some (b, s\<lparr>fs_heap := k\<rparr>) \<and> bump k (b + sz) (room - unat sz) (Suc c) \<and>
    kept (s\<lparr>fs_heap := k\<rparr>) (b, unat sz) \<and> (\<forall>x. unat (x - b) < unat sz \<longrightarrow> unat x \<in> spare_mem s) \<and>
    spare_mem (s\<lparr>fs_heap := k\<rparr>) \<subseteq> spare_mem s \<and> (fs_flat s \<longrightarrow> fs_flat (s\<lparr>fs_heap := k\<rparr>))"
proof -
  obtain k where k: "malloc sz (fs_heap s) = Some (b, k)" "bump k (b + sz) (room - unat sz) (Suc c)"
    using bump_malloc [OF b] by blast
  then have m: "fs_malloc sz s = Some (b, s\<lparr>fs_heap := k\<rparr>)" by (simp add: fs_malloc_def)
  have ok: "heap_ok (fs_heap s)" using b(1) by (simp add: bump_def)
  have b0: "b \<noteq> 0" using lim by auto
  have "unat x \<in> spare_mem s" if "unat (x - b) < unat sz" for x
    using fs_malloc_safe(1) [OF ok m b0, of x] that by force
  moreover have "spare_mem (s\<lparr>fs_heap := k\<rparr>) \<subseteq> spare_mem s" using fs_malloc_fields(7) [OF ok m] .
  ultimately show ?thesis using m k(2) fs_malloc_block(1) [OF ok m b0] fs_malloc_flat [OF ok m] by blast
qed

lemma unat_sub_offset: "n \<le> unat (x - b) \<Longrightarrow> unat (x - (b + of_nat n)) = unat (x - b) - n" for x b :: u64
  using unat_sub [of "of_nat n" "x - b"] unat_u64_less [of "x - b"] by (simp add: word_le_nat_alt algebra_simps)

lemma kept_append:
  assumes "kept s (b, l)" and "kept s (b + of_nat l, l')" and "l + l' < 2 ^ 64"
  shows "kept s (b, l + l')"
proof -
  have "unat x \<notin> spare_mem s" if "unat (x - b) < l + l'" for x
  proof (cases "unat (x - b) < l")
    case False
    then have "unat (x - (b + of_nat l)) = unat (x - b) - l"
      by (intro unat_sub_offset) simp
    with assms(2) that False show ?thesis by (simp add: kept_def)
  qed (use assms(1) in \<open>simp add: kept_def\<close>)
  then show ?thesis by (simp add: kept_def)
qed

lemma unat_add_of_nat: "unat b + n < 2 ^ 64 \<Longrightarrow> unat (b + of_nat n) = unat b + n" for b :: u64
  by (simp add: unat_word_ariths)

lemma unat_minus_slot: "unat (y - 8) = (if unat y < 8 then 2 ^ 64 - 8 + unat y else unat y - 8)" for y :: u64
  by (auto simp: unat_sub_if_size word_size word_le_nat_alt)

lemma alloc_names_bump:
  assumes "bump (fs_heap s) b room c" and "256 * n \<le> room" and "c + n \<le> ALLOCATIONS" and "i + n < 2 ^ 32"
    and "0 < unat b" and "unat b + room < 2 ^ 64"
  shows "\<exists>s'. alloc_names n (of_nat i) fpath s = Some s' \<and> s' = s\<lparr>fs_heap := fs_heap s', fs_mem := fs_mem s'\<rparr> \<and>
    bump (fs_heap s') (b + of_nat (256 * n)) (room - 256 * n) (c + n) \<and>
    (\<forall>k < n. load64 (fs_mem s') (fpath + 8 * of_nat (i + k)) = b + of_nat (256 * k)) \<and>
    (\<forall>x. 8 * n \<le> unat (x - (fpath + 8 * of_nat i)) \<longrightarrow> fs_mem s' x = fs_mem s x) \<and>
    kept s' (b, 256 * n) \<and> (\<forall>x. unat (x - b) < 256 * n \<longrightarrow> unat x \<in> spare_mem s) \<and>
    spare_mem s' \<subseteq> spare_mem s \<and> (fs_flat s \<longrightarrow> fs_flat s')"
  using assms
proof (induction n arbitrary: s b room c i)
  case 0
  then show ?case by (auto simp: kept_def)
next
  case (Suc n)
  obtain k where k: "fs_malloc 256 s = Some (b, s\<lparr>fs_heap := k\<rparr>)" "bump k (b + 256) (room - 256) (Suc c)"
    "kept (s\<lparr>fs_heap := k\<rparr>) (b, 256)" "\<forall>x. unat (x - b) < 256 \<longrightarrow> unat x \<in> spare_mem s"
    "spare_mem (s\<lparr>fs_heap := k\<rparr>) \<subseteq> spare_mem s" "fs_flat s \<longrightarrow> fs_flat (s\<lparr>fs_heap := k\<rparr>)"
    using fs_malloc_bump [OF Suc.prems(1), of 256] Suc.prems by auto
  have ii: "ucast (of_nat i :: u32) = (of_nat i :: u64)" using Suc.prems(4) by (simp add: word_unat_eq_iff unat_of_nat)
  let ?q = "fpath + 8 * of_nat i :: u64"
  define s1 where "s1 = s\<lparr>fs_heap := k, fs_mem := store64 (fs_mem s) ?q b\<rparr>"
  have sp: "spare_mem s1 = spare_mem (s\<lparr>fs_heap := k\<rparr>)" and fl: "fs_flat s1 = fs_flat (s\<lparr>fs_heap := k\<rparr>)"
    by (simp_all add: s1_def spare_mem_def fs_flat_def)
  have b1: "unat (b + 256) = unat b + 256" using unat_add_of_nat [of b 256] Suc.prems by simp
  have next1: "bump (fs_heap s1) (b + 256) (room - 256) (Suc c)" using k(2) by (simp add: s1_def)
  have "256 * n \<le> room - 256" "Suc c + n \<le> ALLOCATIONS" "Suc i + n < 2 ^ 32" "0 < unat (b + 256)"
    "unat (b + 256) + (room - 256) < 2 ^ 64"
    using Suc.prems b1 by simp_all
  from Suc.IH [OF next1 this] obtain s' where
    s': "alloc_names n (of_nat (Suc i)) fpath s1 = Some s'" "s' = s1\<lparr>fs_heap := fs_heap s', fs_mem := fs_mem s'\<rparr>"
    "bump (fs_heap s') (b + 256 + of_nat (256 * n)) (room - 256 - 256 * n) (Suc c + n)"
    "\<forall>k < n. load64 (fs_mem s') (fpath + 8 * of_nat (Suc i + k)) = b + 256 + of_nat (256 * k)"
    "\<forall>x. 8 * n \<le> unat (x - (fpath + 8 * of_nat (Suc i))) \<longrightarrow> fs_mem s' x = fs_mem s1 x"
    "kept s' (b + 256, 256 * n)" "\<forall>x. unat (x - (b + 256)) < 256 * n \<longrightarrow> unat x \<in> spare_mem s1"
    "spare_mem s' \<subseteq> spare_mem s1" "fs_flat s1 \<longrightarrow> fs_flat s'"
    by (elim exE conjE) (rule that; assumption)
  have q1: "fpath + 8 * of_nat (Suc i) = ?q + 8" by (simp add: algebra_simps)
  have near: "unat (x - (?q + 8)) = (if unat (x - ?q) < 8 then 2 ^ 64 - 8 + unat (x - ?q) else unat (x - ?q) - 8)" for x
    using unat_minus_slot [of "x - ?q"] by (simp only: diff_diff_eq)
  have out: "fs_mem s' x = fs_mem s1 x" if "unat (x - ?q) < 8 \<or> 8 * Suc n \<le> unat (x - ?q)" for x
  proof -
    have "8 * n \<le> unat (x - (?q + 8))" unfolding near using that Suc.prems(4) by auto
    then show ?thesis using s'(5) unfolding q1 by blast
  qed
  have "alloc_names (Suc n) (of_nat i) fpath s = Some s'"
    using k(1) s'(1) by (simp add: FILENAME_LENGTH_def s1_def ii add.commute)
  moreover have "s' = s\<lparr>fs_heap := fs_heap s', fs_mem := fs_mem s'\<rparr>" using s'(2) by (simp add: s1_def)
  moreover have "bump (fs_heap s') (b + of_nat (256 * Suc n)) (room - 256 * Suc n) (c + Suc n)"
    using s'(3) by (simp add: algebra_simps)
  moreover have "load64 (fs_mem s') (fpath + 8 * of_nat (i + j)) = b + of_nat (256 * j)" if "j < Suc n" for j
  proof (cases j)
    case 0
    have "load64 (fs_mem s') ?q = load64 (fs_mem s1) ?q" by (rule load_le_cong) (simp add: out)
    with 0 show ?thesis by (simp add: s1_def)
  next
    case (Suc l)
    with s'(4) [rule_format, of l] that show ?thesis by (simp add: algebra_simps)
  qed
  moreover have "fs_mem s' x = fs_mem s x" if "8 * Suc n \<le> unat (x - ?q)" for x
    using out that by (simp add: s1_def store_le_def)
  moreover have "kept s' (b, 256 * Suc n)"
  proof -
    have "kept s1 (b, 256)" using k(3) sp by (simp add: kept_def)
    from kept_mono [OF s'(8) this] have "kept s' (b, 256 + 256 * n)"
      using s'(6) Suc.prems by (intro kept_append) simp_all
    then show ?thesis by simp
  qed
  moreover have "unat x \<in> spare_mem s" if "unat (x - b) < 256 * Suc n" for x
  proof (cases "unat (x - b) < 256")
    case False
    then have "unat (x - (b + 256)) = unat (x - b) - 256"
      using unat_sub_offset [of 256 x b] by simp
    then show ?thesis using s'(7) [rule_format, of x] that False sp k(5) by auto
  qed (use k(4) in simp)
  ultimately show ?case using s'(8,9) sp fl k(5,6) by auto
qed

lemma bump_bounds:
  assumes "bump k a room c" and "0 < room"
  shows "0 < unat a" and "unat a + room < 2 ^ 64"
proof -
  have "heap_ok k" using assms(1) by (simp add: bump_def)
  from heap_okD(3) [OF this, of 0] have "block_in 0 (freespace k ! 0 ! 0)"
    by (intro blocks_okD(3)) (simp_all add: HEAPS_def FREE_SPACES_def)
  moreover have "m_size (freespace k ! 0 ! 0) \<noteq> 0" using assms by (auto simp: bump_def)
  ultimately show "0 < unat a" "unat a + room < 2 ^ 64"
    using assms by (auto simp: bump_def block_in_def heap_lo_def heap_hi_def kernel_heap_def kernel_stack_def)
qed

section \<open>Opening a file\<close>

lemma path_at_blocks:
  assumes "\<And>k. k < length names \<Longrightarrow> load64 m (a + 8 * of_nat k) = b k \<and> cstr m (b k) (names ! k) \<and>
    (\<forall>j \<le> length (names ! k). safe (b k + of_nat j)) \<and> (\<forall>j < 8. safe (a + 8 * of_nat k + of_nat j))"
  shows "path_at m safe a names"
  using assms
proof (induction names arbitrary: a b)
  case (Cons w ws)
  have "path_at m safe (a + 8) ws"
  proof (rule Cons.IH [of "a + 8" "\<lambda>k. b (Suc k)"])
    fix k
    assume "k < length ws"
    then show "load64 m (a + 8 + 8 * of_nat k) = b (Suc k) \<and> cstr m (b (Suc k)) (ws ! k) \<and>
        (\<forall>j \<le> length (ws ! k). safe (b (Suc k) + of_nat j)) \<and> (\<forall>j < 8. safe (a + 8 + 8 * of_nat k + of_nat j))"
      using Cons.prems [of "Suc k"] by (simp add: algebra_simps)
  qed
  with Cons.prems [of 0] show ?case by simp
qed simp

text \<open>The blocks \<^verbatim>\<open>fopen\<close> gets for a path of \<^term>\<open>n\<close> names when the heap's first free space starts at \<^term>\<open>a\<close>.\<close>

definition name_block :: "u64 \<Rightarrow> nat \<Rightarrow> nat \<Rightarrow> u64" where
  "name_block a n k = a + of_nat (8 * (n + 1) + 256 * k)"

definition path_room :: "nat \<Rightarrow> nat" where
  "path_room n = 8 * (n + 1) + 256 * n"

lemma name_block_unat:
  "unat a + path_room n < 2 ^ 64 \<Longrightarrow> k < n \<Longrightarrow> unat (name_block a n k) = unat a + 8 * (n + 1) + 256 * k"
  unfolding name_block_def path_room_def by (subst unat_add_of_nat) simp_all

lemma fopen_blocks:
  assumes b: "bump (fs_heap s) a room c" and room: "path_room n \<le> room" "c + n < ALLOCATIONS" "n < 2 ^ 31" "0 < n"
    and zero: "\<And>x. unat x \<in> spare_mem s \<Longrightarrow> fs_mem s x = 0"
  shows "\<exists>s2 s1. fs_malloc (ucast (of_nat n + 1 :: u32) * 8) s = Some (a, s1) \<and> alloc_names n 0 a s1 = Some s2 \<and>
    (let s3 = s2\<lparr>fs_mem := store64 (fs_mem s2) (a + 8 * ucast (of_nat n + 1 :: u32)) 0\<rparr> in
      s3 = s\<lparr>fs_heap := fs_heap s3, fs_mem := fs_mem s3\<rparr> \<and>
      bump (fs_heap s3) (a + of_nat (path_room n)) (room - path_room n) (Suc (c + n)) \<and>
      blocks_ready (fs_mem s3) a 0 n (name_block a n) \<and>
      (\<forall>x. unat x \<notin> spare_mem s \<longrightarrow> fs_mem s3 x = fs_mem s x) \<and> kept s3 (a, path_room n) \<and>
      (\<forall>x. unat (x - a) < path_room n \<longrightarrow> unat x \<in> spare_mem s) \<and> spare_mem s3 \<subseteq> spare_mem s \<and>
      (fs_flat s \<longrightarrow> fs_flat s3))"
proof -
  have pos: "0 < room" using room(1) by (simp add: path_room_def)
  note lim = bump_bounds [OF b pos]
  have n32: "ucast (of_nat n + 1 :: u32) = (of_nat (n + 1) :: u64)"
    using room(3) by (simp add: word_unat_eq_iff unat_of_nat unat_word_ariths)
  let ?h = "8 * (n + 1)" and ?sz = "of_nat (n + 1) * 8 :: u64"
  have sz: "unat ?sz = ?h" using room(3) by (simp add: unat_word_ariths)
  have "?sz \<noteq> 0" using sz by (metis mult_is_0 unsigned_0 add_is_0 numeral_eq_Suc One_nat_def nat.distinct(1))
  moreover have "unat ?sz \<le> room" "c < ALLOCATIONS" unfolding sz using room by (simp_all add: path_room_def)
  ultimately obtain k where k: "fs_malloc ?sz s = Some (a, s\<lparr>fs_heap := k\<rparr>)" "bump k (a + ?sz) (room - ?h) (Suc c)"
    "kept (s\<lparr>fs_heap := k\<rparr>) (a, ?h)" "\<forall>x. unat (x - a) < ?h \<longrightarrow> unat x \<in> spare_mem s"
    "spare_mem (s\<lparr>fs_heap := k\<rparr>) \<subseteq> spare_mem s" "fs_flat s \<longrightarrow> fs_flat (s\<lparr>fs_heap := k\<rparr>)"
    using fs_malloc_bump [OF b _ _ _ lim(1), of ?sz] sz by metis
  let ?s1 = "s\<lparr>fs_heap := k\<rparr>" and ?b = "a + of_nat ?h :: u64"
  have szh: "?sz = of_nat ?h" by simp
  have bu: "unat ?b = unat a + ?h" using lim(2) room(1) by (intro unat_add_of_nat) (simp add: path_room_def)
  have next1: "bump (fs_heap ?s1) ?b (room - ?h) (Suc c)" using k(2) unfolding szh by simp
  have "256 * n \<le> room - ?h" "Suc c + n \<le> ALLOCATIONS" "0 + n < 2 ^ 32" "0 < unat ?b"
    "unat ?b + (room - ?h) < 2 ^ 64"
    using room lim bu by (simp_all add: path_room_def)
  from alloc_names_bump [OF next1 this, of a] obtain s2 where s2: "alloc_names n (of_nat 0) a ?s1 = Some s2"
    "s2 = ?s1\<lparr>fs_heap := fs_heap s2, fs_mem := fs_mem s2\<rparr>"
    "bump (fs_heap s2) (?b + of_nat (256 * n)) (room - ?h - 256 * n) (Suc c + n)"
    "\<forall>k < n. load64 (fs_mem s2) (a + 8 * of_nat (0 + k)) = ?b + of_nat (256 * k)"
    "\<forall>x. 8 * n \<le> unat (x - (a + 8 * of_nat 0)) \<longrightarrow> fs_mem s2 x = fs_mem ?s1 x"
    "kept s2 (?b, 256 * n)" "\<forall>x. unat (x - ?b) < 256 * n \<longrightarrow> unat x \<in> spare_mem ?s1"
    "spare_mem s2 \<subseteq> spare_mem ?s1" "fs_flat ?s1 \<longrightarrow> fs_flat s2"
    by (elim exE conjE) (rule that; assumption)
  let ?m = "store64 (fs_mem s2) ?b 0"
  let ?s3 = "s2\<lparr>fs_mem := ?m\<rparr>"
  have slot: "a + 8 * ucast (of_nat n + 1 :: u32) = ?b" unfolding n32 by (simp add: algebra_simps)
  have nb: "name_block a n k = ?b + of_nat (256 * k)" for k by (simp add: name_block_def algebra_simps)
  have total: "unat a + path_room n < 2 ^ 64" using lim(2) room(1) by simp
  have nbu: "unat (name_block a n k) = unat a + ?h + 256 * k" if "k < n" for k
    using name_block_unat [OF total that] by simp
  have nb_end: "unat a + ?h + 256 * k + 256 \<le> unat a + path_room n" if "k < n" for k
    using that by (simp add: path_room_def)
  have au: "unat (a + 8 * of_nat k) = unat a + 8 * k" if "k \<le> n" for k
    using that total unat_add_of_nat [of a "8 * k"] by (simp add: path_room_def)
  have spare: "unat x \<in> spare_mem s" if "unat (x - a) < path_room n" for x
  proof (cases "unat (x - a) < ?h")
    case False
    then have "unat (x - ?b) = unat (x - a) - ?h" by (intro unat_sub_offset) simp
    then have "unat x \<in> spare_mem ?s1" using s2(7) that False by (auto simp: path_room_def)
    then show ?thesis using k(5) by auto
  qed (use k(4) in blast)
  have old: "fs_mem s2 x = fs_mem s x" if "?h \<le> unat (x - a)" for x using s2(5) that by simp
  have bytes: "?m (name_block a n k + of_nat x) = 0" if "k < n" "x < 256" for k x
  proof -
    have e: "name_block a n k + of_nat x - a = of_nat (?h + 256 * k + x)" by (simp add: name_block_def algebra_simps)
    have "?h + 256 * k + x < path_room n" using that by (simp add: path_room_def)
    moreover from this have u: "unat (name_block a n k + of_nat x - a) = ?h + 256 * k + x" unfolding e using total by (intro unat_of_nat_small) simp
    ultimately have "fs_mem s2 (name_block a n k + of_nat x) = 0" using old spare zero by simp
    then show ?thesis by (simp add: store_le_def)
  qed
  have ap: "apart (name_block a n k, 256) (a, ?h)" if "k < n" for k
    unfolding apart_sym [of "(name_block a n k, 256)"]
    using nbu [OF that] nb_end [OF that] total by (intro apart_ranges) simp_all
  have ap2: "apart (name_block a n k, 256) (name_block a n l, 256)" if "k < l" "l < n" for k l
    using nbu [of k] nbu [of l] nb_end [of l] total that by (intro apart_ranges) simp_all
  have ready: "blocks_ready ?m a 0 n (name_block a n)"
    unfolding blocks_ready_def
  proof (intro conjI allI impI)
    fix k
    assume k: "k < n"
    have "load64 ?m (a + 8 * of_nat k) = load64 (fs_mem s2) (a + 8 * of_nat k)"
    proof (rule load64_apart)
      have "unat a + 8 * k + 8 \<le> unat ?b" "unat ?b + 8 \<le> 2 ^ 64"
        using k bu nb_end [OF room(4)] total by simp_all
      then show "apart (?b, 8) (a + 8 * of_nat k, 8)"
        unfolding apart_sym [of "(?b, 8)"] using au [of k] k by (intro apart_ranges) simp_all
    qed (simp add: store_le_def)
    then show "load64 ?m (a + 8 * of_nat k) = name_block a n k" using s2(4) k nb by simp
    show "apart (name_block a n k, 256) (a, ?h)" by (rule ap [OF k])
    show "apart (name_block a n k, 256) (name_block a n l, 256)" if "l < n" "k \<noteq> l" for l
      using ap2 [of k l] ap2 [of l k] k that apart_sym by (cases "k < l") auto
    show "?m (name_block a n k + of_nat x) = 0" if "x < 256" for x by (rule bytes [OF k that])
  qed (use room(3) in simp)
  have keep: "?m x = fs_mem s x" if "unat x \<notin> spare_mem s" for x
  proof -
    have out: "path_room n \<le> unat (x - a)" using spare that by force
    then have "unat (x - ?b) = unat (x - a) - ?h" by (intro unat_sub_offset) (simp add: path_room_def)
    then have "8 \<le> unat (x - ?b)" using out room(4) by (simp add: path_room_def)
    moreover have "fs_mem s2 x = fs_mem s x" using out by (intro old) (simp add: path_room_def)
    ultimately show ?thesis by (simp add: store_le_def)
  qed
  have sp3: "spare_mem ?s3 = spare_mem s2" by (simp add: spare_mem_def)
  have kept3: "kept ?s3 (a, path_room n)"
  proof -
    have "kept s2 (a, ?h)" by (rule kept_mono [OF s2(8) k(3)])
    from kept_append [OF this s2(6)] total have "kept s2 (a, path_room n)" by (simp add: path_room_def)
    then show ?thesis by (simp only: kept_def sp3)
  qed
  have b3: "bump (fs_heap ?s3) (a + of_nat (path_room n)) (room - path_room n) (Suc (c + n))"
    using s2(3) by (simp add: path_room_def algebra_simps)
  have flat3: "fs_flat s \<longrightarrow> fs_flat ?s3" using s2(9) k(6) by (simp add: fs_flat_def)
  have rec: "?s3 = s\<lparr>fs_heap := fs_heap ?s3, fs_mem := fs_mem ?s3\<rparr>" by (subst s2(2)) simp
  have sub: "spare_mem ?s3 \<subseteq> spare_mem s" using s2(8) k(5) sp3 by blast
  have ready3: "blocks_ready (fs_mem ?s3) a 0 n (name_block a n)" using ready by simp
  have keep3: "fs_mem ?s3 x = fs_mem s x" if "unat x \<notin> spare_mem s" for x using keep [OF that] by simp
  have m1: "fs_malloc (ucast (of_nat n + 1 :: u32) * 8) s = Some (a, ?s1)" using k(1) unfolding n32 .
  have m2: "alloc_names n 0 a ?s1 = Some s2" using s2(1) by simp
  from m1 m2 rec b3 ready3 keep3 kept3 spare sub flat3 show ?thesis
    unfolding Let_def slot by (intro exI [where x = s2] exI [where x = ?s1] conjI allI) (assumption | blast)+
qed

definition opened_file :: "FILE \<Rightarrow> u8 \<Rightarrow> u64 \<Rightarrow> (nat \<Rightarrow> u8) \<Rightarrow> FILE" where
  "opened_file f volume fpath g =
     f\<lparr>f_used := True, f_path := fpath, f_pointer := 0, f_volume := volume, f_size := ucast (e_size (entry_of g))\<rparr>"

text \<open>The text of a path that the caller holds and that lies outside the free memory of the heap.\<close>

definition path_in :: "fsys \<Rightarrow> u64 \<Rightarrow> u8 \<Rightarrow> u8 list list \<Rightarrow> bool" where
  "path_in s path volume names \<longleftrightarrow> names \<noteq> [] \<and> (\<forall>w \<in> set names. good_name w) \<and> unat volume < 26 \<and>
     length names < 2 ^ 31 \<and> length (joined names) < 2 ^ 63 \<and>
     cstr (fs_mem s) path (path_text volume names) \<and> kept s (path, length (path_text volume names) + 1)"

text \<open>
  What \<^verbatim>\<open>fopen\<close> asks of the heap: a first free space at \<^term>\<open>a\<close> that holds the path, the buffers
  of the search and blocks of the sizes \<^term>\<open>ns\<close>, of cleared memory, and free entries in the table
  of allocations.
\<close>

definition heap_has :: "fsys \<Rightarrow> u64 \<Rightarrow> nat \<Rightarrow> u64 list \<Rightarrow> bool" where
  "heap_has s a n ns \<longleftrightarrow> (\<exists>room c. bump (fs_heap s) a room c \<and> path_room n + sum_list (map unat ns) \<le> room \<and>
     c + n + 1 + length ns \<le> ALLOCATIONS \<and> (\<forall>k \<in> set ns. k \<noteq> 0)) \<and>
     (\<forall>x. unat x \<in> spare_mem s \<longrightarrow> fs_mem s x = 0) \<and> fs_flat s"

lemma volume_sint: "unat v < 26 \<Longrightarrow> \<not> 26 \<le> sint v" for v :: u8
proof -
  assume "unat v < 26"
  then have u: "uint v < 26" using uint_nat [of v] by linarith
  have "- 128 \<le> uint v" using uint_ge_0 [of v] by linarith
  moreover have "uint v < 128" using u by linarith
  ultimately have "signed_take_bit 7 (uint v) = uint v" by (simp add: signed_take_bit_int_eq_self)
  with u show ?thesis by (simp add: sint_uint)
qed

lemma split_opened:
  assumes h: "heap_has s a (length names) ns" and p: "path_in s path volume names"
  shows "\<exists>s1 s2 m. let n = length names; s3 = s2\<lparr>fs_mem := store64 (fs_mem s2) (a + 8 * ucast (of_nat n + 1 :: u32)) 0\<rparr> in
    fs_malloc (ucast (of_nat n + 1 :: u32) * 8) s = Some (a, s1) \<and> alloc_names n 0 a s1 = Some s2 \<and>
    s3 = s\<lparr>fs_heap := fs_heap s3, fs_mem := fs_mem s3\<rparr> \<and>
    split_path a (path + 3) 0 0 (fs_mem s3) = Some m \<and> served ns s3 \<and> heap_ok (fs_heap s3) \<and> fs_flat s3 \<and>
    spare_mem s3 \<subseteq> spare_mem s \<and> kept s3 (a, path_room n) \<and> (\<forall>r. kept s r \<longrightarrow> apart (a, path_room n) r) \<and>
    (\<forall>x. unat x \<notin> spare_mem s \<longrightarrow> fs_mem s3 x = fs_mem s x \<and> m x = fs_mem s x) \<and>
    (\<forall>k < n. load64 m (a + 8 * of_nat k) = name_block a n k \<and> cstr m (name_block a n k) (names ! k))"
proof -
  let ?n = "length names"
  note P = p [unfolded path_in_def]
  obtain room c where b: "bump (fs_heap s) a room c" "path_room ?n + sum_list (map unat ns) \<le> room"
    "c + ?n + 1 + length ns \<le> ALLOCATIONS" "\<forall>k \<in> set ns. k \<noteq> 0"
    and zero: "\<And>x. unat x \<in> spare_mem s \<Longrightarrow> fs_mem s x = 0" and flat: "fs_flat s"
    using h by (auto simp: heap_has_def)
  have n: "path_room ?n \<le> room" "c + ?n < ALLOCATIONS" "?n < 2 ^ 31" "0 < ?n" using b P by simp_all
  have "0 < room" using n by (simp add: path_room_def)
  note lim = bump_bounds [OF b(1) this]
  define t where "t s2 = s2\<lparr>fs_mem := store64 (fs_mem s2) (a + 8 * ucast (of_nat ?n + 1 :: u32)) 0\<rparr>" for s2 :: fsys
  obtain s2 s1 where s: "fs_malloc (ucast (of_nat ?n + 1 :: u32) * 8) s = Some (a, s1)" "alloc_names ?n 0 a s1 = Some s2"
    "t s2 = s\<lparr>fs_heap := fs_heap (t s2), fs_mem := fs_mem (t s2)\<rparr>"
    "bump (fs_heap (t s2)) (a + of_nat (path_room ?n)) (room - path_room ?n) (Suc (c + ?n))"
    "blocks_ready (fs_mem (t s2)) a 0 ?n (name_block a ?n)"
    "\<And>x. unat x \<notin> spare_mem s \<Longrightarrow> fs_mem (t s2) x = fs_mem s x" "kept (t s2) (a, path_room ?n)"
    "\<forall>x. unat (x - a) < path_room ?n \<longrightarrow> unat x \<in> spare_mem s" "spare_mem (t s2) \<subseteq> spare_mem s"
    "fs_flat s \<longrightarrow> fs_flat (t s2)"
    using fopen_blocks [OF b(1) n zero] unfolding Let_def t_def by blast
  have far: "apart (a, path_room ?n) r" if "kept s r" for r using kept_apart [OF s(8) that] .
  have letters: "cstr (fs_mem (t s2)) (path + 3) (joined names)"
  proof -
    have "cstr (fs_mem s) (path + 1 + 1 + 1) (joined names)" using P by (simp add: path_text_def del: one_add_one)
    then have "cstr (fs_mem s) (path + 3) (joined names)" by (simp add: add.commute)
    moreover have "fs_mem (t s2) (path + 3 + of_nat i) = fs_mem s (path + 3 + of_nat i)" if "i \<le> length (joined names)" for i
    proof (rule s(6))
      have "unat (path + 3 + of_nat i - path) < length (path_text volume names) + 1"
        using that P unat_of_nat_small [of "3 + i"] by (simp add: path_text_def algebra_simps)
      then show "unat (path + 3 + of_nat i) \<notin> spare_mem s" using P by (simp add: kept_def)
    qed
    ultimately show ?thesis using cstr_cong by metis
  qed
  have total: "unat a + path_room ?n < 2 ^ 64" using lim n by simp
  have ap: "apart (name_block a ?n k, 256) (path + 3, Suc (length (joined names)))" if "k < ?n" for k
  proof -
    have "kept s (path + of_nat 3, Suc (length (joined names)))"
      unfolding kept_def
    proof (intro allI impI)
      fix x
      assume x: "unat (x - fst (path + of_nat 3, Suc (length (joined names)))) < snd (path + of_nat 3, Suc (length (joined names)))"
      then obtain i where "x = path + of_nat 3 + of_nat i" "i < Suc (length (joined names))"
        using region_elem [of x "path + of_nat 3"] by auto
      moreover from this have "unat (x - path) < length (path_text volume names) + 1"
        using P unat_of_nat_small [of "3 + i"] by (simp add: path_text_def algebra_simps)
      ultimately show "unat x \<notin> spare_mem s" using P by (simp add: kept_def)
    qed
    from far [OF this] have "apart (path + 3, Suc (length (joined names))) (a, path_room ?n)" by (simp add: apart_sym)
    from apart_sub [OF this, of "8 * (?n + 1) + 256 * k" 256] that total
    have "apart (path + 3, Suc (length (joined names))) (name_block a ?n k, 256)"
      unfolding name_block_def by (simp add: path_room_def)
    then show ?thesis by (rule apart_sym [THEN iffD1])
  qed
  obtain m where m: "split_path a (path + 3) (of_nat 0) 0 (fs_mem (t s2)) = Some m"
    "\<And>k. k < ?n \<Longrightarrow> cstr m (name_block a ?n (0 + k)) (names ! k)"
    "\<And>x. 8 \<le> unat (x - (a + 8 * of_nat ?n)) \<Longrightarrow> \<forall>k < ?n. 0 \<le> k \<longrightarrow> 256 \<le> unat (x - name_block a ?n k) \<Longrightarrow>
      m x = fs_mem (t s2) x"
    using split_names [of names, OF _ _ letters _ s(5) _ ap] P by auto
  have inside: "unat (x - a) < path_room ?n"
    if "unat (x - (a + 8 * of_nat ?n)) < 8 \<or> (\<exists>k < ?n. unat (x - name_block a ?n k) < 256)" for x
  proof -
    from that obtain j i where j: "x = a + of_nat j + of_nat i" "j + i < path_room ?n"
    proof (elim disjE exE conjE)
      assume "unat (x - (a + 8 * of_nat ?n)) < 8"
      from region_elem [OF this] obtain i where "i < 8" "x = a + 8 * of_nat ?n + of_nat i" by blast
      with that [of "8 * ?n" i] n(4) show thesis by (simp add: path_room_def)
    next
      fix k
      assume k: "k < ?n" "unat (x - name_block a ?n k) < 256"
      from region_elem [OF k(2)] obtain i where "i < 256" "x = name_block a ?n k + of_nat i" by blast
      with that [of "8 * (?n + 1) + 256 * k" i] k(1) show thesis by (simp add: path_room_def name_block_def)
    qed
    then have "x - a = of_nat (j + i)" by simp
    with j(2) total show ?thesis by (simp only: unat_of_nat_small)
  qed
  have old: "m x = fs_mem s x" if "unat x \<notin> spare_mem s" for x
  proof -
    have "\<not> unat (x - a) < path_room ?n" using s(8) that by blast
    with inside [of x] have "m x = fs_mem (t s2) x" by (intro m(3)) (auto simp: not_less [symmetric])
    then show ?thesis using s(6) that by simp
  qed
  have slot: "load64 m (a + 8 * of_nat k) = name_block a ?n k" if "k < ?n" for k
  proof -
    have e: "unat (a + 8 * of_nat l) = unat a + 8 * l" if "l \<le> ?n" for l
      using that total unat_add_of_nat [of a "8 * l"] by (simp add: path_room_def)
    have "load64 m (a + 8 * of_nat k) = load64 (fs_mem (t s2)) (a + 8 * of_nat k)"
    proof (rule load_le_cong, rule m(3))
      fix i :: nat
      assume i: "i < 8"
      have "apart (a + 8 * of_nat k, 8) (a + 8 * of_nat ?n, 8)"
        using e [of k] e [of ?n] that total by (intro apart_ranges) (simp_all add: path_room_def)
      from apartD [OF this i] i show "8 \<le> unat (a + 8 * of_nat k + of_nat i - (a + 8 * of_nat ?n))" by simp
      show "\<forall>l < ?n. 0 \<le> l \<longrightarrow> 256 \<le> unat (a + 8 * of_nat k + of_nat i - name_block a ?n l)"
      proof (intro allI impI)
        fix l
        assume "l < ?n"
        then have "apart (name_block a ?n l, 256) (a + 8 * of_nat k, 8)"
          using s(5) that by (intro slot_apart [of _ _ ?n]) (simp_all add: blocks_ready_def)
        then show "256 \<le> unat (a + 8 * of_nat k + of_nat i - name_block a ?n l)"
          using apartD [of "a + 8 * of_nat k" 8 "name_block a ?n l" 256 i] i by (simp add: apart_sym)
      qed
    qed
    then show ?thesis using s(5) that by (simp add: blocks_ready_def)
  qed
  have "served ns (t s2)"
  proof (rule bump_served [OF s(4)])
    show "Suc (c + ?n) + length ns \<le> ALLOCATIONS" "\<forall>k \<in> set ns. k \<noteq> 0" using b by simp_all
    show "sum_list (map unat ns) \<le> room - path_room ?n" using b(2) by simp
    have "unat (a + of_nat (path_room ?n)) = unat a + path_room ?n" by (rule unat_add_of_nat [OF total])
    then show "0 < unat (a + of_nat (path_room ?n))" "unat (a + of_nat (path_room ?n)) + (room - path_room ?n) < 2 ^ 64"
      using lim n(1) by simp_all
  qed
  moreover have "heap_ok (fs_heap (t s2))" "fs_flat (t s2)" using s(4,10) flat by (simp_all add: bump_def)
  ultimately show ?thesis
    unfolding Let_def t_def [symmetric] using s(1,2,3,6,7,9) far old m(1,2) slot
    by (intro exI [where x = s1] exI [where x = s2] exI [where x = m]) simp
qed

lemma path_text_dirs:
  assumes "path_in s path volume names"
  shows "count_dirs (fs_mem s) path 0 = Some (of_nat (length names))" and "unat (of_nat (length names) :: u32) = length names"
    and "(of_nat (length names) :: u32) \<noteq> 0"
proof -
  note P = assms [unfolded path_in_def]
  show u: "unat (of_nat (length names) :: u32) = length names" using P by (simp add: unat_of_nat)
  have "65 + volume \<noteq> 47"
  proof
    assume e: "65 + volume = 47"
    from arg_cong [OF e, of "\<lambda>x. x - 65"] have "volume = 238" by simp
    with P show False by simp
  qed
  then have "count_list (path_text volume names) 47 = length names"
    using joined_slashes [of names] P by (simp add: path_text_def)
  then show "count_dirs (fs_mem s) path 0 = Some (of_nat (length names))" using count_dirs_text [of "fs_mem s" path "path_text volume names" 0] P by simp
  show "(of_nat (length names) :: u32) \<noteq> 0" using u P by (metis length_0_conv unsigned_0)
qed

text \<open>The blocks of the two searches and the buffers of a later read.\<close>

definition search_blocks :: "fat_fs_info \<Rightarrow> u64 list" where
  "search_blocks fs = [SECTOR_SIZE, ucast (bytes_per_cluster fs), SECTOR_SIZE, ucast (bytes_per_cluster fs)]"

context sector_source
begin

lemma fopen_result:
  assumes h: "heap_has s a (length names) (SECTOR_SIZE # ucast (bytes_per_cluster fs) # ns)" and p: "path_in s path volume names"
    and vol: "volume_part s volume = Some (disk, part, info)" "p_fs info = fat32" "p_fsdata info = Some fs" "bytes_per_sector fs = 512"
    and g: "file_entry (sec disk) (p_loc info) fs names = Some g"
    and keep: "kept s (filename, 13)" "kept s (ent, 32)"
    and i: "scan (\<lambda>i. \<not> f_used (files s ! i)) 0 (length (files s)) = Some i"
  shows "\<exists>s'. fopen d charbuf ent filename path flags s = Some (files_addr s + of_nat i * FILE_SIZE, s') \<and>
    files s' = (files s)[i := opened_file (files s ! i) volume a g] \<and>
    path_at (fs_mem s') (safe_from [(filename, 13), (ent, 32)] s') a names \<and>
    (\<forall>x. safe_from [(filename, 13), (ent, 32)] s x \<longrightarrow> fs_mem s' x = fs_mem s x) \<and>
    served ns s' \<and> heap_ok (fs_heap s') \<and> fs_flat s' \<and> spare_mem s' \<subseteq> spare_mem s \<and>
    files_addr s' = files_addr s \<and> disktable s' = disktable s \<and> volumes s' = volumes s"
proof -
  let ?n = "length names" and ?rs = "[(filename, 13), (ent, 32)]"
  note P = p [unfolded path_in_def]
  define t where "t s2 = s2\<lparr>fs_mem := store64 (fs_mem s2) (a + 8 * ucast (of_nat ?n + 1 :: u32)) 0\<rparr>" for s2 :: fsys
  obtain s1 s2 m where o: "fs_malloc (ucast (of_nat ?n + 1 :: u32) * 8) s = Some (a, s1)" "alloc_names ?n 0 a s1 = Some s2"
    "t s2 = s\<lparr>fs_heap := fs_heap (t s2), fs_mem := fs_mem (t s2)\<rparr>"
    "split_path a (path + 3) 0 0 (fs_mem (t s2)) = Some m" "served (SECTOR_SIZE # ucast (bytes_per_cluster fs) # ns) (t s2)"
    "heap_ok (fs_heap (t s2))" "fs_flat (t s2)" "spare_mem (t s2) \<subseteq> spare_mem s" "kept (t s2) (a, path_room ?n)"
    "\<And>r. kept s r \<Longrightarrow> apart (a, path_room ?n) r"
    "\<And>x. unat x \<notin> spare_mem s \<Longrightarrow> fs_mem (t s2) x = fs_mem s x \<and> m x = fs_mem s x"
    "\<And>k. k < ?n \<Longrightarrow> load64 m (a + 8 * of_nat k) = name_block a ?n k \<and> cstr m (name_block a ?n k) (names ! k)"
    using split_opened [OF h p] unfolding Let_def t_def by blast
  have dirs: "count_dirs (fs_mem s) path 0 = Some (of_nat ?n)" "unat (of_nat ?n :: u32) = ?n" "(of_nat ?n :: u32) \<noteq> 0"
    using path_text_dirs [OF p] by simp_all
  have head: "fs_mem (t s2) path = 124" "fs_mem (t s2) (path + 1) - 65 = volume" "fs_mem (t s2) (path + 2) = 47"
  proof -
    have "fs_mem (t s2) (path + of_nat k) = path_text volume names ! k" if "k < 3" for k
    proof -
      have "unat (path + of_nat k) \<notin> spare_mem s" using P that by (simp add: kept_def path_text_def)
      then show ?thesis using o(11) P that by (simp add: cstr_nth path_text_def)
    qed
    from this [of 0] this [of 1] this [of 2] show "fs_mem (t s2) path = 124" "fs_mem (t s2) (path + 1) - 65 = volume"
      "fs_mem (t s2) (path + 2) = 47" by (simp_all add: path_text_def)
  qed
  have fl: "files (t s2) = files s" "files_addr (t s2) = files_addr s" "disktable (t s2) = disktable s" "volumes (t s2) = volumes s"
    by (subst o(3), simp)+
  let ?f = "(files s ! i)\<lparr>f_used := True, f_path := a, f_pointer := 0, f_volume := volume\<rparr>"
  let ?u = "(t s2)\<lparr>fs_mem := m, files := (files s)[i := ?f]\<rparr>"
  have spu: "spare_mem ?u = spare_mem (t s2)" by (simp add: spare_mem_def)
  have volu: "volume_part ?u volume = Some (disk, part, info)"
    using vol(1) volume_part_cong [of ?u s] fl by simp
  have keptu: "kept ?u r" if "kept s r" for r using kept_mono [OF o(8) that] by (simp add: kept_def spu)
  have safe: "safe_from ?rs ?u x" if "unat (x - a) < path_room ?n" for x
  proof -
    have "unat x \<notin> spare_mem ?u" using o(9) that unfolding spu kept_def by simp
    moreover have "outside ?rs x" using o(10) [OF keep(1)] o(10) [OF keep(2)] that by (simp add: apart_def)
    ultimately show ?thesis by (simp add: safe_from_def)
  qed
  have total: "path_room ?n < 2 ^ 63" using P by (simp add: path_room_def)
  have path: "path_at (fs_mem ?u) (safe_from ?rs ?u) (f_path ?f) names"
  proof -
    have "path_at m (safe_from ?rs ?u) a names"
    proof (rule path_at_blocks)
      fix k
      assume k: "k < ?n"
      have "length (names ! k) < 256" using P k by (simp add: good_name_def)
      have "safe_from ?rs ?u (name_block a ?n k + of_nat j)" if "j \<le> length (names ! k)" for j
      proof (rule safe)
        have e: "name_block a ?n k + of_nat j - a = of_nat (8 * (?n + 1) + 256 * k + j)" by (simp add: name_block_def)
        have lt: "8 * (?n + 1) + 256 * k + j < path_room ?n"
          using k that \<open>length (names ! k) < 256\<close> by (simp add: path_room_def)
        then show "unat (name_block a ?n k + of_nat j - a) < path_room ?n"
          unfolding e using total by (subst unat_of_nat_small) simp_all
      qed
      moreover have "safe_from ?rs ?u (a + 8 * of_nat k + of_nat j)" if "j < 8" for j
      proof (rule safe)
        have e: "a + 8 * of_nat k + of_nat j - a = of_nat (8 * k + j)" by simp
        have "8 * k + j < path_room ?n" using k that by (simp add: path_room_def)
        then show "unat (a + 8 * of_nat k + of_nat j - a) < path_room ?n"
          unfolding e using total by (subst unat_of_nat_small) simp_all
      qed
      ultimately show "load64 m (a + 8 * of_nat k) = name_block a ?n k \<and> cstr m (name_block a ?n k) (names ! k) \<and>
          (\<forall>j \<le> length (names ! k). safe_from ?rs ?u (name_block a ?n k + of_nat j)) \<and>
          (\<forall>j < 8. safe_from ?rs ?u (a + 8 * of_nat k + of_nat j))" using o(12) [OF k] by blast
    qed
    then show ?thesis by simp
  qed
  have ok: "heap_ok (fs_heap ?u)" "served (SECTOR_SIZE # ucast (bytes_per_cluster fs) # ns) ?u" "fs_flat ?u"
    using o(5,6,7) served_cong [of ?u "t s2"] by (simp_all add: fs_flat_def)
  have volf: "volume_part ?u (f_volume ?f) = Some (disk, part, info)" using volu by simp
  have short: "?n < 2 ^ 32" using P by simp
  from find_fat_entry_result [OF ok(1) volf vol(3,4) g path short keptu [OF keep(1)] keptu [OF keep(2)] ok(2), of charbuf]
  obtain v where v: "find_fat_entry d charbuf ent filename ?f ?u = Some (0, v)" "\<And>k. k < 32 \<Longrightarrow> fs_mem v (ent + of_nat k) = g k"
    "\<And>x. safe_from ?rs ?u x \<Longrightarrow> fs_mem v x = m x" "served ns v" "heap_ok (fs_heap v)" "spare_mem v \<subseteq> spare_mem ?u"
    "disktable v = disktable s" "volumes v = volumes s" "files v = (files s)[i := ?f]" "files_addr v = files_addr s"
    "fs_flat ?u \<longrightarrow> fs_flat v"
    using fl by auto
  let ?size = "ucast (e_size (entry_of g)) :: u64"
  let ?v = "v\<lparr>files := (files s)[i := ?f\<lparr>f_size := ?size\<rparr>]\<rparr>"
  have E: "FAT_entry_at (fs_mem v) ent = entry_of g" using v(2) by (rule entry_image)
  have "fat_filesize d charbuf ent filename ?f ?u = Some (?size, ?f\<lparr>f_size := ?size\<rparr>, v)"
    using v(1) E by (simp add: fat_filesize_def Let_def)
  then have run: "fopen d charbuf ent filename path flags s = Some (files_addr s + of_nat i * FILE_SIZE, ?v)"
    using dirs o(1,2,4) head volume_sint [of volume] P i volu vol(2) v(9,10) fl unfolding t_def
    by (simp add: fopen_def Let_def)
  have spv: "spare_mem ?v = spare_mem v" by (simp add: spare_mem_def)
  have pathv: "path_at (fs_mem ?v) (safe_from ?rs ?v) a names"
  proof -
    have A: "path_at (fs_mem v) (safe_from ?rs ?u) a names" using path_at_cong [of "safe_from ?rs ?u" "fs_mem v"] v(3) path by simp
    have B: "safe_from ?rs ?v x" if "safe_from ?rs ?u x" for x using that v(6) spv by (auto simp: safe_from_def)
    from path_at_safe [OF B A] show ?thesis by simp
  qed
  have memv: "fs_mem ?v x = fs_mem s x" if "safe_from ?rs s x" for x
  proof -
    have "safe_from ?rs ?u x" using that o(8) spu by (auto simp: safe_from_def)
    with v(3) o(11) that show ?thesis by (simp add: safe_from_def)
  qed
  have filev: "files ?v = (files s)[i := opened_file (files s ! i) volume a g]" by (simp add: opened_file_def)
  have "served ns ?v" "heap_ok (fs_heap ?v)" "fs_flat ?v" using v(4,5,11) ok(3) served_cong [of ?v v] by (simp_all add: fs_flat_def)
  moreover have "spare_mem ?v \<subseteq> spare_mem s" using v(6) o(8) spu spv by blast
  moreover have "files_addr ?v = files_addr s" "disktable ?v = disktable s" "volumes ?v = volumes s" using v(7,8,10) by simp_all
  ultimately show ?thesis using run filev pathv memv by blast
qed

lemma open_read_result:
  assumes h: "heap_has s a (length names) (SECTOR_SIZE # ucast (bytes_per_cluster fs) # search_blocks fs)"
    and p: "path_in s path volume names"
    and vol: "volume_part s volume = Some (disk, part, info)" "p_fs info = fat32" "p_fsdata info = Some fs"
    and g: "file_entry (sec disk) (p_loc info) fs names = Some g"
    and keep: "kept s (filename, 13)" "kept s (ent, 32)" "kept s (ptr, unat n)"
    and i: "scan (\<lambda>i. \<not> f_used (files s ! i)) 0 (length (files s)) = Some i"
    and o: "open_chain (sec disk) (p_loc info) fs cs (first_cluster (entry_of g))" and cs: "length cs < 2 ^ 32"
    and n: "n \<noteq> 0" "unat n \<le> unat (e_size (entry_of g))" "unat n \<le> length cs * cluster_size fs"
  shows "\<exists>s' s''. fopen d charbuf ent filename path flags s = Some (files_addr s + of_nat i * FILE_SIZE, s') \<and>
    fread d charbuf ent filename ptr n (files s' ! i) s' = Some (n, s'') \<and>
    (\<forall>k < unat n. fs_mem s'' (ptr + of_nat k) = file_byte (sec disk) (p_loc info) fs cs k)"
proof -
  let ?rs = "[(filename, 13), (ent, 32)]"
  have bps: "bytes_per_sector fs = 512" using o by (simp add: open_chain_def)
  obtain s' where s': "fopen d charbuf ent filename path flags s = Some (files_addr s + of_nat i * FILE_SIZE, s')"
    "files s' = (files s)[i := opened_file (files s ! i) volume a g]" "path_at (fs_mem s') (safe_from ?rs s') a names"
    "served (search_blocks fs) s'" "heap_ok (fs_heap s')" "fs_flat s'" "spare_mem s' \<subseteq> spare_mem s"
    "disktable s' = disktable s" "volumes s' = volumes s"
    using fopen_result [OF h p vol bps g keep(1,2) i, of charbuf flags] by blast
  have len: "i < length (files s)" using scan_zeroD(1) [OF i] .
  let ?f = "opened_file (files s ! i) volume a g"
  have f: "files s' ! i = ?f" using s'(2) len by simp
  have F: "f_pointer ?f = 0" "f_volume ?f = volume" "f_path ?f = a" "unat (f_size ?f) = unat (e_size (entry_of g))"
    by (simp_all add: opened_file_def)
  have vol': "volume_part s' (f_volume ?f) = Some (disk, part, info)"
    using vol(1) volume_part_cong [OF s'(8,9)] F(2) by simp
  have path': "path_at (fs_mem s') (safe_from ?rs s') (f_path ?f) names" using s'(3) F(3) by simp
  have short: "length names < 2 ^ 32" using p by (simp add: path_in_def)
  have room: "served [SECTOR_SIZE, ucast (bytes_per_cluster fs), SECTOR_SIZE, ucast (bytes_per_cluster fs)] s'"
    using s'(4) by (simp add: search_blocks_def)
  have n': "unat (f_pointer ?f) + unat n \<le> length cs * cluster_size fs" using n(3) F(1) by simp
  note K = kept_mono [OF s'(7) keep(1)] kept_mono [OF s'(7) keep(2)] kept_mono [OF s'(7) keep(3)]
  from fat_read_result [OF s'(5,6) vol' vol(3) g path' short K room o cs n(1) n', of charbuf] obtain s'' where
    s'': "fat_read d charbuf ent filename ptr n ?f s' = Some (n, s'')"
    "\<forall>k < unat n. fs_mem s'' (ptr + of_nat k) = file_byte (sec disk) (p_loc info) fs cs (unat (f_pointer ?f) + k)"
    by blast
  have "\<not> f_size ?f - f_pointer ?f < n" using n(2) F(1,4) by (simp add: word_less_nat_alt)
  then have "fread d charbuf ent filename ptr n (files s' ! i) s' = Some (n, s'')"
    using n(1) vol' vol(2) s''(1) by (simp add: fread_def f)
  with s'(1) s''(2) F(1) show ?thesis by auto
qed

end



section \<open>The small volume\<close>

definition demo_open :: fsys where
  "demo_open = demo_state\<lparr>files_addr := 0x800000, files := replicate MAX_OPEN_FILES zero_file,
     fs_mem := (\<lambda>_. 0)(0x700 := 124, 0x701 := 65, 0x702 := 47, 0x703 := 65, 0x704 := 46, 0x705 := 84, 0x706 := 88, 0x707 := 84)\<rparr>"

lemma demo_open_ok:
  "path_in demo_open 0x700 0 demo_names" "volume_part demo_open 0 = Some (0, 0, demo_info)" "p_fs demo_info = fat32"
  "bytes_per_sector demo_fs = 512" "kept demo_open (0x3000, 13)" "kept demo_open (0x4000, 32)" "kept demo_open (0x6000, unat (5 :: u64))"
  "scan (\<lambda>i. \<not> f_used (files demo_open ! i)) 0 (length (files demo_open)) = Some 0"
  "heap_has demo_open kernel_heap (length demo_names) (SECTOR_SIZE # ucast (bytes_per_cluster demo_fs) # search_blocks demo_fs)"
  "heap_has demo_open kernel_heap (length demo_names) [SECTOR_SIZE, ucast (bytes_per_cluster demo_fs)]"
proof -
  have sp: "spare_mem demo_open = spare_mem demo_state" by (simp add: spare_mem_def demo_open_def)
  have k: "kept demo_open r = kept demo_state r" for r by (simp only: kept_def sp)
  show "kept demo_open (0x3000, 13)" "kept demo_open (0x4000, 32)" "kept demo_open (0x6000, unat (5 :: u64))"
    by (simp_all add: k demo_kept)
  have here: "cstr (fs_mem demo_open) 0x700 (path_text 0 demo_names)"
    by (simp add: demo_open_def path_text_def demo_names_def)
  have "kept demo_open (0x700, length (path_text 0 demo_names) + 1)"
    unfolding k by (rule demo_kept) (simp add: path_text_def demo_names_def)
  with here show "path_in demo_open 0x700 0 demo_names"
    by (simp add: path_in_def demo_names_def good_name_def path_text_def)
  show "volume_part demo_open 0 = Some (0, 0, demo_info)"
    using demo_volume(1) volume_part_cong [of demo_open demo_state] by (simp add: demo_open_def)
  show "p_fs demo_info = fat32" "bytes_per_sector demo_fs = 512" by (simp_all add: demo_info_def demo_fs_def)
  show "scan (\<lambda>i. \<not> f_used (files demo_open ! i)) 0 (length (files demo_open)) = Some 0"
    by (simp add: scan_Some_iff demo_open_def zero_file_def MAX_OPEN_FILES_def)
  have b: "bump (fs_heap demo_open) kernel_heap 0x800000000 0" using bump_fresh by (simp add: demo_open_def demo_state_def)
  have z: "fs_mem demo_open x = 0" if "unat x \<in> spare_mem demo_open" for x
  proof -
    have "0x1800000000 \<le> unat x" using that by (simp add: sp demo_spare)
    then show ?thesis by (auto simp: demo_open_def)
  qed
  have fl: "fs_flat demo_open" using demo_ok(2) by (simp add: fs_flat_def demo_open_def)
  have hh: "heap_has demo_open kernel_heap (length demo_names) ns"
    if "path_room (length demo_names) + sum_list (map unat ns) \<le> 0x800000000"
      "0 + length demo_names + 1 + length ns \<le> ALLOCATIONS" "\<forall>k \<in> set ns. k \<noteq> 0" for ns
    unfolding heap_has_def using b z fl that by blast
  show "heap_has demo_open kernel_heap (length demo_names) (SECTOR_SIZE # ucast (bytes_per_cluster demo_fs) # search_blocks demo_fs)"
    "heap_has demo_open kernel_heap (length demo_names) [SECTOR_SIZE, ucast (bytes_per_cluster demo_fs)]"
    by (rule hh; simp add: path_room_def demo_names_def SECTOR_SIZE_def search_blocks_def bytes_per_cluster_def
        demo_fs_def ALLOCATIONS_def)+
qed

lemma demo_opens: "\<exists>s'. fopen (ram_disk demo_disk) 0x5000 0x4000 0x3000 0x700 0 demo_open = Some (0x800000, s')"
proof -
  obtain g where g: "file_entry (disk_bytes (\<lambda>_. demo_disk) 0) (p_loc demo_info) demo_fs demo_names = Some g"
    using demo_entry demo_volume(2) by auto
  note D = demo_open_ok
  have "files_addr demo_open + of_nat 0 * FILE_SIZE = 0x800000" by (simp add: demo_open_def)
  then show ?thesis
    using ram.fopen_result [OF D(10) D(1) D(2) D(3) demo_volume(3) D(4) g(1) D(5) D(6) D(8), of "0x5000" 0] by metis
qed



end
