(* ===== verification/FSTyped.thy ===== *)
theory FSTyped
  imports FSOpen
begin

text \<open>
  Well-formedness of the file layer's tables. The states that disk set-up and the file operations can
  reach form an inductive relation; in all of them the tables have their sizes, the heap is well
  formed, and a partition marked as FAT32 has the data that goes with the mark.
\<close>

section \<open>What the FAT driver leaves alone\<close>

definition same_tables :: "fsys \<Rightarrow> fsys \<Rightarrow> bool" where
  "same_tables s s' \<longleftrightarrow> files_addr s' = files_addr s \<and> files s' = files s \<and> disktable s' = disktable s \<and>
     volumes s' = volumes s \<and> (heap_ok (fs_heap s) \<longrightarrow> heap_ok (fs_heap s'))"

lemma same_refl [simp]: "same_tables s s"
  and same_mem [simp]: "same_tables s (s\<lparr>fs_mem := m\<rparr>)"
  and same_copy [simp]: "same_tables s (copy_out ptr src n s)"
  by (simp_all add: same_tables_def copy_out_def)

lemma same_trans [trans]: "same_tables s t \<Longrightarrow> same_tables t u \<Longrightarrow> same_tables s u"
  by (simp add: same_tables_def)

lemma same_from_mem: "same_tables (s\<lparr>fs_mem := m\<rparr>) t \<Longrightarrow> same_tables s t"
  by (simp add: same_tables_def)

lemma read_sec_same: "read_sec d l c b k s = Some s' \<Longrightarrow> same_tables s s'"
  by (auto simp: read_sec_def same_tables_def split: option.splits)

lemma fs_malloc_same: "fs_malloc n s = Some (a, s') \<Longrightarrow> same_tables s s'"
  using kheap.take_ok [of "fs_heap s" n a]
  by (auto simp: fs_malloc_def malloc_def same_tables_def split: option.splits)

lemma fs_free_same: "fs_free a s = Some s' \<Longrightarrow> same_tables s s'"
  using kheap.give_ok [of "fs_heap s" a]
  by (auto simp: fs_free_def same_tables_def split: option.splits)

lemma next_dir_same: "next_dir_cluster e w s = Some (w', s') \<Longrightarrow> same_tables s s'"
  by (auto simp: next_dir_cluster_def bind_eq_Some_conv dest: read_sec_same)

lemma find_loop_same: "find_loop e l w s = Some (r, s') \<Longrightarrow> same_tables s s'"
proof -
  assume "find_loop e l w s = Some (r, s')"
  then have "same_tables s (snd (r, s'))"
  proof (rule find_loop.raw_induct [where P = "\<lambda>e l w s r. same_tables s (snd r)", rotated])
    fix rec e l w s r
    assume IH: "\<And>e l w s r. rec e l w s = Some r \<Longrightarrow> same_tables s (snd r)"
      and run: "(case l of
         Inloop \<Rightarrow> do {
           s \<leftarrow> read_sec (w_dev e) (cluster_lba (w_loc e) (w_fs e) (w_active w))
                (ucast (sectors_per_cluster (w_fs e))) (w_buffer e) (w_disk e) s;
           rec e Inloop2 w s
         }
       | Inloop2 \<Rightarrow> rec e For (w\<lparr>w_current := w_buffer e, w_i := 0\<rparr>) s
       | For \<Rightarrow>
           if w_i w < entries_per_cluster (w_fs e) then
             if fs_mem s (w_current w + 11) = FAT_LFN then rec e While_LFN w s
             else rec e Compare w (s\<lparr>fs_mem := short_name (w_filename e) (w_current w) (fs_mem s)\<rparr>)
           else do {
             (w, s) \<leftarrow> next_dir_cluster e w s;
             (if chain_goes_on (w_active w) then rec e Inloop w s else Some (2, s))
           }
       | While_LFN \<Rightarrow>
           if fs_mem s (w_current w + 11) = FAT_LFN then
             (let s = s\<lparr>fs_mem := lfn_piece (w_filename e) (w_charbuf e) (w_current w) (fs_mem s)\<rparr>;
                  w = w\<lparr>w_len := w_len w + 13, w_current := w_current w + 32, w_i := w_i w + 1\<rparr> in
              if w_i w \<ge> entries_per_cluster (w_fs e) then do {
                (w, s) \<leftarrow> next_dir_cluster e w s;
                rec e Inloop2 w s
              }
              else rec e While_LFN w s)
           else rec e Compare (w\<lparr>w_len := 0\<rparr>)
             (s\<lparr>fs_mem := (fs_mem s)(w_filename e + ucast (w_len w) := 0)\<rparr>)
       | Compare \<Rightarrow> do {
           r \<leftarrow> strcmp (fs_mem s) (w_filename e) (load64 (fs_mem s) (w_path e + 8 * ucast (w_depth w)));
           (if r = 0 then
              (let E = FAT_entry_at (fs_mem s) (w_current w);
                   w = w\<lparr>w_active := first_cluster E\<rparr>;
                   s = s\<lparr>fs_mem := fst (memcpy (fs_mem s) (w_entry e) (w_current w) 32)\<rparr> in
               if fs_mem s (w_current w + 11) AND DIRECTORY = 0 then Some (0, s)
               else rec e Inloop (w\<lparr>w_depth := w_depth w + 1\<rparr>) s)
            else rec e For (w\<lparr>w_current := w_current w + 32, w_i := w_i w + 1\<rparr>) s)
         }) = Some r"
    show "same_tables s (snd r)"
    proof (cases l)
      case Inloop
      with run show ?thesis by (auto simp: bind_eq_Some_conv dest!: IH read_sec_same intro: same_trans)
    next
      case Inloop2
      with run show ?thesis by (auto dest!: IH)
    next
      case For
      with run show ?thesis
        by (auto simp: bind_eq_Some_conv dest!: IH next_dir_same same_from_mem intro: same_trans split: if_splits)
    next
      case While_LFN
      with run show ?thesis
        by (auto simp: bind_eq_Some_conv Let_def dest!: IH next_dir_same same_from_mem intro: same_trans split: if_splits)
    next
      case Compare
      with run show ?thesis
        by (auto simp: bind_eq_Some_conv Let_def dest!: IH same_from_mem split: if_splits)
    qed
  qed
  then show ?thesis by simp
qed

lemma find_fat_entry_same: "find_fat_entry d c e f fp s = Some (r, s') \<Longrightarrow> same_tables s s'"
  by (auto simp: find_fat_entry_def bind_eq_Some_conv Let_def
      dest!: find_loop_same read_sec_same fs_malloc_same intro: same_trans)

lemma fat_filesize_same: "fat_filesize d c e f fp s = Some (n, fp', s') \<Longrightarrow> same_tables s s'"
  by (auto simp: fat_filesize_def bind_eq_Some_conv Let_def dest: find_fat_entry_same)

lemma follow_same: "follow d disk loc fs buf a s = Some (a', s') \<Longrightarrow> same_tables s s'"
  by (auto simp: follow_def bind_eq_Some_conv Let_def dest!: read_sec_same split: if_splits)

lemma skip_clusters_same: "skip_clusters n d disk loc fs buf a s = Some (a', s') \<Longrightarrow> same_tables s s'"
proof (induction n arbitrary: a s)
  case (Suc n)
  from Suc.prems show ?case by (auto simp: bind_eq_Some_conv dest!: follow_same Suc.IH intro: same_trans)
qed simp

lemma read_cluster_same: "read_cluster d disk loc fs b a s = Some s' \<Longrightarrow> same_tables s s'"
  by (simp add: read_cluster_def read_sec_same)

lemma copy_out_same: "same_tables (copy_out ptr src n s) t \<Longrightarrow> same_tables s t"
  by (simp add: copy_out_def same_from_mem)

lemma read_loop_same: "read_loop d disk loc fs buf b ptr n a s = Some s' \<Longrightarrow> same_tables s s'"
proof (rule read_loop.raw_induct [where P = "\<lambda>d disk loc fs buf b ptr n a s s'. same_tables s s'", rotated])
  fix rec d disk loc fs buf buffer ptr nbytes active s s'
  assume IH: "\<And>d disk loc fs buf b ptr n a s s'. rec d disk loc fs buf b ptr n a s = Some s' \<Longrightarrow> same_tables s s'"
    and run: "do {
     s \<leftarrow> read_cluster d disk loc fs buffer active s;
     let bpc = ucast (bytes_per_cluster fs);
     (if nbytes > bpc then do {
        let s = copy_out ptr buffer bpc s;
        let next_cluster = FAT_buffer_at (fs_mem s) buf (active mod FEPS);
        (active, s) \<leftarrow> (if active div FEPS \<noteq> next_cluster div FEPS
           then (case read_sec d (fat_lba loc fs next_cluster) (ucast (sectors_per_cluster fs)) buf disk s of
                   None \<Rightarrow> None | Some s \<Rightarrow> Some (active, s))
           else Some (next_cluster, s));
        (if chain_goes_on active
         then rec d disk loc fs buf buffer (ptr + bpc) (nbytes - bpc) active s
         else Some s)
      }
      else Some (copy_out ptr buffer nbytes s))
   } = Some s'"
  from run show "same_tables s s'"
    by (auto simp: bind_eq_Some_conv Let_def dest!: IH read_cluster_same read_sec_same copy_out_same
        intro: same_trans split: if_splits option.splits)
qed

lemma read_from_same: "read_from d disk loc fs buf b ptr n off a s = Some (early, s') \<Longrightarrow> same_tables s s'"
  by (auto simp: read_from_def bind_eq_Some_conv Let_def
      dest!: read_cluster_same follow_same read_loop_same copy_out_same intro: same_trans split: if_splits)

lemma fat_read_same: "fat_read d c e f ptr n fp s = Some (r, s') \<Longrightarrow> same_tables s s'"
  by (auto simp: fat_read_def bind_eq_Some_conv Let_def dest!: fs_malloc_same find_fat_entry_same read_sec_same
      skip_clusters_same read_from_same fs_free_same split: if_splits) (meson same_trans)+

lemma fread_same: "fread d c e f ptr n fp s = Some (r, s') \<Longrightarrow> same_tables s s'"
  by (auto simp: fread_def bind_eq_Some_conv dest: fat_read_same split: if_splits fs_kind.splits)
    (metis fs_kind.exhaust)

lemma count_root_same: "count_root d base buf disk c n s = Some (n', s') \<Longrightarrow> same_tables s s'"
proof -
  assume "count_root d base buf disk c n s = Some (n', s')"
  then have "same_tables s (snd (n', s'))"
  proof (rule count_root.raw_induct [where P = "\<lambda>d base buf disk c n s r. same_tables s (snd r)", rotated])
    fix rec d base buf disk current_cluster n s r
    assume IH: "\<And>d base buf disk c n s r. rec d base buf disk c n s = Some r \<Longrightarrow> same_tables s (snd r)"
      and run: "do {
     s \<leftarrow> (if current_cluster div FEPS \<noteq> FAT_buffer_at (fs_mem s) buf current_cluster div FEPS
          then read_sec d (base + ucast (current_cluster div FEPS)) 1 buf disk s else Some s);
     let next_cluster = FAT_buffer_at (fs_mem s) buf (current_cluster mod FEPS);
     (if chain_goes_on next_cluster then rec d base buf disk next_cluster (n + 1) s else Some (n, s))
   } = Some r"
    from run show "same_tables s (snd r)"
      by (auto simp: bind_eq_Some_conv Let_def dest!: IH read_sec_same intro: same_trans split: if_splits)
  qed
  then show ?thesis by simp
qed

section \<open>Well-formed tables\<close>

definition part_ok :: "partinfo \<Rightarrow> bool" where
  "part_ok p \<longleftrightarrow> (p_fs p = fat32 \<longrightarrow> p_fsdata p \<noteq> None)"

definition disk_ok :: "diskdata \<Rightarrow> bool" where
  "disk_ok dd \<longleftrightarrow> length (parts dd) = 4 \<and> list_all part_ok (parts dd)"

definition disks_typed :: "fsys \<Rightarrow> bool" where
  "disks_typed s \<longleftrightarrow> heap_ok (fs_heap s) \<and> length (disktable s) = DISKS \<and> list_all disk_ok (disktable s) \<and>
     length (volumes s) = LETTERS"

definition fs_typed :: "fsys \<Rightarrow> bool" where
  "fs_typed s \<longleftrightarrow> disks_typed s \<and> length (files s) = MAX_OPEN_FILES"

lemma typed_same: "same_tables s s' \<Longrightarrow> fs_typed s \<Longrightarrow> fs_typed s'"
  and disks_same: "same_tables s s' \<Longrightarrow> disks_typed s \<Longrightarrow> disks_typed s'"
  by (simp_all add: fs_typed_def disks_typed_def same_tables_def)

lemma disk_part_ok: "disks_typed s \<Longrightarrow> disk_part s q r = Some p \<Longrightarrow> part_ok p"
  by (auto simp: disks_typed_def disk_part_def disk_ok_def list_all_length split: if_splits)

lemma list_all_update: "list_all P xs \<Longrightarrow> P x \<Longrightarrow> list_all P (xs[i := x])"
  by (auto simp: list_all_iff dest!: set_update_subset_insert [THEN subsetD])

lemma set_part_typed: "disks_typed s \<Longrightarrow> part_ok p \<Longrightarrow> disks_typed (set_part q r p s)"
proof -
  note upd = list_all_update
  assume s: "disks_typed s" and p: "part_ok p"
  show ?thesis
  proof (cases "unat q < length (disktable s)")
    case True
    with s have "disk_ok (disktable s ! unat q)" by (simp add: disks_typed_def list_all_length)
    then have "disk_ok ((disktable s ! unat q)\<lparr>parts := (parts (disktable s ! unat q))[unat r := p]\<rparr>)"
      using p by (simp add: disk_ok_def upd)
    with s show ?thesis by (simp add: disks_typed_def set_part_def Let_def upd)
  qed (use s in \<open>simp add: disks_typed_def set_part_def Let_def list_update_beyond\<close>)
qed

lemma fat_setup_typed: "fat_setup d bpb buf q r s = Some s' \<Longrightarrow> disks_typed s \<Longrightarrow> disks_typed s'"
  by (auto simp: fat_setup_def bind_eq_Some_conv Let_def part_ok_def dest!: read_sec_same count_root_same fs_malloc_same
      intro!: set_part_typed split: if_splits) (meson disks_same)+

lemma detect_typed: "detect n k d bpb fb b disk s = Some s' \<Longrightarrow> disks_typed s \<Longrightarrow> disks_typed s'"
proof (induction n arbitrary: k s)
  case (Suc n)
  from Suc.prems show ?case
    by (auto simp: bind_eq_Some_conv dest!: read_sec_same intro: Suc.IH fat_setup_typed disks_same split: if_splits)
qed simp

lemma read_table_typed: "read_table n k b disk l s = Some (l', s') \<Longrightarrow> disks_typed s \<Longrightarrow> disks_typed s'"
proof (induction n arbitrary: k l s)
  case (Suc n)
  from Suc.prems obtain info where info: "disk_part s disk (of_nat k) = Some info" by (auto simp: bind_eq_Some_conv)
  let ?p = "info\<lparr>p_loc := part_loc (fs_mem s) b k, p_size := part_size (fs_mem s) b k\<rparr>"
  let ?s = "set_part disk (of_nat k) ?p s"
  have "disks_typed ?s"
    using Suc.prems(2) disk_part_ok [OF Suc.prems(2) info] by (intro set_part_typed) (simp_all add: part_ok_def)
  moreover from this have "disks_typed (?s\<lparr>volumes := (volumes ?s)[i := v]\<rparr>)" for i v by (simp add: disks_typed_def)
  ultimately show ?case using Suc.prems(1) info by (auto simp: Let_def intro: Suc.IH split: if_splits)
qed simp

lemma set_blocks_typed: "disks_typed s \<Longrightarrow> disks_typed (set_blocks disk n s)"
proof (cases "unat disk < length (disktable s)")
  case True
  assume s: "disks_typed s"
  with True have "disk_ok ((disktable s ! unat disk)\<lparr>disk_blocks := n\<rparr>)"
    by (simp add: disks_typed_def list_all_length disk_ok_def)
  with s show ?thesis by (simp add: disks_typed_def set_blocks_def list_all_update)
qed (simp add: disks_typed_def set_blocks_def list_update_beyond)

lemma init_one_typed: "init_one d bpb fb b disk l s = Some (l', s') \<Longrightarrow> disks_typed s \<Longrightarrow> disks_typed s'"
proof -
  assume run: "init_one d bpb fb b disk l s = Some (l', s')" and s: "disks_typed s"
  have "disks_typed (set_blocks disk n (s\<lparr>fs_io := t\<rparr>))" for n t
    using s by (intro set_blocks_typed) (simp add: disks_typed_def)
  with run show ?thesis
    by (auto simp: init_one_def bind_eq_Some_conv Let_def dest!: read_sec_same split: if_splits)
      (meson detect_typed read_table_typed disks_same)
qed

lemma init_disks_typed: "init_disks n d bpb fb b disk l s = Some (l', s') \<Longrightarrow> disks_typed s \<Longrightarrow> disks_typed s'"
proof (induction n arbitrary: disk l s)
  case (Suc n)
  from Suc.prems show ?case by (auto simp: bind_eq_Some_conv intro: Suc.IH init_one_typed)
qed simp

lemma init_disk_typed:
  assumes "init_disk d bpb fb b dt vt s = Some s'" and "heap_ok (fs_heap s)" and "length dt = DISKS"
    and "length vt = LETTERS" and "list_all disk_ok dt"
  shows "fs_typed s'"
proof -
  have start: "disks_typed (t\<lparr>disktable := dt, volumes := vt\<rparr>)" if "heap_ok (fs_heap t)" for t
    using that assms(3-5) by (simp add: disks_typed_def)
  have fin: "fs_typed (t\<lparr>files_addr := a, files := replicate MAX_OPEN_FILES zero_file\<rparr>)" if "disks_typed t" for t a
    using that by (simp add: fs_typed_def disks_typed_def)
  from assms(1) obtain a b1 c l s1 s2 s3 s4 where
    1: "fs_malloc (136 * of_nat DISKS) s = Some (a, s1)" and 2: "fs_malloc (8 * of_nat LETTERS) s1 = Some (b1, s2)"
    and 3: "init_disks 4 d bpb fb b 0 0 (s2\<lparr>disktable := dt, volumes := vt\<rparr>) = Some (l, s3)"
    and 4: "fs_malloc (FILE_SIZE * of_nat MAX_OPEN_FILES) s3 = Some (c, s4)"
    and 5: "s' = s4\<lparr>files_addr := c, files := replicate MAX_OPEN_FILES zero_file\<rparr>"
    by (auto simp: init_disk_def bind_eq_Some_conv)
  have "heap_ok (fs_heap s2)" using fs_malloc_same [OF 1] fs_malloc_same [OF 2] assms(2) by (simp add: same_tables_def)
  then have "disks_typed s3" using init_disks_typed [OF 3] start by blast
  then have "disks_typed s4" by (rule disks_same [OF fs_malloc_same [OF 4]])
  then show ?thesis unfolding 5 by (rule fin)
qed

section \<open>Opening and closing\<close>

lemma alloc_names_same: "alloc_names n i fpath s = Some s' \<Longrightarrow> same_tables s s'"
proof (induction n arbitrary: i s)
  case (Suc n)
  from Suc.prems show ?case
    by (auto simp: bind_eq_Some_conv dest!: fs_malloc_same Suc.IH same_from_mem intro: same_trans)
qed simp

text \<open>The table of open files after an entry \<^term>\<open>i\<close> was taken, everything else as before.\<close>

definition took_entry :: "nat \<Rightarrow> fsys \<Rightarrow> fsys \<Rightarrow> bool" where
  "took_entry i s s' \<longleftrightarrow> i < length (files s) \<and> \<not> f_used (files s ! i) \<and>
     (\<exists>f. f_used f \<and> f_pointer f = 0 \<and> files s' = (files s)[i := f]) \<and> files_addr s' = files_addr s \<and>
     disktable s' = disktable s \<and> volumes s' = volumes s \<and> (heap_ok (fs_heap s) \<longrightarrow> heap_ok (fs_heap s'))"

lemma fopen_cases:
  assumes "fopen d c e fn path flags s = Some (h, s')"
  shows "h = 0 \<and> same_tables s s' \<or> (\<exists>i. took_entry i s s' \<and> (h = 0 \<or> h = files_addr s + of_nat i * FILE_SIZE))"
proof -
  obtain dirs where dirs: "count_dirs (fs_mem s) path 0 = Some dirs"
    using assms by (auto simp: fopen_def bind_eq_Some_conv)
  show ?thesis
  proof (cases "dirs = 0")
    case True
    with assms dirs show ?thesis by (simp add: fopen_def)
  next
    case False
    with assms dirs obtain fpath s1 s2 where
      1: "fs_malloc (ucast (dirs + 1) * 8) s = Some (fpath, s1)" and 2: "alloc_names (unat dirs) 0 fpath s1 = Some s2"
      by (auto simp: fopen_def bind_eq_Some_conv)
    define s3 where "s3 = s2\<lparr>fs_mem := store64 (fs_mem s2) (fpath + 8 * ucast (dirs + 1)) 0\<rparr>"
    define volume where "volume = fs_mem s3 (path + 1) - 65"
    have same: "same_tables s s3"
      using fs_malloc_same [OF 1] alloc_names_same [OF 2] by (auto simp: s3_def same_tables_def)
    have main: "(if fs_mem s3 path \<noteq> 124 then fopen_error fpath s3
        else if sint volume \<ge> 26 then fopen_error fpath s3
        else if fs_mem s3 (path + 2) \<noteq> 47 then fopen_error fpath s3
        else do {
         m \<leftarrow> split_path fpath (path + 3) 0 0 (fs_mem s3);
         i \<leftarrow> scan (\<lambda>i. \<not> f_used (files s3 ! i)) 0 (length (files s3));
         let f = (files s3 ! i)\<lparr>f_used := True, f_path := fpath, f_pointer := 0, f_volume := volume\<rparr>;
         let s = s3\<lparr>fs_mem := m, files := (files s3)[i := f]\<rparr>;
         (disk, part, info) \<leftarrow> volume_part s volume;
         (case p_fs info of
            fat32 \<Rightarrow> do {
              (n, f, s) \<leftarrow> fat_filesize d c e fn f s;
              Some (files_addr s + of_nat i * FILE_SIZE, s\<lparr>files := (files s)[i := f\<lparr>f_size := n\<rparr>]\<rparr>)
            }
          | none \<Rightarrow> Some (0, s))
       }) = Some (h, s')"
      using assms dirs False 1 2 unfolding fopen_def s3_def volume_def Let_def by simp
    have err: "h = 0 \<and> same_tables s s'" if "fopen_error fpath s3 = Some (h, s')"
      using that fs_free_same [of fpath s3] same_trans [OF same] by (auto simp: fopen_error_def split: option.splits)
    show ?thesis
    proof (cases "fs_mem s3 path \<noteq> 124 \<or> sint volume \<ge> 26 \<or> fs_mem s3 (path + 2) \<noteq> 47")
      case True
      with main have "fopen_error fpath s3 = Some (h, s')" by (auto split: if_splits)
      with err show ?thesis by simp
    next
      case good: False
      with main obtain m i disk part info where
        i: "scan (\<lambda>i. \<not> f_used (files s3 ! i)) 0 (length (files s3)) = Some i"
        and v: "volume_part (s3\<lparr>fs_mem := m, files := (files s3)[i := (files s3 ! i)\<lparr>f_used := True, f_path := fpath,
            f_pointer := 0, f_volume := volume\<rparr>]\<rparr>) volume = Some (disk, part, info)"
        and run: "(case p_fs info of
            fat32 \<Rightarrow> do {
              (n, f, s) \<leftarrow> fat_filesize d c e fn ((files s3 ! i)\<lparr>f_used := True, f_path := fpath, f_pointer := 0, f_volume := volume\<rparr>)
                (s3\<lparr>fs_mem := m, files := (files s3)[i := (files s3 ! i)\<lparr>f_used := True, f_path := fpath,
                  f_pointer := 0, f_volume := volume\<rparr>]\<rparr>);
              Some (files_addr s + of_nat i * FILE_SIZE, s\<lparr>files := (files s)[i := f\<lparr>f_size := n\<rparr>]\<rparr>)
            }
          | none \<Rightarrow> Some (0, s3\<lparr>fs_mem := m, files := (files s3)[i := (files s3 ! i)\<lparr>f_used := True, f_path := fpath,
                  f_pointer := 0, f_volume := volume\<rparr>]\<rparr>)) = Some (h, s')"
        by (auto simp: bind_eq_Some_conv Let_def)
      let ?f = "(files s3 ! i)\<lparr>f_used := True, f_path := fpath, f_pointer := 0, f_volume := volume\<rparr>"
      let ?s = "s3\<lparr>fs_mem := m, files := (files s3)[i := ?f]\<rparr>"
      have t: "took_entry i s ?s"
        using scan_zeroD [OF i] same by (auto simp: took_entry_def same_tables_def intro!: exI [of _ ?f])
      show ?thesis
      proof (cases "p_fs info")
        case none
        with run t show ?thesis by auto
      next
        case fat32
        with run obtain n f u where u: "fat_filesize d c e fn ?f ?s = Some (n, f, u)"
          "h = files_addr u + of_nat i * FILE_SIZE" "s' = u\<lparr>files := (files u)[i := f\<lparr>f_size := n\<rparr>]\<rparr>"
          by (auto simp: bind_eq_Some_conv)
        have f: "f = ?f\<lparr>f_size := n\<rparr>" using u(1) by (auto simp: fat_filesize_def bind_eq_Some_conv Let_def)
        have "took_entry i s s'"
          using t same fat_filesize_same [OF u(1)]
          by (auto simp: took_entry_def same_tables_def u(3) f intro!: exI [of _ "?f\<lparr>f_size := n\<rparr>"])
        moreover have "files_addr u = files_addr s"
          using t fat_filesize_same [OF u(1)] by (simp add: took_entry_def same_tables_def)
        ultimately show ?thesis using u(2) by auto
      qed
    qed
  qed
qed

text \<open>
  \<^verbatim>\<open>fopen\<close> never hands out an entry that is in use: it returns 0, or the address of one of the 256
  entries that was unused and is now in use with its position at the start, which \<^verbatim>\<open>aligncheck\<close>
  accepts; no other entry of the table of open files changes.
\<close>

theorem fopen_takes_unused:
  assumes "fopen d charbuf ent filename path flags s = Some (h, s')" and "h \<noteq> 0"
    and "length (files s) = MAX_OPEN_FILES" and "unat (files_addr s) + 10240 < 2 ^ 64"
  shows "aligncheck (files_addr s') h = 0 \<and> (\<exists>i < MAX_OPEN_FILES. h = files_addr s + of_nat i * FILE_SIZE \<and>
    \<not> f_used (files s ! i) \<and> f_used (files s' ! i) \<and> f_pointer (files s' ! i) = 0 \<and>
    (\<forall>j < MAX_OPEN_FILES. j \<noteq> i \<longrightarrow> files s' ! j = files s ! j))"
proof -
  obtain i where i: "took_entry i s s'" "h = files_addr s + of_nat i * FILE_SIZE"
    using fopen_cases [OF assms(1)] assms(2) by blast
  then have "aligncheck (files_addr s') h = 0"
    using aligncheck_handle [OF assms(4)] assms(3) by (auto simp: took_entry_def)
  with i assms(3) show ?thesis by (auto simp: took_entry_def)
qed

theorem fopen_takes_unused_witness:
  "\<exists>s'. fopen (ram_disk demo_disk) 0x5000 0x4000 0x3000 0x700 0 demo_open = Some (0x800000, s') \<and>
    aligncheck (files_addr s') 0x800000 = 0 \<and> (\<exists>i < MAX_OPEN_FILES. f_used (files s' ! i) \<and> f_pointer (files s' ! i) = 0)"
proof -
  obtain s' where s': "fopen (ram_disk demo_disk) 0x5000 0x4000 0x3000 0x700 0 demo_open = Some (0x800000, s')"
    using demo_opens by blast
  have "length (files demo_open) = MAX_OPEN_FILES" "unat (files_addr demo_open) + 10240 < 2 ^ 64" "(0x800000 :: u64) \<noteq> 0"
    by (simp_all add: demo_open_def)
  from fopen_takes_unused [OF s' this(3,1,2)] s' show ?thesis by blast
qed

section \<open>Reachable states\<close>

lemma free_names_ok: "free_names m p k = Some k' \<Longrightarrow> heap_ok k \<longrightarrow> heap_ok k'"
proof (erule free_names.raw_induct [where P = "\<lambda>m p k k'. heap_ok k \<longrightarrow> heap_ok k'", rotated])
  fix rec m ptr s s'
  assume IH: "\<And>m p k k'. rec m p k = Some k' \<Longrightarrow> heap_ok k \<longrightarrow> heap_ok k'"
    and run: "(if load64 m ptr \<noteq> 0
        then (case free (load64 m ptr) s of None \<Rightarrow> None | Some s' \<Rightarrow> rec m (ptr + 8) s') else Some s) = Some s'"
  show "heap_ok s \<longrightarrow> heap_ok s'"
    using run kheap.give_ok [of s "load64 m ptr"] IH by (auto split: if_splits option.splits)
qed

lemma fclose_typed:
  assumes "fclose fp s = Some (r, s')" and "fs_typed s"
  shows "fs_typed s'"
proof (cases "aligncheck (files_addr s) fp = 0")
  case True
  define i f where "i = handle_index (files_addr s) fp" and "f = (files s ! i)\<lparr>f_used := False\<rparr>"
  with True assms(1) obtain k k' where 1: "free_names (fs_mem s) (f_path f) (fs_heap s) = Some k"
    and 2: "free (f_path f) k = Some k'" and s': "s' = s\<lparr>files := (files s)[i := f], fs_heap := k'\<rparr>"
    by (auto simp: fclose_def Let_def split: option.splits)
  have "heap_ok (fs_heap s)" using assms(2) by (simp add: fs_typed_def disks_typed_def)
  then have "heap_ok k'" using free_names_ok [OF 1] kheap.give_ok [OF _ 2] by simp
  with assms(2) show ?thesis by (simp add: s' fs_typed_def disks_typed_def)
next
  case False
  with assms show ?thesis by (simp add: fclose_def)
qed

text \<open>
  What disk set-up and then any sequence of file operations can lead to. Between them the callers write
  memory and use the heap as they like.
\<close>

inductive fs_reach :: "fsys \<Rightarrow> bool" where
  set_up: "init_disk d bpb fatbuf buffer dt vt s = Some s' \<Longrightarrow> heap_ok (fs_heap s) \<Longrightarrow> length dt = DISKS \<Longrightarrow>
    length vt = LETTERS \<Longrightarrow> list_all disk_ok dt \<Longrightarrow> fs_reach s'"
| opened: "fs_reach s \<Longrightarrow> fopen d charbuf ent filename path flags s = Some (h, s') \<Longrightarrow> fs_reach s'"
| closed: "fs_reach s \<Longrightarrow> fclose fp s = Some (r, s') \<Longrightarrow> fs_reach s'"
| was_read: "fs_reach s \<Longrightarrow> fread d charbuf ent filename ptr n (files s ! i) s = Some (k, s') \<Longrightarrow> fs_reach s'"
| sought: "fs_reach s \<Longrightarrow> fseek offset position (files s ! i) = (r, f) \<Longrightarrow> fs_reach (s\<lparr>files := (files s)[i := f]\<rparr>)"
| rewound: "fs_reach s \<Longrightarrow> fs_reach (rewind fp s)"
| stored: "fs_reach s \<Longrightarrow> fs_reach (s\<lparr>fs_mem := m\<rparr>)"
| allocated: "fs_reach s \<Longrightarrow> fs_malloc n s = Some (a, s') \<Longrightarrow> fs_reach s'"
| released: "fs_reach s \<Longrightarrow> fs_free a s = Some s' \<Longrightarrow> fs_reach s'"

lemma reach_typed: "fs_reach s \<Longrightarrow> fs_typed s"
proof (induction rule: fs_reach.induct)
  case (set_up d bpb fatbuf buffer dt vt s s')
  from init_disk_typed [OF set_up.hyps] show ?case .
next
  case (opened s d charbuf ent filename path flags h s')
  then show ?case
    using fopen_cases [OF opened.hyps(2)] typed_same
    by (auto simp: took_entry_def fs_typed_def disks_typed_def)
next
  case (closed s fp r s')
  from fclose_typed [OF closed.hyps(2) closed.IH] show ?case .
next
  case (was_read s d charbuf ent filename ptr n i k s')
  then show ?case by (metis fread_same typed_same)
next
  case (allocated s n a s')
  then show ?case by (metis fs_malloc_same typed_same)
next
  case (released s a s')
  then show ?case by (metis fs_free_same typed_same)
qed (simp_all add: fs_typed_def disks_typed_def rewind_def Let_def)


text \<open>A machine without drives: every port reads 0.\<close>

definition no_drives :: device where
  "no_drives = \<lparr>dev_inb = \<lambda>_ _. 0, dev_inw = \<lambda>_ _. 0, dev_msr = \<lambda>_ _. 0\<rparr>"

definition empty_disks :: "diskdata list" where
  "empty_disks = replicate DISKS \<lparr>disk_blocks = 0, parts = replicate 4 demo_part\<rparr>"

lemma read_blocks_none: "fst (read_blocks n i no_drives port b t) = b"
  by (induction n arbitrary: i b t) (simp_all add: inw_def no_drives_def Let_def)

lemma identify_none: "\<exists>t'. identify_disk no_drives disk b t = Some (b, t')"
proof -
  have poll: "\<exists>t'. poll no_drives port BSY t = Some t'" for port t
    by (subst poll.simps) (simp add: inb_def no_drives_def)
  then obtain t1 where "poll no_drives (disk_port disk) BSY t = Some t1" by blast
  then show ?thesis by (simp add: identify_disk_def Let_def split_beta read_blocks_none)
qed

lemma init_disks_none:
  "unat disk + n \<le> DISKS \<Longrightarrow> disktable s = empty_disks \<Longrightarrow>
     \<exists>t. init_disks n no_drives bpb fatbuf buffer disk l s = Some (l, s\<lparr>fs_io := t\<rparr>)"
proof (induction n arbitrary: disk s)
  case 0
  have "s\<lparr>fs_io := fs_io s\<rparr> = s" by simp
  then show ?case by (metis init_disks.simps(1))
next
  case (Suc n)
  have lt: "unat disk < DISKS" using Suc.prems(1) by simp
  then have e: "disktable s ! unat disk = \<lparr>disk_blocks = 0, parts = replicate 4 demo_part\<rparr>" "length (disktable s) = DISKS"
    using Suc.prems(2) by (simp_all add: empty_disks_def)
  obtain t where t: "identify_disk no_drives disk 0 (fs_io s) = Some (0, t)" using identify_none by blast
  have "set_blocks disk 0 (s\<lparr>fs_io := t\<rparr>) = s\<lparr>fs_io := t\<rparr>"
    using e(1) list_update_id [of "disktable s" "unat disk"] by (simp add: set_blocks_def)
  then have one: "init_one no_drives bpb fatbuf buffer disk l s = Some (l, s\<lparr>fs_io := t\<rparr>)"
    using e lt t by (simp add: init_one_def)
  have "unat (disk + 1) + n \<le> DISKS" using Suc.prems(1) by (simp add: unat_word_ariths DISKS_def)
  then obtain t' where "init_disks n no_drives bpb fatbuf buffer (disk + 1) l (s\<lparr>fs_io := t\<rparr>) = Some (l, s\<lparr>fs_io := t, fs_io := t'\<rparr>)"
    using Suc.IH [of "disk + 1" "s\<lparr>fs_io := t\<rparr>"] Suc.prems(2) by auto
  with one show ?case by auto
qed

lemma init_none: "\<exists>s'. init_disk no_drives 0x1000 0x2000 0x3000 empty_disks (replicate LETTERS \<lparr>v_disk = 0, v_partition = 0\<rparr>) demo_state = Some s'"
proof -
  have ok: "heap_ok (fs_heap demo_state)" by (rule demo_ok)
  obtain a k1 where 1: "fs_malloc (136 * of_nat DISKS) demo_state = Some (a, demo_state\<lparr>fs_heap := k1\<rparr>)" "heap_ok k1"
    using fs_malloc_returns [OF ok] by blast
  obtain b k2 where 2: "fs_malloc (8 * of_nat LETTERS) (demo_state\<lparr>fs_heap := k1\<rparr>) =
      Some (b, demo_state\<lparr>fs_heap := k1, fs_heap := k2\<rparr>)" "heap_ok k2"
    using fs_malloc_returns [of "demo_state\<lparr>fs_heap := k1\<rparr>" "8 * of_nat LETTERS"] 1(2) by auto
  let ?s = "demo_state\<lparr>fs_heap := k1, fs_heap := k2, disktable := empty_disks, volumes := replicate LETTERS \<lparr>v_disk = 0, v_partition = 0\<rparr>\<rparr>"
  obtain t where 3: "init_disks 4 no_drives 0x1000 0x2000 0x3000 0 0 ?s = Some (0, ?s\<lparr>fs_io := t\<rparr>)"
    using init_disks_none [of 0 4 ?s "0x1000" "0x2000" "0x3000" 0] by (auto simp: DISKS_def)
  obtain c k3 where 4: "fs_malloc (FILE_SIZE * of_nat MAX_OPEN_FILES) (?s\<lparr>fs_io := t\<rparr>) = Some (c, ?s\<lparr>fs_io := t, fs_heap := k3\<rparr>)"
    using fs_malloc_returns [of "?s\<lparr>fs_io := t\<rparr>" "FILE_SIZE * of_nat MAX_OPEN_FILES"] 2(2) by auto
  show ?thesis using 1(1) 2(1) 3 4 by (simp add: init_disk_def)
qed


end
