(* ===== verification/Tga.thy ===== *)
theory Tga
  imports FSOpen Gfx
begin

text \<open>
  \<^verbatim>\<open>tga_plot\<close> of \<^verbatim>\<open>libs/libgfx/img/tga.c\<close>: it reads a whole file into a block of the heap and plots the
  pixels behind the 18-byte header. It uses the file layer and the drawing routines.
\<close>

section \<open>Operations\<close>

text \<open>The members \<^verbatim>\<open>h\<close> and \<^verbatim>\<open>w\<close> of the packed \<^verbatim>\<open>tga_info_t\<close>, and its size.\<close>

definition tga_h :: "mem \<Rightarrow> u64 \<Rightarrow> u16" where "tga_h m a = load_le m (a + 12) 2"
definition tga_w :: "mem \<Rightarrow> u64 \<Rightarrow> u16" where "tga_w m a = load_le m (a + 14) 2"
definition tga_info_size :: u64 where "tga_info_size = 18"

primrec tga_row :: "nat \<Rightarrow> framebuffer \<Rightarrow> mem \<Rightarrow> u64 \<Rightarrow> u32 \<Rightarrow> u32 \<Rightarrow> pixels \<Rightarrow> u64 \<times> pixels" where
  "tga_row 0 fb m img j i p = (img, p)"
| "tga_row (Suc n) fb m img j i p =
     tga_row n fb m (img + 4) (j + 1) i (plotpixel fb j i (load_le m img 4) p)"

primrec tga_rows :: "nat \<Rightarrow> framebuffer \<Rightarrow> mem \<Rightarrow> u64 \<Rightarrow> u16 \<Rightarrow> u32 \<Rightarrow> pixels \<Rightarrow> pixels" where
  "tga_rows 0 fb m img w i p = p"
| "tga_rows (Suc n) fb m img w i p =
     (let (img, p) = tga_row (unat w) fb m img 0 i p in tga_rows n fb m img w (i + 1) p)"

definition tga_plot ::
  "device \<Rightarrow> u64 \<Rightarrow> u64 \<Rightarrow> u64 \<Rightarrow> framebuffer \<Rightarrow> u64 \<Rightarrow> u32 \<Rightarrow> u32 \<Rightarrow> fsys \<Rightarrow> pixels \<Rightarrow> (int \<times> fsys \<times> pixels) option" where
  "tga_plot d charbuf ent filename fb fp x y s p = do {
     (header, s) \<leftarrow> fs_malloc (fsize fp s) s;
     let img = header + tga_info_size;
     (r, s) \<leftarrow> fread d charbuf ent filename header (fsize fp s) (files s ! handle_index (files_addr s) fp) s;
     let w = tga_w (fs_mem s) header;
     let h = tga_h (fs_mem s) header;
     let p = tga_rows (unat h) fb (fs_mem s) img w 0 p;
     s \<leftarrow> fs_free header s;
     Some (0, s, p)
   }"

section \<open>The loops\<close>

definition tga_pixel :: "mem \<Rightarrow> u64 \<Rightarrow> nat \<Rightarrow> pixel_t" where
  "tga_pixel m img k = load_le m (img + 4 * of_nat k) 4"

lemma tga_row_plots:
  "tga_row n fb m img j i p =
     (img + 4 * of_nat n, plot_all fb (map (\<lambda>k. (j + of_nat k, i, tga_pixel m img k)) [0..<n]) p)"
proof (induction n arbitrary: img j p)
  case 0
  then show ?case by (simp add: plot_all_def)
next
  case (Suc n)
  have "map f [0..<Suc n] = f 0 # map (\<lambda>k. f (Suc k)) [0..<n]" for f :: "nat \<Rightarrow> u32 \<times> u32 \<times> pixel_t"
    by (simp add: upt_conv_Cons map_Suc_upt [symmetric] comp_def del: upt_Suc)
  then show ?case
    by (simp only: tga_row.simps Suc.IH) (simp add: plot_all_def tga_pixel_def algebra_simps)
qed

lemma tga_rows_plots:
  "tga_rows n fb m img w i p =
     plot_all fb (concat (map (\<lambda>r. map (\<lambda>k. (of_nat k, i + of_nat r, tga_pixel m img (r * unat w + k))) [0..<unat w]) [0..<n])) p"
proof (induction n arbitrary: img i p)
  case 0
  then show ?case by (simp add: plot_all_def)
next
  case (Suc n)
  have split: "concat (map f [0..<Suc n]) = f 0 @ concat (map (\<lambda>r. f (Suc r)) [0..<n])" for f :: "nat \<Rightarrow> (u32 \<times> u32 \<times> pixel_t) list"
    by (simp add: upt_conv_Cons map_Suc_upt [symmetric] comp_def del: upt_Suc)
  have px: "tga_pixel m (img + 4 * of_nat (unat w)) (r * unat w + k) = tga_pixel m img (Suc r * unat w + k)" for r k
    by (simp add: tga_pixel_def algebra_simps)
  show ?case
    unfolding split tga_rows.simps tga_row_plots Let_def prod.case Suc.IH px
    by (simp add: plot_all_def add.assoc)
qed

section \<open>The picture of a file\<close>

text \<open>The picture that the bytes of a file describe; \<^term>\<open>b\<close> gives byte \<open>k\<close>.\<close>

definition tga_width :: "(nat \<Rightarrow> u8) \<Rightarrow> nat" where "tga_width b = unat (image_le b 14 2 :: u16)"
definition tga_height :: "(nat \<Rightarrow> u8) \<Rightarrow> nat" where "tga_height b = unat (image_le b 12 2 :: u16)"

definition tga_picture :: "(nat \<Rightarrow> u8) \<Rightarrow> (u32 \<times> u32 \<times> pixel_t) list" where
  "tga_picture b = rect_pixels 0 0 (tga_width b) (tga_height b) (\<lambda>i j. image_le b (18 + 4 * (i * tga_width b + j)) 4)"

lemma load_le_file:
  assumes "\<And>k. k < n \<Longrightarrow> m (a + of_nat k) = b k" and "n < 2 ^ 63" and "off + k \<le> n"
  shows "load_le m (a + of_nat off) k = (image_le b off k :: 'b::len word)"
proof (rule load_le_image)
  show "m (a + of_nat off + of_nat j) = b (off + j)" if "j < k" for j
    using assms(1) [of "off + j"] assms(3) that by (simp add: add.assoc)
  show "k \<le> 2 ^ 63" using assms(2,3) by linarith
qed

lemma tga_rows_picture:
  assumes m: "\<And>k. k < n \<Longrightarrow> m (header + of_nat k) = b k" and n: "18 + 4 * (tga_width b * tga_height b) \<le> n" and lim: "n < 2 ^ 63"
  shows "tga_rows (unat (tga_h m header)) fb m (header + tga_info_size) (tga_w m header) 0 p = plot_all fb (tga_picture b) p"
proof -
  have "18 \<le> n" using n by (rule add_leD1)
  then have "load_le m (header + of_nat 14) 2 = (image_le b 14 2 :: u16)" "load_le m (header + of_nat 12) 2 = (image_le b 12 2 :: u16)"
    by (auto intro!: load_le_file [where n = n] m lim simp del: of_nat_numeral)
  then have w: "unat (tga_w m header) = tga_width b" and h: "unat (tga_h m header) = tga_height b"
    by (simp_all add: tga_w_def tga_h_def tga_width_def tga_height_def)
  have px: "tga_pixel m (header + tga_info_size) (i * tga_width b + j) = image_le b (18 + 4 * (i * tga_width b + j)) 4"
    if "i < tga_height b" "j < tga_width b" for i j
  proof -
    have "i * tga_width b + j < Suc i * tga_width b" using that(2) by simp
    also have "\<dots> \<le> tga_height b * tga_width b" using that(1) by (intro mult_le_mono1) simp
    finally have "18 + 4 * (i * tga_width b + j) + 4 \<le> n" using n by (simp add: mult.commute)
    then have "load_le m (header + of_nat (18 + 4 * (i * tga_width b + j))) 4 = (image_le b (18 + 4 * (i * tga_width b + j)) 4 :: u32)"
      using m lim by (intro load_le_file)
    then show ?thesis by (simp add: tga_pixel_def tga_info_size_def algebra_simps)
  qed
  have "concat (map (\<lambda>r. map (\<lambda>k. (of_nat k, 0 + of_nat r, tga_pixel m (header + tga_info_size) (r * tga_width b + k))) [0..<tga_width b])
      [0..<tga_height b]) = tga_picture b"
    unfolding tga_picture_def rect_pixels_def by (intro arg_cong [where f = concat] map_cong refl) (simp add: px)
  then show ?thesis by (simp add: tga_rows_plots w h)
qed

context sector_source
begin

lemma tga_plot_result:
  assumes ok: "heap_ok (fs_heap s)" "fs_flat s" and al: "aligncheck (files_addr s) fp = 0"
    and f: "f = files s ! handle_index (files_addr s) fp" "f_pointer f = 0" "f_size f \<noteq> 0"
    and vol: "volume_part s (f_volume f) = Some (disk, part, info)" "p_fs info = fat32" "p_fsdata info = Some fs"
    and g: "file_entry (sec disk) (p_loc info) fs names = Some g"
    and path: "path_at (fs_mem s) (safe_from [(filename, 13), (ent, 32)] s) (f_path f) names" "length names < 2 ^ 32"
    and keep: "kept s (filename, 13)" "kept s (ent, 32)"
    and room: "served (f_size f # search_blocks fs) s"
    and o: "open_chain (sec disk) (p_loc info) fs cs (first_cluster (entry_of g))" and cs: "length cs < 2 ^ 32"
    and n: "unat (f_size f) \<le> length cs * cluster_size fs" "unat (f_size f) < 2 ^ 63"
    and b: "b = file_byte (sec disk) (p_loc info) fs cs" "18 + 4 * (tga_width b * tga_height b) \<le> unat (f_size f)"
  shows "\<exists>s'. tga_plot d charbuf ent filename fb fp x y s p = Some (0, s', plot_all fb (tga_picture b) p)"
proof -
  let ?n = "f_size f" and ?rs = "[(filename, 13), (ent, 32)]"
  obtain a s1 where m: "fs_malloc ?n s = Some (a, s1)" "a \<noteq> 0" and room1: "served (search_blocks fs) s1" using room by auto
  note F = fs_malloc_fields [OF ok(1) m(1)] note K = fs_malloc_block [OF ok(1) m(1,2)]
  have size: "fsize fp s = ?n" "fsize fp s1 = ?n" using al f(1) F(4,5) by (simp_all add: fsize_def)
  have f1: "files s1 ! handle_index (files_addr s1) fp = f" using f(1) F(4,5) by simp
  have vol1: "volume_part s1 (f_volume f) = Some (disk, part, info)" using vol(1) volume_part_cong [OF F(2,3)] by simp
  have safe1: "safe_from ?rs s1 y" if "safe_from ?rs s y" for y using that F(7) by (auto simp: safe_from_def)
  have path1: "path_at (fs_mem s1) (safe_from ?rs s1) (f_path f) names" using path_at_safe [OF safe1 path(1)] F(1) by simp
  have keep1: "kept s1 (filename, 13)" "kept s1 (ent, 32)" using K(2) keep by blast+
  have n1: "unat (f_pointer f) + unat ?n \<le> length cs * cluster_size fs" using n(1) f(2) by simp
  obtain s2 where s2: "fat_read d charbuf ent filename a ?n f s1 = Some (?n, s2)"
    "\<And>k. k < unat ?n \<Longrightarrow> fs_mem s2 (a + of_nat k) = b k" "heap_ok (fs_heap s2)" "fs_flat s2"
    using fat_read_result [OF F(6) fs_malloc_flat [OF ok(1) m(1) ok(2)] vol1 vol(3) g path1 path(2) keep1 K(1)
        room1 [unfolded search_blocks_def] o cs f(3) n1, of charbuf] f(2) b(1) by auto
  have "fread d charbuf ent filename a ?n f s1 = Some (?n, s2)"
    using f(2,3) vol1 vol(2) s2(1) by (simp add: fread_def)
  moreover obtain k where "free a (fs_heap s2) = Some k" using free_returns_ok [OF s2(3)] s2(4) unfolding fs_flat_def by auto
  moreover have "tga_rows (unat (tga_h (fs_mem s2) a)) fb (fs_mem s2) (a + tga_info_size) (tga_w (fs_mem s2) a) 0 p =
      plot_all fb (tga_picture b) p"
    using s2(2) b(2) n(2) by (rule tga_rows_picture)
  ultimately show ?thesis by (simp add: tga_plot_def size m(1) f1 fs_free_def Let_def)
qed

end


text \<open>The example: the second file of the small volume, a picture of one pixel.\<close>

definition demo_tga :: fsys where
  "demo_tga = demo_state\<lparr>files_addr := 0x800,
     files := [\<lparr>f_path = 0x100, f_volume = 0, f_pointer = 0, f_size = 22, f_flags = 0, f_used = True\<rparr>],
     fs_mem := (\<lambda>_. 0)(0x101 := 2, 0x200 := 84, 0x201 := 46, 0x202 := 84, 0x203 := 71, 0x204 := 65)\<rparr>"

definition tga_names :: "u8 list list" where
  "tga_names = [[84, 46, 84, 71, 65]]"

lemma tga_entry:
  "\<exists>g. file_entry (disk_bytes (\<lambda>_. demo_disk) 0) 0 demo_fs tga_names = Some g \<and> first_cluster (entry_of g) = 4"
proof -
  let ?d = "disk_bytes (\<lambda>_. demo_disk) 0 (cluster_lba 0 demo_fs 2)"
  have lba: "cluster_lba 0 demo_fs 2 = 2" by (simp add: cluster_lba_def demo_fs_def)
  note ev = lba short_text_def upt_conv_Cons [of 0 8] upt_conv_Cons [of "Suc 0" 8] demo_bytes demo_byte_def take_bit_numeral_numeral
  have first: "short_text (\<lambda>x. ?d (32 * 0 + x)) \<noteq> [84, 46, 84, 71, 65]" "?d 11 \<noteq> FAT_LFN"
    and second: "short_text (\<lambda>x. ?d (32 * 1 + x)) = [84, 46, 84, 71, 65]" "?d 43 \<noteq> FAT_LFN" "?d 43 AND DIRECTORY = 0"
    by (simp_all add: ev FAT_LFN_def DIRECTORY_def)
  have "scan (\<lambda>j. ?d (32 * j + 11) = FAT_LFN \<or> short_text (\<lambda>x. ?d (32 * j + x)) = [84, 46, 84, 71, 65]) 0 (dir_entries demo_fs) = Some 1"
    using first second by (simp add: scan_Some_iff dir_entries_def demo_fs_def)
  then have "file_entry (disk_bytes (\<lambda>_. demo_disk) 0) 0 demo_fs tga_names = Some (\<lambda>x. ?d (32 + x))"
    using second by (simp add: file_entry_def tga_names_def lookup_dir_def demo_fs_def [THEN arg_cong [where f = root_cluster], simplified])
  moreover have "first_cluster (entry_of (\<lambda>x. ?d (32 + x))) = 4"
    by (simp add: entry_of_def FAT_entry_at_def first_cluster_def load_le_numeral lba demo_bytes demo_byte_def take_bit_numeral_numeral)
  ultimately show ?thesis by blast
qed

lemma tga_chain: "open_chain (disk_bytes (\<lambda>_. demo_disk) 0) 0 demo_fs [4] 4"
proof -
  have "fat_cell (disk_bytes (\<lambda>_. demo_disk) 0) 1 4 = 0x0FFFFFFF"
    by (simp add: fat_cell_def FEPS_def image_le_def load_le_numeral demo_bytes demo_byte_def take_bit_numeral_numeral)
  then show ?thesis by (simp add: open_chain_def one_sector_def chain_goes_on_def demo_fs_def)
qed

lemma tga_demo_picture:
  "tga_width (file_byte (disk_bytes (\<lambda>_. demo_disk) 0) 0 demo_fs [4]) = 1"
  "tga_height (file_byte (disk_bytes (\<lambda>_. demo_disk) 0) 0 demo_fs [4]) = 1"
  "tga_picture (file_byte (disk_bytes (\<lambda>_. demo_disk) 0) 0 demo_fs [4]) = [(0, 0, 7)]"
proof -
  have b: "file_byte (disk_bytes (\<lambda>_. demo_disk) 0) 0 demo_fs [4] k = demo_byte 4 k" if "k < 512" for k
    using that by (simp add: file_byte_def cluster_size_def demo_fs_def cluster_lba_def demo_bytes take_bit_numeral_numeral)
  show wh: "tga_width (file_byte (disk_bytes (\<lambda>_. demo_disk) 0) 0 demo_fs [4]) = 1"
    "tga_height (file_byte (disk_bytes (\<lambda>_. demo_disk) 0) 0 demo_fs [4]) = 1"
    by (simp_all add: tga_width_def tga_height_def image_le_def load_le_numeral b demo_byte_def)
  show "tga_picture (file_byte (disk_bytes (\<lambda>_. demo_disk) 0) 0 demo_fs [4]) = [(0, 0, 7)]"
    by (simp add: tga_picture_def wh rect_pixels_def image_le_def load_le_numeral b demo_byte_def)
qed


end
