(* ===== verification/BootPaging.thy ===== *)
theory BootPaging
  imports PageWalk
begin

text \<open>
  The page tables of the UEFI boot loader (\<^verbatim>\<open>map_page\<close> and the mapping loops of \<^verbatim>\<open>bootloader/boot.c\<close>).
  The boot loader takes the pages for its tables from the firmware, which is a parameter: a supplier
  of pages that says when it has none left. The code ignores that answer and goes on with an unset
  pointer, which the model makes \<^term>\<open>None\<close>; the lemmas show that this does not happen when the
  firmware has more pages than tables are needed to map everything that is mapped.
\<close>

section \<open>Operations\<close>

text \<open>The boot loader's \<^verbatim>\<open>map_page\<close> ignores unaligned virtual addresses only.\<close>

definition boot_guard :: "u64 \<Rightarrow> u64 \<Rightarrow> bool" where
  "boot_guard phys virt \<longleftrightarrow> virt mod PAGE_SIZE \<noteq> 0"

definition boot_map_page ::
  "('a \<Rightarrow> (u64 \<times> 'a) option) \<Rightarrow> nat \<Rightarrow> u64 \<Rightarrow> u64 \<Rightarrow> 'a vm \<Rightarrow> 'a vm option" where
  "boot_map_page pagealloc fuel phys virt s = map_page_with boot_guard pagealloc fuel phys virt s"

text \<open>\<^verbatim>\<open>n\<close> turns of a loop that maps a page and moves both addresses on.\<close>

primrec boot_map_run ::
  "('a \<Rightarrow> (u64 \<times> 'a) option) \<Rightarrow> nat \<Rightarrow> nat \<Rightarrow> u64 \<Rightarrow> u64 \<Rightarrow> 'a vm \<Rightarrow> 'a vm option" where
  "boot_map_run pagealloc fuel 0 a v s = Some s"
| "boot_map_run pagealloc fuel (Suc n) a v s = do {
     s \<leftarrow> boot_map_page pagealloc fuel a v s;
     boot_map_run pagealloc fuel n (a + PAGE_SIZE) (v + PAGE_SIZE) s
   }"

section \<open>Enough pages\<close>

definition paths :: "mem \<Rightarrow> u64 \<Rightarrow> nat list set" where
  "paths m r = {q. idx_path q \<and> walk m r q \<noteq> None}"

definition table_paths :: "u64 set \<Rightarrow> nat list set" where
  "table_paths V = (\<Union>v \<in> V. {take 1 (vpath v), take 2 (vpath v), vpath v})"

definition missing :: "u64 set \<Rightarrow> 'a vm \<Rightarrow> nat list set" where
  "missing V s = table_paths V - paths (ram s) (pml4 s)"

lemma table_paths_idx: "q \<in> table_paths V \<Longrightarrow> idx_path q"
  by (auto simp: table_paths_def vpath_def idx_path_def)

lemma finite_table_paths: "finite (table_paths V)"
proof (rule finite_subset)
  show "table_paths V \<subseteq> {q. set q \<subseteq> {..<512} \<and> length q \<le> 3}"
    using table_paths_idx by (force simp: idx_path_def list_all_iff)
qed (simp add: finite_lists_length_le)

lemma finite_missing [simp]: "finite (missing V s)"
  by (simp add: missing_def finite_table_paths)

lemma missing_mono: "paths (ram s) (pml4 s) \<subseteq> paths (ram t) (pml4 t) \<Longrightarrow> card (missing V t) \<le> card (missing V s)"
  by (rule card_mono [OF finite_missing]) (auto simp: missing_def)

lemma table_pathsI:
  "v \<in> V \<Longrightarrow> [table_idx 39 v] \<in> table_paths V"
  "v \<in> V \<Longrightarrow> [table_idx 39 v, table_idx 30 v] \<in> table_paths V"
  "v \<in> V \<Longrightarrow> vpath v \<in> table_paths V"
  by (force simp: table_paths_def vpath_def)+

lemma keeps_walks_paths: "keeps_walks m m' r \<Longrightarrow> paths m r \<subseteq> paths m' r"
  by (auto simp: keeps_walks_def paths_def)

lemma paths_new_table:
  assumes "tables_ok m r P" and "idx_path (p @ [i])" and "walk m r p = Some b"
    and "\<not> present (entry m b i)" and "F \<in> P" and "F AND ADDR_MASK = F"
  shows "paths (set_entry (fst (memset m F 0 PAGE_SIZE)) b i (F AND ADDR_MASK OR FLAGS)) r =
    insert (p @ [i]) (paths m r)"
proof -
  have none: "walk m r (p @ [i]) = None" using assms(3,4) by (simp add: walk_snoc)
  then have "walk m r q = None" if "prefix (p @ [i]) q" for q
    using that by (auto simp: prefix_def walk_append simp del: append_assoc)
  with walk_new_table [OF assms(1-3,5,6)] assms(2) show ?thesis
    by (auto simp: paths_def split: if_splits)
qed

text \<open>
  More free pages than tables are missing to map the addresses \<^term>\<open>V\<close>, the free pages included.
\<close>

definition supplied :: "('a \<Rightarrow> u64 set) \<Rightarrow> u64 set \<Rightarrow> 'a vm \<Rightarrow> bool" where
  "supplied pool V s \<longleftrightarrow> pool (pages s) \<subseteq> V \<and> card (missing V s) < card (pool (pages s))"

lemma supplied_nonempty: "supplied pool V s \<Longrightarrow> pool (pages s) \<noteq> {}"
  by (auto simp: supplied_def)

definition boot_ready :: "('a \<Rightarrow> u64 set) \<Rightarrow> ('a \<Rightarrow> bool) \<Rightarrow> u64 set \<Rightarrow> 'a vm \<Rightarrow> bool" where
  "boot_ready pool ok V s \<longleftrightarrow>
     ok (pages s) \<and> tables_ok (ram s) (pml4 s) (pool (pages s)) \<and> supplied pool V s"

text \<open>What a call of \<^verbatim>\<open>map_page\<close> means for translations.\<close>

lemma maps_find:
  assumes "maps m (ram t) r N virt (phys AND ADDR_MASK OR FLAGS)" and "pml4 t = r" and "page_aligned virt" and "off < PAGE_SIZE"
  shows "find_physaddr t (virt + off) = (phys AND ADDR_MASK) + off"
  using assms present_FLAGS [of "phys AND ADDR_MASK"] mask_FLAGS [of "phys AND ADDR_MASK"]
  by (simp add: maps_def find_physaddr_leaf vpath_offset table_idx_offset offset_mask Let_def)

lemma maps_frame:
  assumes "maps m (ram t) r N virt e" and "m = ram s" and "pml4 t = r" and "pml4 s = r"
    and "\<not> same_page w virt" and "\<forall>F \<in> N. canonical F"
  shows "find_physaddr t w = find_physaddr s w \<or> (\<exists>F \<in> N. same_page w F \<and> find_physaddr t w = F + (w AND 0xFFF))"
proof -
  have "leaf_kept (ram s) (ram t) r N (vpath w) (table_idx 12 w)"
    using assms(1,2,5) idx_path_vpath length_vpath table_idx_less unfolding maps_def same_page_def by blast
  then consider "leaf (ram t) r (vpath w) (table_idx 12 w) = leaf (ram s) r (vpath w) (table_idx 12 w)"
    | F where "F \<in> N" "same_page w F" "self_mapped (ram t) r F"
    by (auto simp: leaf_kept_def same_page_def)
  then show ?thesis
  proof cases
    case 1
    with assms(3,4) show ?thesis by (simp add: find_physaddr_leaf)
  next
    case (2 F)
    with assms(3,6) find_self_mapped [of F t w] show ?thesis by blast
  qed
qed

lemma same_page_eq: "same_page x y \<Longrightarrow> canonical x \<Longrightarrow> canonical y \<Longrightarrow> x = y"
  using path_inj by (auto simp: same_page_def)

lemma unat_page_step: "unat v + 4096 * k < 2 ^ 64 \<Longrightarrow> unat (v + of_nat k * PAGE_SIZE) = unat v + 4096 * k"
  by (simp add: unat_word_ariths PAGE_SIZE_def unat_of_nat)

lemma page_aligned_step: "page_aligned v \<Longrightarrow> page_aligned (v + of_nat k * PAGE_SIZE)"
proof -
  assume v: "page_aligned v"
  have "(4096 :: nat) dvd (unat v + unat (of_nat k * PAGE_SIZE :: u64)) mod 2 ^ 64"
    using v by (intro dvd_mod dvd_add) (auto simp: page_aligned_unat unat_word_ariths PAGE_SIZE_def intro: dvd_mod)
  then show ?thesis by (simp add: page_aligned_unat unat_word_ariths)
qed

lemma page_canonical:
  assumes "page_aligned v" and "unat v + 4096 * k < 2 ^ 48"
  shows "canonical (v + of_nat k * PAGE_SIZE)"
proof -
  let ?x = "v + of_nat k * PAGE_SIZE"
  have x: "page_aligned ?x" "?x < 0x1000000000000"
    using page_aligned_step [OF assms(1)] unat_page_step [of v k] assms(2) by (simp_all add: word_less_nat_alt)
  have "bit (?x AND ADDR_MASK) n = bit ?x n" for n
  proof -
    have "bit ?x n \<Longrightarrow> 12 \<le> n \<and> n < 52" using low_bits [OF x(1), of n] bit_above_48 [OF x(2), of n] 
      by (cases "n < 12"; cases "48 \<le> n") auto
    then show ?thesis by (auto simp: bit_and_iff bit_ADDR_MASK)
  qed
  with x(2) show ?thesis by (auto simp: canonical_def intro: bit_word_eqI)
qed

lemma pages_differ:
  assumes "unat v + 4096 * j < 2 ^ 64" and "unat v + 4096 * k < 2 ^ 64" and "j \<noteq> k"
  shows "v + of_nat j * PAGE_SIZE \<noteq> v + of_nat k * PAGE_SIZE"
proof
  assume "v + of_nat j * PAGE_SIZE = v + of_nat k * PAGE_SIZE"
  then show False using unat_page_step [of v j] unat_page_step [of v k] assms by simp
qed

context page_supply
begin

lemma ensure_supplied:
  assumes IH: "\<And>F u. ok (pages u) \<Longrightarrow> tables_ok (ram u) (pml4 u) (pool (pages u)) \<Longrightarrow> supplied pool V u \<Longrightarrow> F \<in> V \<Longrightarrow>
      card (missing V u) < n \<Longrightarrow> \<exists>t. rec F F u = Some t \<and> supplied pool V t \<and> paths (ram u) (pml4 u) \<subseteq> paths (ram t) (pml4 t)"
    and s: "ok (pages s)" "tables_ok (ram s) (pml4 s) (pool (pages s))" "supplied pool V s"
    and p: "p @ [i] \<in> table_paths V" "walk (ram s) (pml4 s) p = Some b"
    and n: "card (missing V s) < Suc n"
  shows "\<exists>t. ensure_table rec alloc b i s = Some t \<and> supplied pool V t \<and> paths (ram s) (pml4 s) \<subseteq> paths (ram t) (pml4 t)"
proof (cases "present (entry (ram s) b i)")
  case True
  with s(3) show ?thesis by (simp add: ensure_present)
next
  case False
  have pi: "idx_path (p @ [i])" using p(1) by (rule table_paths_idx)
  obtain F a where F: "alloc (pages s) = Some (F, a)" "F \<in> pool (pages s)" "pool a = pool (pages s) - {F}" "ok a"
    using takes [OF s(1) supplied_nonempty [OF s(3)]] by blast
  have Fm: "F AND ADDR_MASK = F" using page_frame [OF s(1) F(2)] by simp
  let ?m = "set_entry (fst (memset (ram s) F 0 PAGE_SIZE)) b i (F AND ADDR_MASK OR FLAGS)"
  define u where "u = s\<lparr>ram := ?m, pages := a\<rparr>"
  have u: "ram u = ?m" "pml4 u = pml4 s" "pages u = a" by (simp_all add: u_def)
  have e: "ensure_table rec alloc b i s = rec F F u"
    using False F(1) by (simp add: ensure_table_def new_table_def u_def)
  have pu: "paths (ram u) (pml4 s) = insert (p @ [i]) (paths (ram s) (pml4 s))"
    unfolding u(1) using s(2) pi p(2) False F(2) Fm by (rule paths_new_table)
  have new: "p @ [i] \<in> missing V s"
    using p False by (simp add: missing_def paths_def walk_snoc)
  have "missing V u = missing V s - {p @ [i]}" by (auto simp: missing_def pu u(2))
  then have m: "Suc (card (missing V u)) = card (missing V s)"
    using card.remove [OF finite_missing new] by simp
  have c: "Suc (card (pool a)) = card (pool (pages s))"
    using card.remove [OF finite_pages F(2)] F(3) by simp
  have sub: "pool (pages s) \<subseteq> V" using s(3) by (simp add: supplied_def)
  then have "pool a \<subseteq> V" using F(3) by blast
  then have su: "supplied pool V u" using s(3) m c u(3) by (simp add: supplied_def)
  have "tables_ok (ram u) (pml4 u) (pool (pages u))"
    using new_table_step(1) [OF s(2) pi p(2) False F(2) Fm] F(3) u by simp
  then have "\<exists>t. rec F F u = Some t \<and> supplied pool V t \<and> paths (ram u) (pml4 u) \<subseteq> paths (ram t) (pml4 t)"
    using F(4) u(3) su m n sub F(2) by (intro IH) auto
  with e pu u(2) show ?thesis by auto
qed

lemma map_supplied:
  assumes good: "\<And>F. canonical F \<Longrightarrow> \<not> bad F F"
  shows "ok (pages s) \<Longrightarrow> tables_ok (ram s) (pml4 s) (pool (pages s)) \<Longrightarrow> supplied pool V s \<Longrightarrow> virt \<in> V \<Longrightarrow>
    card (missing V s) < n \<Longrightarrow> \<exists>t. map_page_with bad alloc n phys virt s = Some t \<and> supplied pool V t \<and>
      paths (ram s) (pml4 s) \<subseteq> paths (ram t) (pml4 t)"
proof (induction n arbitrary: phys virt s)
  case 0
  then show ?case by simp
next
  case (Suc n)
  show ?case
  proof (cases "bad phys virt")
    case True
    with Suc.prems show ?thesis by simp
  next
    case False
    let ?rec = "map_page_with bad alloc n"
    let ?e = "ensure_table ?rec alloc"
    let ?r = "pml4 s" and ?i = "table_idx 39 virt" and ?j = "table_idx 30 virt" and ?k = "table_idx 21 virt"
    have rec: "\<forall>F u v. ?rec F F u = Some v \<longrightarrow> canonical F \<longrightarrow> ok (pages u) \<longrightarrow>
        tables_ok (ram u) (pml4 u) (pool (pages u)) \<longrightarrow> pool (pages v) \<noteq> {} \<longrightarrow>
        tables_ok (ram v) (pml4 u) (pool (pages v)) \<and>
        maps (ram u) (ram v) (pml4 u) (pool (pages u) - pool (pages v)) F (F OR FLAGS)"
      using map_correct [where bad = bad, OF good] good by (metis canonical_def)
    have all_keep: "\<forall>p q u v. ?rec p q u = Some v \<longrightarrow> ok (pages u) \<longrightarrow>
        ok (pages v) \<and> pml4 v = pml4 u \<and> pool (pages v) \<subseteq> pool (pages u)"
      using map_keeps by blast
    have step: "\<exists>t. ?e b i u = Some t \<and> supplied pool V t \<and> ok (pages t) \<and> pml4 t = ?r \<and>
        tables_ok (ram t) ?r (pool (pages t)) \<and> walk (ram t) ?r (p @ [i]) = Some (child t b i) \<and>
        paths (ram u) ?r \<subseteq> paths (ram t) ?r \<and> card (missing V t) < Suc n"
      if u: "ok (pages u)" "pml4 u = ?r" "tables_ok (ram u) ?r (pool (pages u))" "supplied pool V u"
        "p @ [i] \<in> table_paths V" "walk (ram u) ?r p = Some b" "card (missing V u) < Suc n" for b i p u
    proof -
      have "\<exists>t. ?e b i u = Some t \<and> supplied pool V t \<and> paths (ram u) (pml4 u) \<subseteq> paths (ram t) (pml4 t)"
      proof (rule ensure_supplied [where n = n and p = p])
        fix F w
        assume "ok (pages w)" "tables_ok (ram w) (pml4 w) (pool (pages w))" "supplied pool V w" "F \<in> V" "card (missing V w) < n"
        then show "\<exists>t. ?rec F F w = Some t \<and> supplied pool V t \<and> paths (ram w) (pml4 w) \<subseteq> paths (ram t) (pml4 t)"
          by (rule Suc.IH)
      qed (use u in simp_all)
      then obtain t where t: "?e b i u = Some t" "supplied pool V t" "paths (ram u) ?r \<subseteq> paths (ram t) (pml4 t)"
        using u(2) by auto
      have k: "ok (pages t)" "pml4 t = ?r" using ensure_keeps [OF all_keep t(1) u(1)] u(2) by auto
      have "tables_ok (ram t) ?r (pool (pages t)) \<and> walk (ram t) ?r (p @ [i]) = Some (child t b i)"
        using ensure_correct [OF rec all_keep t(1) u(1), of p] u supplied_nonempty [OF t(2)] table_paths_idx [OF u(5)]
        by simp
      moreover have "card (missing V t) < Suc n" using missing_mono [of u t V] t(3) u(2,7) by simp
      ultimately show ?thesis using t k by auto
    qed
    note P = table_pathsI [OF Suc.prems(4)]
    obtain s1 where s1: "?e ?r ?i s = Some s1" "supplied pool V s1" "ok (pages s1)" "pml4 s1 = ?r"
      "tables_ok (ram s1) ?r (pool (pages s1))" "walk (ram s1) ?r [?i] = Some (child s1 ?r ?i)"
      "paths (ram s) ?r \<subseteq> paths (ram s1) ?r" "card (missing V s1) < Suc n"
      using step [of s "[]" ?i ?r] Suc.prems P by auto
    let ?a = "child s1 ?r ?i"
    obtain s2 where s2: "?e ?a ?j s1 = Some s2" "supplied pool V s2" "ok (pages s2)" "pml4 s2 = ?r"
      "tables_ok (ram s2) ?r (pool (pages s2))" "walk (ram s2) ?r [?i, ?j] = Some (child s2 ?a ?j)"
      "paths (ram s1) ?r \<subseteq> paths (ram s2) ?r" "card (missing V s2) < Suc n"
      using step [of s1 "[?i]" ?j ?a] s1 P by auto
    let ?b = "child s2 ?a ?j"
    obtain s3 where s3: "?e ?b ?k s2 = Some s3" "supplied pool V s3" "ok (pages s3)" "pml4 s3 = ?r"
      "tables_ok (ram s3) ?r (pool (pages s3))" "walk (ram s3) ?r (vpath virt) = Some (child s3 ?b ?k)"
      "paths (ram s2) ?r \<subseteq> paths (ram s3) ?r"
      using step [of s2 "[?i, ?j]" ?k ?b] s2 P by (auto simp: vpath_def)
    let ?t = "s3\<lparr>ram := set_entry (ram s3) (child s3 ?b ?k) (table_idx 12 virt) (phys AND ADDR_MASK OR FLAGS)\<rparr>"
    have "map_page_with bad alloc (Suc n) phys virt s = Some ?t"
      using map_page_SucI [of bad phys virt alloc n s s1 s2 s3] False s1(1,4) s2(1,4) s3(1)
      by (simp del: map_page_with.simps)
    moreover have kept: "paths (ram s3) ?r \<subseteq> paths (ram ?t) ?r"
    proof -
      have "keeps_walks (ram s3) (ram ?t) ?r"
        using leaf_write_step(2) [OF s3(5) idx_path_vpath length_vpath s3(6) table_idx_less]
        by (simp add: keeps_walks_def)
      then show ?thesis by (rule keeps_walks_paths)
    qed
    moreover have "supplied pool V ?t"
      using s3(2) missing_mono [of s3 ?t V] kept s3(4) by (simp add: supplied_def)
    ultimately show ?thesis using s1(7) s2(7) s3(4,7) by auto
  qed
qed

lemma boot_map_page_main:
  assumes "boot_ready pool ok V s" and "virt \<in> V" and "page_aligned virt" and "card (missing V s) < fuel"
  shows "\<exists>t. boot_map_page alloc fuel phys virt s = Some t \<and> boot_ready pool ok V t \<and> pml4 t = pml4 s \<and>
    pool (pages t) \<subseteq> pool (pages s) \<and> card (missing V t) \<le> card (missing V s) \<and>
    maps (ram s) (ram t) (pml4 s) (pool (pages s) - pool (pages t)) virt (phys AND ADDR_MASK OR FLAGS)"
proof -
  note s = assms(1) [unfolded boot_ready_def]
  have good: "canonical F \<Longrightarrow> \<not> boot_guard F F" for F
    using frame_aligned [of F] by (simp add: canonical_def boot_guard_def page_aligned_def)
  have ok: "\<not> boot_guard phys virt" using assms(3) by (simp add: boot_guard_def page_aligned_def)
  obtain t where t: "map_page_with boot_guard alloc fuel phys virt s = Some t" "supplied pool V t"
    "paths (ram s) (pml4 s) \<subseteq> paths (ram t) (pml4 t)"
    using map_supplied [where bad = boot_guard, OF good] s assms(2,4) by blast
  have k: "ok (pages t)" "pml4 t = pml4 s" "pool (pages t) \<subseteq> pool (pages s)"
    using map_keeps [OF t(1)] s by auto
  have "tables_ok (ram t) (pml4 s) (pool (pages t)) \<and>
    maps (ram s) (ram t) (pml4 s) (pool (pages s) - pool (pages t)) virt (phys AND ADDR_MASK OR FLAGS)"
    using map_correct [where bad = boot_guard, OF good t(1) ok] s supplied_nonempty [OF t(2)] by blast
  with t k missing_mono [OF t(3)] show ?thesis by (auto simp: boot_map_page_def boot_ready_def)
qed

lemma pool_all_canonical: "boot_ready pool ok V s \<Longrightarrow> F \<in> pool (pages s) \<Longrightarrow> canonical F"
  by (auto simp: boot_ready_def pool_canonical)

lemma boot_map_page_finds:
  assumes "boot_ready pool ok V s" and "virt \<in> V" and "page_aligned virt" and "card (missing V s) < fuel"
  shows "\<exists>t. boot_map_page alloc fuel phys virt s = Some t \<and> boot_ready pool ok V t \<and> pml4 t = pml4 s \<and>
    pool (pages t) \<subseteq> pool (pages s) \<and> card (missing V t) \<le> card (missing V s) \<and>
    (\<forall>off < PAGE_SIZE. find_physaddr t (virt + off) = (phys AND ADDR_MASK) + off) \<and>
    (\<forall>w. \<not> same_page w virt \<longrightarrow> find_physaddr t w = find_physaddr s w \<or>
      (\<exists>F \<in> pool (pages s). same_page w F \<and> find_physaddr t w = F + (w AND 0xFFF)))"
proof -
  obtain t where t: "boot_map_page alloc fuel phys virt s = Some t" "boot_ready pool ok V t" "pml4 t = pml4 s"
    "pool (pages t) \<subseteq> pool (pages s)" "card (missing V t) \<le> card (missing V s)"
    "maps (ram s) (ram t) (pml4 s) (pool (pages s) - pool (pages t)) virt (phys AND ADDR_MASK OR FLAGS)"
    using boot_map_page_main [OF assms] by blast
  have "find_physaddr t (virt + off) = (phys AND ADDR_MASK) + off" if "off < PAGE_SIZE" for off
    using maps_find [OF t(6,3) assms(3) that] .
  moreover have "find_physaddr t w = find_physaddr s w \<or>
      (\<exists>F \<in> pool (pages s). same_page w F \<and> find_physaddr t w = F + (w AND 0xFFF))"
    if "\<not> same_page w virt" for w
    using maps_frame [OF t(6) refl t(3) _ that] pool_all_canonical [OF assms(1)] by blast
  ultimately show ?thesis using t by blast
qed

lemma boot_map_run_finds:
  assumes "boot_ready pool ok V s" and "\<And>k. k < n \<Longrightarrow> v + of_nat k * PAGE_SIZE \<in> V" and "page_aligned v"
    and "unat v + 4096 * n \<le> 2 ^ 48" and "card (missing V s) < fuel"
    and "\<And>F k. F \<in> pool (pages s) \<Longrightarrow> k < n \<Longrightarrow> F \<noteq> v + of_nat k * PAGE_SIZE"
  shows "\<exists>t. boot_map_run alloc fuel n a v s = Some t \<and> boot_ready pool ok V t \<and> pml4 t = pml4 s \<and>
    pool (pages t) \<subseteq> pool (pages s) \<and> card (missing V t) \<le> card (missing V s) \<and>
    (\<forall>k < n. \<forall>off < PAGE_SIZE. find_physaddr t (v + of_nat k * PAGE_SIZE + off) =
       (a + of_nat k * PAGE_SIZE AND ADDR_MASK) + off) \<and>
    (\<forall>w. (\<forall>k < n. \<not> same_page w (v + of_nat k * PAGE_SIZE)) \<longrightarrow> find_physaddr t w = find_physaddr s w \<or>
      (\<exists>F \<in> pool (pages s). same_page w F \<and> find_physaddr t w = F + (w AND 0xFFF)))"
  using assms
proof (induction n arbitrary: a v s)
  case 0
  then show ?case by simp
next
  case (Suc n)
  have v: "v \<in> V" using Suc.prems(2) [of 0] by simp
  obtain u where u: "boot_map_page alloc fuel a v s = Some u" "boot_ready pool ok V u" "pml4 u = pml4 s"
    "pool (pages u) \<subseteq> pool (pages s)" "card (missing V u) \<le> card (missing V s)"
    "\<forall>off < PAGE_SIZE. find_physaddr u (v + off) = (a AND ADDR_MASK) + off"
    "\<forall>w. \<not> same_page w v \<longrightarrow> find_physaddr u w = find_physaddr s w \<or>
      (\<exists>F \<in> pool (pages s). same_page w F \<and> find_physaddr u w = F + (w AND 0xFFF))"
    using boot_map_page_finds [OF Suc.prems(1) v Suc.prems(3,5), of a] by blast
  let ?v = "v + PAGE_SIZE"
  have nxt: "x + PAGE_SIZE + of_nat k * PAGE_SIZE = x + of_nat (Suc k) * PAGE_SIZE" for x k by (simp add: algebra_simps)
  have can: "canonical (v + of_nat k * PAGE_SIZE)" if "k < Suc n" for k
    using page_canonical [OF Suc.prems(3), of k] Suc.prems(4) that by simp
  have apart: "\<not> same_page (v + of_nat j * PAGE_SIZE) (v + of_nat k * PAGE_SIZE)"
    if "j < Suc n" "k < Suc n" "j \<noteq> k" for j k
    using same_page_eq [of "v + of_nat j * PAGE_SIZE" "v + of_nat k * PAGE_SIZE"] can that
      pages_differ [of v j k] Suc.prems(4) by auto
  have nopool: "\<not> same_page (v + of_nat k * PAGE_SIZE) F" if "F \<in> pool (pages s)" "k < Suc n" for F k
    using same_page_eq [of "v + of_nat k * PAGE_SIZE" F] can pool_all_canonical [OF Suc.prems(1)] Suc.prems(6) that by blast
  have al: "page_aligned ?v" using page_aligned_step [OF Suc.prems(3), of 1] by simp
  have room: "unat ?v + 4096 * n \<le> 2 ^ 48"
    using unat_page_step [of v 1] Suc.prems(4) by simp
  have miss: "card (missing V u) < fuel" using u(5) Suc.prems(5) by simp
  have V': "\<And>k. k < n \<Longrightarrow> ?v + of_nat k * PAGE_SIZE \<in> V"
    and F': "\<And>F k. F \<in> pool (pages u) \<Longrightarrow> k < n \<Longrightarrow> F \<noteq> ?v + of_nat k * PAGE_SIZE"
    unfolding nxt using Suc.prems(2,6) u(4) by blast+
  obtain t where t: "boot_map_run alloc fuel n (a + PAGE_SIZE) ?v u = Some t" "boot_ready pool ok V t" "pml4 t = pml4 u"
    "pool (pages t) \<subseteq> pool (pages u)" "card (missing V t) \<le> card (missing V u)"
    "\<forall>k < n. \<forall>off < PAGE_SIZE. find_physaddr t (?v + of_nat k * PAGE_SIZE + off) =
       (a + PAGE_SIZE + of_nat k * PAGE_SIZE AND ADDR_MASK) + off"
    "\<forall>w. (\<forall>k < n. \<not> same_page w (?v + of_nat k * PAGE_SIZE)) \<longrightarrow> find_physaddr t w = find_physaddr u w \<or>
      (\<exists>F \<in> pool (pages u). same_page w F \<and> find_physaddr t w = F + (w AND 0xFFF))"
    using Suc.IH [OF u(2) V' al room miss F', of "a + PAGE_SIZE"] by blast
  have other: "find_physaddr t w = find_physaddr u w" if "same_page w v" for w
  proof -
    have "\<forall>k < n. \<not> same_page w (?v + of_nat k * PAGE_SIZE)"
      unfolding nxt using that apart [of 0 "Suc k" for k] by (auto simp: same_page_def simp del: of_nat_Suc)
    moreover have "\<forall>F \<in> pool (pages u). \<not> same_page w F"
      using that nopool [of _ 0] u(4) by (auto simp: same_page_def)
    ultimately show ?thesis using t(7) by blast
  qed
  have found: "find_physaddr t (v + of_nat k * PAGE_SIZE + off) = (a + of_nat k * PAGE_SIZE AND ADDR_MASK) + off"
    if "k < Suc n" "off < PAGE_SIZE" for k off
  proof (cases k)
    case 0
    have "same_page (v + off) v" using Suc.prems(3) that(2)
      by (simp add: same_page_def vpath_offset table_idx_offset)
    with other u(6) that(2) 0 show ?thesis by simp
  next
    case (Suc j)
    with t(6) that show ?thesis unfolding nxt by simp
  qed
  have frame: "find_physaddr t w = find_physaddr s w \<or>
      (\<exists>F \<in> pool (pages s). same_page w F \<and> find_physaddr t w = F + (w AND 0xFFF))"
    if w: "\<forall>k < Suc n. \<not> same_page w (v + of_nat k * PAGE_SIZE)" for w
  proof -
    have "\<not> same_page w v" using w [rule_format, of 0] by simp
    then have 1: "find_physaddr u w = find_physaddr s w \<or>
        (\<exists>F \<in> pool (pages s). same_page w F \<and> find_physaddr u w = F + (w AND 0xFFF))"
      using u(7) by blast
    have "\<not> same_page w (?v + of_nat k * PAGE_SIZE)" if "k < n" for k
      unfolding nxt using w [rule_format, of "Suc k"] that by (simp del: of_nat_Suc)
    then have "find_physaddr t w = find_physaddr u w \<or>
        (\<exists>F \<in> pool (pages s). same_page w F \<and> find_physaddr t w = F + (w AND 0xFFF))"
      using t(7) u(4) by blast
    with 1 show ?thesis by metis
  qed
  have run: "boot_map_run alloc fuel (Suc n) a v s = Some t" using u(1) t(1) by simp
  show ?case
  proof (rule exI [of _ t], intro conjI allI impI)
    show "pml4 t = pml4 s" "pool (pages t) \<subseteq> pool (pages s)" "card (missing V t) \<le> card (missing V s)"
      using u(3-5) t(3-5) by simp_all
  qed (use run t(2) found frame in simp_all)
qed

end

section \<open>Properties\<close>

text \<open>
  C24: The boot loader's \<^verbatim>\<open>map_page\<close>, on a firmware that has more free pages than tables are needed to
  map all of \<^term>\<open>V\<close>, returns with fuel for the missing tables and is ready for the next call; every
  byte of the page at \<^verbatim>\<open>virt\<close> is translated to the frame \<^verbatim>\<open>phys\<close>, and any other translation is the
  same as before or the identity of a page taken for a table.
\<close>

theorem boot_map_page_translates:
  assumes "page_supply pagealloc pool ok" and "boot_ready pool ok V s" and "virt \<in> V" and "page_aligned virt"
    and "card (missing V s) < fuel"
  shows "\<exists>t. boot_map_page pagealloc fuel phys virt s = Some t \<and> boot_ready pool ok V t \<and>
    card (missing V t) \<le> card (missing V s) \<and>
    (\<forall>off < PAGE_SIZE. find_physaddr t (virt + off) = (phys AND ADDR_MASK) + off) \<and>
    (\<forall>w. \<not> same_page w virt \<longrightarrow> find_physaddr t w = find_physaddr s w \<or>
      (\<exists>F \<in> pool (pages s). same_page w F \<and> find_physaddr t w = F + (w AND 0xFFF)))"
  using page_supply.boot_map_page_finds [OF assms, of phys] by blast

definition small_addrs :: "u64 set" where
  "small_addrs = insert 0x1000000000 (avail (small_phys 1))"

lemma small_avail: "{0x2000, 0x3000, 0x4000, 0x5000, 0x6000, 0x7000, 0x8000} \<subseteq> avail (small_phys 1)"
proof -
  have "all_pages (freemap (small_phys 1)) ! k \<in> avail (small_phys 1)" if "0 < k" "k < 8" for k
    using that unfolding avail_def
    by (intro CollectI exI [of _ k]) (simp add: small_pages, simp add: small_phys_def bm_bit_def bit_1_iff)
  from this [of 1] this [of 2] this [of 3] this [of 4] this [of 5] this [of 6] this [of 7] show ?thesis
    by (simp add: small_pages)
qed

lemma small_tables: "card (missing small_addrs s) \<le> 5"
proof -
  have "vpath F = [0, 0, 0]" if "F \<in> avail (small_phys 1)" for F
    using that avail_pages [of "small_phys 1"] by (auto simp: small_pages vpath_def table_idx_def)
  moreover have "vpath 0x1000000000 = [0, 64, 0]" by (simp add: vpath_def table_idx_def)
  ultimately have "table_paths small_addrs \<subseteq> {[0], [0, 0], [0, 0, 0], [0, 64], [0, 64, 0]}"
    by (auto simp: table_paths_def small_addrs_def)
  then have "missing small_addrs s \<subseteq> {[0], [0, 0], [0, 0, 0], [0, 64], [0, 64, 0]}" by (auto simp: missing_def)
  from card_mono [OF _ this] show ?thesis by simp
qed

lemma small_ready: "boot_ready avail phys_ok small_addrs small_vm"
proof -
  have "7 \<le> card (avail (small_phys 1))" using card_mono [OF finite_avail small_avail] by simp
  with small_tables [of small_vm] have "supplied avail small_addrs small_vm"
    by (auto simp: supplied_def small_addrs_def small_vm_def)
  then show ?thesis using small_vm_ok by (simp add: boot_ready_def vm_ok_def)
qed

theorem boot_map_page_translates_witness:
  "\<exists>t. boot_map_page phys_page_alloc 6 0x9000 0x1000000000 small_vm = Some t \<and>
    find_physaddr t 0x1000000005 = 0x9005"
proof -
  have "0x1000000000 \<in> small_addrs" "page_aligned 0x1000000000" "card (missing small_addrs small_vm) < 6"
    using small_tables [of small_vm] by (simp_all add: small_addrs_def page_aligned_numeral)
  from boot_map_page_translates [OF pm.page_supply_axioms small_ready this, of "0x9000"]
  show ?thesis by (auto simp: ADDR_MASK_def PAGE_SIZE_def dest: spec [of _ 5])
qed

end
