(* ===== verification/Boot.thy ===== *)
theory Boot
  imports BootPaging KernelInit
begin

text \<open>
  The UEFI boot loader (\<^verbatim>\<open>bootloader/boot.c\<close>, \<^verbatim>\<open>boot.h\<close>, \<^verbatim>\<open>ELF.h\<close>): it takes the memory map from the
  firmware, chooses a graphics mode, loads the kernel's ELF image, builds the kernel's first page
  tables and enters it with a \<^verbatim>\<open>bootinfo_t\<close>. The firmware's services are parameters. What they leave
  in a local variable when they fail is unset (\<^term>\<open>None\<close>); a field of the global \<^verbatim>\<open>bootinfo\<close> keeps
  its value.
\<close>

section \<open>Blocks and strings\<close>

primrec boot_memcpy_loop :: "nat \<Rightarrow> u64 \<Rightarrow> u64 \<Rightarrow> mem \<Rightarrow> mem" where
  "boot_memcpy_loop 0 d s m = m"
| "boot_memcpy_loop (Suc len) d s m = boot_memcpy_loop len (d + 1) (s + 1) (m(d := m s))"

definition boot_memcpy :: "u64 \<Rightarrow> u64 \<Rightarrow> u64 \<Rightarrow> mem \<Rightarrow> mem" where
  "boot_memcpy dest src len m = boot_memcpy_loop (unat len) dest src m"

primrec memzero_loop :: "nat \<Rightarrow> u64 \<Rightarrow> mem \<Rightarrow> mem" where
  "memzero_loop 0 p m = m"
| "memzero_loop (Suc len) p m = memzero_loop len (p + 1) (m(p := 0))"

definition memzero :: "u64 \<Rightarrow> u64 \<Rightarrow> mem \<Rightarrow> mem" where
  "memzero p len m = memzero_loop (unat len) p m"

partial_function (option) boot_strcmp :: "mem \<Rightarrow> u64 \<Rightarrow> u64 \<Rightarrow> int option" where
  "boot_strcmp m str1 str2 =
     (if m str1 = m str2
      then (if m str1 = 0 then Some 0 else boot_strcmp m (str1 + 1) (str2 + 1))
      else Some (if sint (m str1) > sint (m str2) then 1 else - 1))"

section \<open>The firmware\<close>

text \<open>
  \<^verbatim>\<open>pagealloc n\<close> gives the address of \<open>n\<close> pages or fails; \<^verbatim>\<open>getmemmap\<close> gives the size of the map,
  its key, the size of a descriptor, and memory with the map in the buffer. The graphics modes are
  the ones \<^verbatim>\<open>querymode\<close> lists; \<^verbatim>\<open>setmode\<close> makes one current.
\<close>

record gop_mode =
  gop_w :: u32
  gop_h :: u32
  gop_pixperline :: u32
  gop_fb :: u64
  gop_fbsize :: u64

record 'u uefi =
  pagealloc :: "u64 \<Rightarrow> 'u \<Rightarrow> (u64 \<times> 'u) option"
  getmemmap :: "u64 \<Rightarrow> u64 \<Rightarrow> mem \<Rightarrow> 'u \<Rightarrow> u64 \<times> u64 \<times> u64 \<times> mem \<times> 'u"
  maxmode :: u32
  querymode :: "u64 \<Rightarrow> gop_mode"
  efi_runtime :: u64

definition alloc_into :: "'u uefi \<Rightarrow> u64 \<Rightarrow> u64 \<Rightarrow> 'u \<Rightarrow> u64 \<times> 'u" where
  "alloc_into fw old n u = (case pagealloc fw n u of None \<Rightarrow> (old, u) | Some r \<Rightarrow> r)"

section \<open>The memory map\<close>

record memmap_t =
  mm_type :: u32
  mm_physaddr :: u64
  mm_virtaddr :: u64
  mm_pages :: u64
  mm_attr :: u64

definition memmap_size :: u64 where "memmap_size = 40"

definition memmap_at :: "mem \<Rightarrow> u64 \<Rightarrow> u64 \<Rightarrow> memmap_t" where
  "memmap_at m base i = (let a = base + memmap_size * i in
     \<lparr>mm_type = load_le m a 4, mm_physaddr = load64 m (a + 8), mm_virtaddr = load64 m (a + 16),
      mm_pages = load64 m (a + 24), mm_attr = load64 m (a + 32)\<rparr>)"

definition normalmem :: u32 where "normalmem = 7"

primrec shrink_loop :: "nat \<Rightarrow> u64 \<Rightarrow> u64 \<Rightarrow> u64 \<Rightarrow> mem \<Rightarrow> mem" where
  "shrink_loop 0 addr1 addr2 desc_size m = m"
| "shrink_loop (Suc n) addr1 addr2 desc_size m =
     shrink_loop n (addr1 + memmap_size) (addr2 + desc_size) desc_size (boot_memcpy addr1 addr2 memmap_size m)"

definition shrink_memmap :: "u64 \<Rightarrow> u64 \<Rightarrow> u64 \<Rightarrow> mem \<Rightarrow> mem" where
  "shrink_memmap memmap descs desc_size m =
     (if desc_size \<noteq> memmap_size then shrink_loop (unat descs) memmap memmap desc_size m else m)"

primrec count_free :: "nat \<Rightarrow> u64 \<Rightarrow> mem \<Rightarrow> u64 \<Rightarrow> u64 \<Rightarrow> u64" where
  "count_free 0 memmap m i fm = fm"
| "count_free (Suc n) memmap m i fm =
     count_free n memmap m (i + 1) (if mm_type (memmap_at m memmap i) = normalmem then fm + 1 else fm)"

definition memory_size :: u64 where "memory_size = 16"

primrec fill_freemap :: "nat \<Rightarrow> u64 \<Rightarrow> u64 \<Rightarrow> u64 \<Rightarrow> u64 \<Rightarrow> mem \<Rightarrow> mem" where
  "fill_freemap 0 memmap fmap i j m = m"
| "fill_freemap (Suc n) memmap fmap i j m =
     (if mm_type (memmap_at m memmap i) = normalmem
      then let m = store64 m (fmap + memory_size * j) (mm_physaddr (memmap_at m memmap i));
               m = store64 m (fmap + memory_size * j + 8) (mm_pages (memmap_at m memmap i))
        in fill_freemap n memmap fmap (i + 1) (j + 1) m
      else fill_freemap n memmap fmap (i + 1) j m)"

primrec sum_blocks :: "nat \<Rightarrow> u64 \<Rightarrow> mem \<Rightarrow> u64 \<Rightarrow> u64 \<Rightarrow> u64" where
  "sum_blocks 0 fmap m i sum_b = sum_b"
| "sum_blocks (Suc n) fmap m i sum_b =
     sum_blocks n fmap m (i + 1) (sum_b + load64 m (fmap + memory_size * i + 8))"

section \<open>Graphics mode\<close>

text \<open>The sum \<^verbatim>\<open>w + h\<close> is computed in 32 bits.\<close>

primrec mode_loop :: "nat \<Rightarrow> (u64 \<Rightarrow> gop_mode) \<Rightarrow> u64 \<Rightarrow> u64 \<Rightarrow> u32 \<Rightarrow> u32" where
  "mode_loop 0 query i bestres bestmode = bestmode"
| "mode_loop (Suc n) query i bestres bestmode =
     (let res = ucast (gop_w (query i) + gop_h (query i)) in
      if res > bestres then mode_loop n query (i + 1) res (ucast i)
      else mode_loop n query (i + 1) bestres bestmode)"

definition best_mode :: "'u uefi \<Rightarrow> u32" where
  "best_mode fw = mode_loop (unat (maxmode fw)) (querymode fw) 0 0 0"

section \<open>The kernel image\<close>

record elf_fheader_t =
  elf_sig :: u32
  e_entry :: u64
  e_phoff :: u64
  e_phnum :: u16

definition elf_fheader_at :: "mem \<Rightarrow> u64 \<Rightarrow> elf_fheader_t" where
  "elf_fheader_at m a =
     \<lparr>elf_sig = load_le m a 4, e_entry = load64 m (a + 24), e_phoff = load64 m (a + 32), e_phnum = load_le m (a + 56) 2\<rparr>"

record elf_pheader_t =
  p_type :: u32
  p_offset :: u64
  p_vaddr :: u64
  p_filesz :: u64
  p_memsz :: u64

definition elf_pheader_at :: "mem \<Rightarrow> u64 \<Rightarrow> nat \<Rightarrow> elf_pheader_t" where
  "elf_pheader_at m base i = (let a = base + 56 * of_nat i in
     \<lparr>p_type = load_le m a 4, p_offset = load64 m (a + 8), p_vaddr = load64 m (a + 16),
      p_filesz = load64 m (a + 32), p_memsz = load64 m (a + 40)\<rparr>)"

definition PT_LOAD :: u32 where "PT_LOAD = 1"
definition ELF_MAGIC :: u32 where "ELF_MAGIC = 0x464c457f"
definition boot_kernel_vaddr :: u64 where "boot_kernel_vaddr = 0x1000000000"
definition boot_kernel_stack :: u64 where "boot_kernel_stack = 0x2000000000"

text \<open>The loop that finds the end and the start of the kernel's segments.\<close>

primrec span_loop :: "nat \<Rightarrow> mem \<Rightarrow> u64 \<Rightarrow> nat \<Rightarrow> u64 \<times> u64 \<Rightarrow> u64 \<times> u64" where
  "span_loop 0 m pheader i r = r"
| "span_loop (Suc n) m pheader i r =
     (let h = elf_pheader_at m pheader i; (high, lowest) = r in
      span_loop n m pheader (Suc i)
        (if p_type h = PT_LOAD
         then (if p_vaddr h + p_memsz h > high then p_vaddr h + p_memsz h else high,
               if p_vaddr h < lowest then p_vaddr h else lowest)
         else (high, lowest)))"

definition kernel_span :: "mem \<Rightarrow> u64 \<Rightarrow> u16 \<Rightarrow> u64 \<times> u64" where
  "kernel_span m pheader phnum = span_loop (unat phnum) m pheader 0 (0, - 1)"

definition load_segment :: "u64 \<Rightarrow> u64 \<Rightarrow> elf_pheader_t \<Rightarrow> mem \<Rightarrow> mem" where
  "load_segment kmem kfile h m =
     (let a = kmem + (p_vaddr h - boot_kernel_vaddr) in
      memzero (a + p_filesz h) (p_memsz h - p_filesz h) (boot_memcpy a (kfile + p_offset h) (p_filesz h) m))"

text \<open>The program headers are read again in every turn, from memory that the loop writes.\<close>

primrec load_loop :: "nat \<Rightarrow> u64 \<Rightarrow> u64 \<Rightarrow> u64 \<Rightarrow> nat \<Rightarrow> mem \<Rightarrow> mem" where
  "load_loop 0 kmem kfile pheader i m = m"
| "load_loop (Suc n) kmem kfile pheader i m =
     load_loop n kmem kfile pheader (Suc i)
       (if p_type (elf_pheader_at m pheader i) = PT_LOAD
        then load_segment kmem kfile (elf_pheader_at m pheader i) m else m)"

section \<open>Mapping loops\<close>

text \<open>
  The loop over the pages of descriptor \<^verbatim>\<open>i\<close> of the memory map reads its bound again in every turn.
\<close>

partial_function (option) map_desc ::
  "'u uefi \<Rightarrow> nat \<Rightarrow> u64 \<Rightarrow> u64 \<Rightarrow> u64 \<Rightarrow> u64 \<Rightarrow> 'u vm \<Rightarrow> 'u vm option" where
  "map_desc fw fuel memmap i a j s =
     (if j < mm_pages (memmap_at (ram s) memmap i)
      then (case boot_map_page (pagealloc fw 1) fuel a a s of
              None \<Rightarrow> None
            | Some s \<Rightarrow> map_desc fw fuel memmap i (a + PAGE_SIZE) (j + 1) s)
      else Some s)"

primrec map_memmap :: "nat \<Rightarrow> 'u uefi \<Rightarrow> nat \<Rightarrow> u64 \<Rightarrow> u64 \<Rightarrow> 'u vm \<Rightarrow> 'u vm option" where
  "map_memmap 0 fw fuel memmap i s = Some s"
| "map_memmap (Suc n) fw fuel memmap i s =
     (if mm_type (memmap_at (ram s) memmap i) = normalmem then map_memmap n fw fuel memmap (i + 1) s
      else (case map_desc fw fuel memmap i (mm_physaddr (memmap_at (ram s) memmap i)) 0 s of
              None \<Rightarrow> None
            | Some s \<Rightarrow> map_memmap n fw fuel memmap (i + 1) s))"

partial_function (option) map_kernel ::
  "'u uefi \<Rightarrow> nat \<Rightarrow> u64 \<Rightarrow> u64 \<Rightarrow> u64 \<Rightarrow> 'u vm \<Rightarrow> 'u vm option" where
  "map_kernel fw fuel ksize a b s =
     (case boot_map_page (pagealloc fw 1) fuel a (boot_kernel_vaddr + b) s of
        None \<Rightarrow> None
      | Some s \<Rightarrow>
          if b + PAGE_SIZE < ksize then map_kernel fw fuel ksize (a + PAGE_SIZE) (b + PAGE_SIZE) s else Some s)"

partial_function (option) map_until :: "'u uefi \<Rightarrow> nat \<Rightarrow> u64 \<Rightarrow> u64 \<Rightarrow> 'u vm \<Rightarrow> 'u vm option" where
  "map_until fw fuel bound a s =
     (if a < bound
      then (case boot_map_page (pagealloc fw 1) fuel a a s of
              None \<Rightarrow> None
            | Some s \<Rightarrow> map_until fw fuel bound (a + PAGE_SIZE) s)
      else Some s)"

section \<open>boot\<close>

text \<open>What the two blocks of assembly at the end do: CR3, the stack pointer, RDI and the jump.\<close>

datatype boot_result = NotELF | Enter (cr3: u64) (rip: u64) (rsp: u64) (rdi: u64)

text \<open>The memory map, up to the descriptors shrunk to 40 bytes.\<close>

definition boot_memmap :: "'u uefi \<Rightarrow> bootinfo_t \<Rightarrow> 'u vm \<Rightarrow> (u64 \<times> bootinfo_t \<times> 'u vm) option" where
  "boot_memmap fw info s =
     (let (memmapsize, mapkey, desc_size, m, u) = getmemmap fw 0 0 (ram s) (pages s);
          (memmap, u) = alloc_into fw (b_memmap info) (CEILING memmapsize PAGE_SIZE) u;
          (memmapsize, mapkey, desc_size, m, u) = getmemmap fw memmapsize memmap m u
      in if desc_size = 0 then None
         else let descs = memmapsize div desc_size in
           Some (memmapsize, info\<lparr>b_memmap := memmap, b_mm_descs := descs\<rparr>,
             s\<lparr>ram := shrink_memmap memmap descs desc_size m, pages := u\<rparr>))"

definition boot_graphics :: "'u uefi \<Rightarrow> bootinfo_t \<Rightarrow> bootinfo_t" where
  "boot_graphics fw info =
     (let mode = querymode fw (ucast (best_mode fw)) in
      info\<lparr>b_fb_addr := gop_fb mode, b_fb_size := gop_fbsize mode, b_fb_w := gop_w mode,
        b_fb_h := gop_h mode, b_fb_pixperline := gop_pixperline mode\<rparr>)"

text \<open>Loading the image; \<^term>\<open>None\<close> when the firmware has no memory for it.\<close>

definition boot_load :: "'u uefi \<Rightarrow> u64 \<Rightarrow> bootinfo_t \<Rightarrow> 'u vm \<Rightarrow> (bootinfo_t \<times> 'u vm) option" where
  "boot_load fw kfile info s = do {
     let fheader = elf_fheader_at (ram s) kfile;
     let pheader = kfile + e_phoff fheader;
     let (bound, lowest) = kernel_span (ram s) pheader (e_phnum fheader);
     let ksize = bound - lowest;
     (kmem, u) \<leftarrow> pagealloc fw (CEILING ksize PAGE_SIZE) (pages s);
     Some (info\<lparr>b_k_paddr := kmem, b_k_vaddr := boot_kernel_vaddr, b_k_size := ksize\<rparr>,
       s\<lparr>ram := load_loop (unat (e_phnum fheader)) kmem kfile pheader 0 (ram s), pages := u\<rparr>)
   }"

definition boot_freemap :: "'u uefi \<Rightarrow> u64 \<Rightarrow> bootinfo_t \<Rightarrow> 'u vm \<Rightarrow> u64 \<times> bootinfo_t \<times> 'u vm" where
  "boot_freemap fw memmapsize info s =
     (let descs = unat (b_mm_descs info);
          fm = count_free descs (b_memmap info) (ram s) 0 0;
          (fmap, u) = alloc_into fw (b_freemap info) (CEILING (fm * memory_size) PAGE_SIZE) (pages s);
          (memmapsize, mapkey, desc_size, m, u) = getmemmap fw memmapsize (b_memmap info) (ram s) u
      in (mapkey, info\<lparr>b_freemap := fmap, b_fm_descs := fm\<rparr>,
          s\<lparr>ram := fill_freemap descs (b_memmap info) fmap 0 0 m, pages := u\<rparr>))"

definition boot_paging :: "'u uefi \<Rightarrow> nat \<Rightarrow> bootinfo_t \<Rightarrow> 'u vm \<Rightarrow> (bootinfo_t \<times> 'u vm) option" where
  "boot_paging fw fuel info s = do {
     let s = s\<lparr>ram := memzero (pml4 s) PAGE_SIZE (ram s)\<rparr>;
     s \<leftarrow> map_memmap (unat (b_mm_descs info)) fw fuel (b_memmap info) 0 s;
     s \<leftarrow> map_until fw fuel 0x1000000 0 s;
     s \<leftarrow> map_kernel fw fuel (b_k_size info) (b_k_paddr info) 0 s;
     let mb_pages = sum_blocks (unat (b_fm_descs info)) (b_freemap info) (ram s) 0 0;
     let (mb_addr, u) = alloc_into fw (b_mb_addr info) (CEILING mb_pages 32768) (pages s);
     s \<leftarrow> map_until fw fuel (mb_addr + CEILING mb_pages 32768) mb_addr (s\<lparr>pages := u\<rparr>);
     let s = s\<lparr>ram := memzero mb_addr (CEILING mb_pages 8) (ram s)\<rparr>;
     let (stack, u) = alloc_into fw (b_k_stack_paddr info) 1 (pages s);
     s \<leftarrow> boot_map_page (pagealloc fw 1) fuel stack (boot_kernel_stack - PAGE_SIZE) (s\<lparr>pages := u\<rparr>);
     Some (info\<lparr>b_mb_addr := mb_addr, b_mb_pages := mb_pages, b_k_stack_paddr := stack, b_efi_rs := efi_runtime fw\<rparr>, s)
   }"

definition boot :: "'u uefi \<Rightarrow> nat \<Rightarrow> u64 \<Rightarrow> u64 \<Rightarrow> bootinfo_t \<Rightarrow> 'u vm \<Rightarrow> (boot_result \<times> bootinfo_t \<times> 'u vm) option" where
  "boot fw fuel kfile bootinfo info s = do {
     (memmapsize, info, s) \<leftarrow> boot_memmap fw info s;
     let info = boot_graphics fw info;
     (if elf_sig (elf_fheader_at (ram s) kfile) \<noteq> ELF_MAGIC then Some (NotELF, info, s)
      else do {
        (info, s) \<leftarrow> boot_load fw kfile info s;
        let (mapkey, info, s) = boot_freemap fw memmapsize info s;
        (info, s) \<leftarrow> boot_paging fw fuel info s;
        Some (Enter (pml4 s AND ADDR_MASK) (e_entry (elf_fheader_at (ram s) kfile)) boot_kernel_stack bootinfo, info, s)
      })
   }"

section \<open>The boot loader's copies of the C library\<close>

lemma boot_memcpy_loop_eq: "boot_memcpy_loop n d s m = memcpy_loop m d s n"
  by (induction n arbitrary: d s m) simp_all

lemma memzero_loop_eq: "memzero_loop n p m = memset_loop m p 0 n"
  by (induction n arbitrary: p m) simp_all

lemma boot_memcpy_apply:
  "dest = src \<or> unat len \<le> unat (dest - src) \<Longrightarrow>
     boot_memcpy dest src len m x = (if unat (x - dest) < unat len then m (src + (x - dest)) else m x)"
  using unat_u64_less [of len] by (simp add: boot_memcpy_def boot_memcpy_loop_eq memcpy_loop_apply)

lemma memzero_apply: "memzero p len m x = (if unat (x - p) < unat len then 0 else m x)"
  using unat_u64_less [of len] by (simp add: memzero_def memzero_loop_eq memset_loop_apply)

lemma boot_memcpy_nat:
  assumes "D + n \<le> 2 ^ 64" and "S + n \<le> 2 ^ 64" and "D \<le> S" and "x < 2 ^ 64" and "n < 2 ^ 64"
  shows "boot_memcpy (of_nat D) (of_nat S) (of_nat n) m (of_nat x) =
    (if D \<le> x \<and> x < D + n then m (of_nat (S + (x - D))) else m (of_nat x))"
proof (cases "n = 0")
  case False
  then have d: "D < 2 ^ 64" "S < 2 ^ 64" using assms by auto
  have "of_nat D = (of_nat S :: u64) \<or> n \<le> unat (of_nat D - of_nat S :: u64)"
  proof (cases "D = S")
    case ne: False
    then have "unat (of_nat D - of_nat S :: u64) = 2 ^ 64 - (S - D)"
      using d assms(3) by (subst unat_sub_if_size) (simp add: word_size)
    with assms(2,3) have "n \<le> unat (of_nat D - of_nat S :: u64)" by linarith
    then show ?thesis ..
  qed simp
  moreover have "unat (of_nat x - of_nat D :: u64) < n \<longleftrightarrow> D \<le> x \<and> x < D + n"
    using in_range_iff [of "of_nat D" n "of_nat x"] assms d by simp
  ultimately show ?thesis
    using assms(5) by (auto simp: boot_memcpy_apply of_nat_diff add_diff_eq)
qed (auto simp: boot_memcpy_def)

section \<open>Shrinking the memory map\<close>

lemma shrink_loop_apply:
  assumes "A + 40 * n \<le> 2 ^ 64" and "B + D * n \<le> 2 ^ 64" and "A \<le> B" and "40 \<le> D" and "x < 2 ^ 64"
  shows "shrink_loop n (of_nat A) (of_nat B) (of_nat D) m (of_nat x) =
    (if A \<le> x \<and> x < A + 40 * n then m (of_nat (B + D * ((x - A) div 40) + (x - A) mod 40)) else m (of_nat x))"
  using assms
proof (induction n arbitrary: A B m)
  case 0
  then show ?case by auto
next
  case (Suc n)
  let ?m = "boot_memcpy (of_nat A) (of_nat B) memmap_size m"
  have m: "?m (of_nat y) = (if A \<le> y \<and> y < A + 40 then m (of_nat (B + (y - A))) else m (of_nat y))" if "y < 2 ^ 64" for y
    using boot_memcpy_nat [of A 40 B y m] Suc.prems that by (simp add: memmap_size_def)
  have step: "shrink_loop (Suc n) (of_nat A) (of_nat B) (of_nat D) m (of_nat x) =
      shrink_loop n (of_nat (A + 40)) (of_nat (B + D)) (of_nat D) ?m (of_nat x)"
    by (simp add: memmap_size_def)
  have IH: "shrink_loop n (of_nat (A + 40)) (of_nat (B + D)) (of_nat D) ?m (of_nat x) =
    (if A + 40 \<le> x \<and> x < A + 40 + 40 * n then ?m (of_nat (B + D + D * ((x - (A + 40)) div 40) + (x - (A + 40)) mod 40))
     else ?m (of_nat x))"
    using Suc.prems by (intro Suc.IH) simp_all
  show ?case
  proof (cases "A + 40 \<le> x \<and> x < A + 40 + 40 * n")
    case True
    define q where "q = (x - (A + 40)) div 40"
    define r where "r = (x - (A + 40)) mod 40"
    have qr: "x - A = 40 * Suc q + r" "r < 40" using True unfolding q_def r_def by simp_all
    moreover have "x - A < 40 + 40 * n" using True by auto
    ultimately have "40 * Suc q + r < 40 + 40 * n" by simp
    then have "q < n" by simp
    then have "D * Suc q \<le> D * n" by (intro mult_le_mono2) simp
    then have "B + D + D * q + r < 2 ^ 64" using Suc.prems(2,4) qr(2) by simp
    moreover have "\<not> B + D + D * q + r < A + 40" using Suc.prems(3,4) by simp
    ultimately have "?m (of_nat (B + D + D * q + r)) = m (of_nat (B + D + D * q + r))" by (subst m) simp_all
    moreover have "(x - A) div 40 = Suc q" "(x - A) mod 40 = r"
      using qr by (simp_all only: add.commute [of _ r] div_mult_self2 mod_mult_self2 mod_less div_less)
    ultimately show ?thesis using True unfolding step IH q_def [symmetric] r_def [symmetric]
      by (simp add: algebra_simps)
  next
    case False
    then show ?thesis unfolding step IH using m [OF Suc.prems(5)] by (auto simp: not_less of_nat_diff add_diff_eq)
  qed
qed

text \<open>
  C28: For descriptors of at least 40 bytes \<^verbatim>\<open>boot\<close> packs the memory map: afterwards byte \<open>k\<close> of the \<open>i\<close>-th
  40-byte descriptor is byte \<open>k\<close> of the \<open>i\<close>-th descriptor the firmware wrote, and nothing outside the
  packed array has changed.
\<close>

theorem shrink_memmap_packs:
  assumes "40 \<le> unat desc_size" and "unat memmap + unat desc_size * unat descs \<le> 2 ^ 64"
  shows "(\<forall>i < unat descs. \<forall>k < 40. shrink_memmap memmap descs desc_size m (memmap + 40 * of_nat i + of_nat k) =
      m (memmap + desc_size * of_nat i + of_nat k)) \<and>
    (\<forall>x. 40 * unat descs \<le> unat (x - memmap) \<longrightarrow> shrink_memmap memmap descs desc_size m x = m x)"
proof -
  let ?A = "unat memmap" and ?D = "unat desc_size" and ?n = "unat descs"
  have room: "?A + 40 * ?n \<le> 2 ^ 64"
    using assms mult_le_mono1 [of 40 ?D ?n] by linarith
  have run: "shrink_memmap memmap descs desc_size m (of_nat x) =
      (if ?A \<le> x \<and> x < ?A + 40 * ?n then m (of_nat (?A + ?D * ((x - ?A) div 40) + (x - ?A) mod 40)) else m (of_nat x))"
    if "x < 2 ^ 64" for x
  proof (cases "desc_size = memmap_size")
    case True
    then have "?D = 40" by (simp add: memmap_size_def)
    with True show ?thesis by (auto simp: shrink_memmap_def)
  next
    case False
    with shrink_loop_apply [OF room assms(2) order_refl assms(1) that] show ?thesis by (simp add: shrink_memmap_def)
  qed
  have "shrink_memmap memmap descs desc_size m (memmap + 40 * of_nat i + of_nat k) =
      m (memmap + desc_size * of_nat i + of_nat k)" if "i < ?n" "k < 40" for i k
  proof -
    let ?x = "?A + (k + 40 * i)"
    have "?x < ?A + 40 * ?n" using that by linarith
    moreover have "(?x - ?A) div 40 = i" "(?x - ?A) mod 40 = k" using that by simp_all
    moreover have "memmap + 40 * of_nat i + of_nat k = of_nat ?x" by simp
    ultimately show ?thesis using run [of ?x] room by (simp add: ac_simps)
  qed
  moreover have "shrink_memmap memmap descs desc_size m x = m x" if "40 * ?n \<le> unat (x - memmap)" for x
  proof -
    have "\<not> (?A \<le> unat x \<and> unat x < ?A + 40 * ?n)" using in_range_iff [OF room, of x] that by simp
    then show ?thesis using run [OF unat_u64_less, of x] by auto
  qed
  ultimately show ?thesis by blast
qed

theorem shrink_memmap_packs_witness:
  "shrink_memmap 0x1000 2 48 (\<lambda>x. if x = 0x1030 then 7 else 0) 0x1028 = 7"
  using shrink_memmap_packs [of 48 "0x1000" 2 "\<lambda>x. if x = 0x1030 then 7 else 0"] by (force dest: spec [of _ 1])

section \<open>Choosing a graphics mode\<close>

definition mode_size :: "(u64 \<Rightarrow> gop_mode) \<Rightarrow> nat \<Rightarrow> u32" where
  "mode_size query i = gop_w (query (of_nat i)) + gop_h (query (of_nat i))"

lemma mode_loop_best:
  assumes "i + n \<le> 2 ^ 32" and "\<And>j. j < i \<Longrightarrow> unat (mode_size query j) \<le> unat bestres"
    and "bestres = 0 \<and> bestmode = 0 \<or> unat bestmode < i \<and> unat (mode_size query (unat bestmode)) = unat bestres"
  shows "\<exists>b r. mode_loop n query (of_nat i) bestres bestmode = b \<and> (\<forall>j < i + n. unat (mode_size query j) \<le> r) \<and>
    (r = 0 \<and> b = 0 \<or> unat b < i + n \<and> unat (mode_size query (unat b)) = r)"
  using assms
proof (induction n arbitrary: i bestres bestmode)
  case 0
  then show ?case by (intro exI [of _ bestmode] exI [of _ "unat bestres"]) auto
next
  case (Suc n)
  have res: "unat (ucast (mode_size query i) :: u64) = unat (mode_size query i)"
    by simp
  have i: "unat (of_nat i :: u32) = i" using Suc.prems(1) by (simp add: unat_of_nat)
  have c: "ucast (of_nat i :: u64) = (of_nat i :: u32)"
    by (rule word_unat_eq_iff [THEN iffD2]) (simp add: unsigned_ucast_eq unsigned_of_nat)
  let ?res = "ucast (mode_size query i) :: u64"
  let ?r = "if ?res > bestres then ?res else bestres" and ?b = "if ?res > bestres then of_nat i else bestmode"
  have "mode_loop (Suc n) query (of_nat i) bestres bestmode = mode_loop n query (of_nat (Suc i)) ?r ?b"
    by (simp add: mode_size_def Let_def c add.commute)
  moreover have "\<exists>b r. mode_loop n query (of_nat (Suc i)) ?r ?b = b \<and> (\<forall>j < Suc i + n. unat (mode_size query j) \<le> r) \<and>
    (r = 0 \<and> b = 0 \<or> unat b < Suc i + n \<and> unat (mode_size query (unat b)) = r)"
    using Suc.prems res i by (intro Suc.IH) (auto simp: word_less_nat_alt less_Suc_eq intro: order_trans less_imp_le le_less_trans)
  ultimately show ?case by simp
qed

text \<open>
  The graphics mode that \<^verbatim>\<open>boot\<close> sets is one of the firmware's modes, and no mode has a larger
  sum of width and height (not, as one would expect, a larger number of pixels).
\<close>

theorem best_mode_largest:
  assumes "0 < maxmode fw"
  shows "best_mode fw < maxmode fw \<and>
    (\<forall>j < unat (maxmode fw). mode_size (querymode fw) j \<le> mode_size (querymode fw) (unat (best_mode fw)))"
proof -
  have "unat (maxmode fw) \<le> 2 ^ 32" using unsigned_less [of "maxmode fw", where 'a = nat] by simp
  then obtain b r where "best_mode fw = b" "\<forall>j < unat (maxmode fw). unat (mode_size (querymode fw) j) \<le> r"
    "r = 0 \<and> b = 0 \<or> unat b < unat (maxmode fw) \<and> unat (mode_size (querymode fw) (unat b)) = r"
    using mode_loop_best [of 0 "unat (maxmode fw)" "querymode fw" 0 0] by (auto simp: best_mode_def)
  with assms show ?thesis by (auto simp: word_less_nat_alt word_le_nat_alt)
qed

section \<open>Loading the kernel\<close>

text \<open>Where the bytes of a segment go, and the part of the file they come from.\<close>

definition seg_at :: "u64 \<Rightarrow> elf_pheader_t \<Rightarrow> u64 \<times> nat" where
  "seg_at kmem h = (kmem + (p_vaddr h - boot_kernel_vaddr), unat (p_memsz h))"

definition seg_byte :: "mem \<Rightarrow> u64 \<Rightarrow> elf_pheader_t \<Rightarrow> nat \<Rightarrow> u8" where
  "seg_byte m kfile h k = (if k < unat (p_filesz h) then m (kfile + p_offset h + of_nat k) else 0)"

text \<open>
  An image of \<^term>\<open>flen\<close> bytes at \<^term>\<open>kfile\<close> that can be loaded at \<^term>\<open>kmem\<close>: the program headers and the
  contents of the segments lie in the file, and the segments overlap neither the file nor each other.
\<close>

definition loadable :: "mem \<Rightarrow> u64 \<Rightarrow> nat \<Rightarrow> u64 \<Rightarrow> bool" where
  "loadable m kfile flen kmem \<longleftrightarrow>
     (let f = elf_fheader_at m kfile; n = unat (e_phnum f); seg = elf_pheader_at m (kfile + e_phoff f) in
      flen < 2 ^ 64 \<and> unat (e_phoff f) + 56 * n \<le> flen \<and>
      (\<forall>i < n. p_type (seg i) = PT_LOAD \<longrightarrow> p_filesz (seg i) \<le> p_memsz (seg i) \<and>
         unat (p_offset (seg i)) + unat (p_filesz (seg i)) \<le> flen \<and>
         unat (p_vaddr (seg i)) + unat (p_memsz (seg i)) < 2 ^ 64 \<and> apart (seg_at kmem (seg i)) (kfile, flen)) \<and>
      (\<forall>i < n. \<forall>j < n. i \<noteq> j \<longrightarrow> p_type (seg i) = PT_LOAD \<longrightarrow> p_type (seg j) = PT_LOAD \<longrightarrow>
         apart (seg_at kmem (seg i)) (seg_at kmem (seg j))))"

lemma in_tail:
  fixes x a :: u64
  assumes "b \<le> n" and "n < 2 ^ 64"
  shows "unat (x - (a + of_nat b)) < n - b \<longleftrightarrow> b \<le> unat (x - a) \<and> unat (x - a) < n"
proof -
  define y where "y = x - a"
  have b: "unat (of_nat b :: u64) = b" using assms by simp
  have e: "x - (a + of_nat b) = y - of_nat b" by (simp add: y_def)
  have "unat (y - of_nat b) = (if b \<le> unat y then unat y - b else unat y + 2 ^ 64 - b)"
    using b by (simp add: unat_sub_if_size word_size)
  then have "unat (x - (a + of_nat b)) = (if b \<le> unat y then unat y - b else unat y + 2 ^ 64 - b)" by (simp only: e)
  then show ?thesis using assms unat_u64_less [of y] unfolding y_def by (auto split: if_splits)
qed

lemma load_segment_apply:
  assumes "p_filesz h \<le> p_memsz h" and "apart (seg_at kmem h) (kfile + p_offset h, unat (p_filesz h))"
  shows "load_segment kmem kfile h m x =
    (if unat (x - fst (seg_at kmem h)) < snd (seg_at kmem h)
     then seg_byte m kfile h (unat (x - fst (seg_at kmem h))) else m x)"
proof -
  let ?a = "fst (seg_at kmem h)" and ?f = "unat (p_filesz h)" and ?s = "unat (p_memsz h)"
  have fs: "?f \<le> ?s" using assms(1) by (simp add: word_le_nat_alt)
  have sz: "unat (p_memsz h - p_filesz h) = ?s - ?f" using assms(1) by (simp add: unat_sub)
  have c: "?f \<le> unat (?a - (kfile + p_offset h)) \<or> ?s = 0"
    using assms(2) by (auto simp: apart_def seg_at_def)
  then have cpy: "boot_memcpy ?a (kfile + p_offset h) (p_filesz h) m x =
      (if unat (x - ?a) < ?f then m (kfile + p_offset h + (x - ?a)) else m x)"
    using fs by (intro boot_memcpy_apply) auto
  have "unat (x - (?a + p_filesz h)) < ?s - ?f \<longleftrightarrow> ?f \<le> unat (x - ?a) \<and> unat (x - ?a) < ?s"
    using in_tail [OF fs unat_u64_less, of x ?a] by simp
  then show ?thesis
    using cpy fs by (auto simp: load_segment_def Let_def memzero_apply sz seg_byte_def seg_at_def)
qed

lemma in_region:
  fixes a :: u64
  assumes "off < flen" and "flen < 2 ^ 64"
  shows "unat (a + of_nat off - a) < flen"
proof -
  have "unat (of_nat off :: u64) = off" using assms by (intro unat_of_nat_small) simp
  with assms(1) show ?thesis by simp
qed

lemma apart_part:
  assumes "apart r (a, n)" and "off + k \<le> n" and "n < 2 ^ 64"
  shows "apart r (a + of_nat off, k)"
proof -
  have "k \<le> unat (x - (a + of_nat off))" if "n \<le> unat (x - a)" for x
  proof (rule ccontr)
    let ?j = "unat (x - (a + of_nat off))"
    assume "\<not> ?thesis"
    then have "off + ?j < n" using assms(2) by simp
    then have "unat (a + of_nat (off + ?j) - a) < n" using assms(3) by (rule in_region)
    then show False using that by simp
  qed
  with assms(1) show ?thesis by (auto simp: apart_def)
qed

lemma load_le_region:
  assumes "\<And>x. unat (x - kfile) < flen \<Longrightarrow> m' x = m x" and "off + k \<le> flen" and "flen < 2 ^ 64"
  shows "load_le m' (kfile + of_nat off) k = (load_le m (kfile + of_nat off) k :: 'b::len word)"
proof (rule load_le_cong)
  fix j assume "j < k"
  then have "unat (kfile + of_nat (off + j) - kfile) < flen" using assms(2,3) by (intro in_region) simp_all
  then have "m' (kfile + of_nat (off + j)) = m (kfile + of_nat (off + j))" by (rule assms(1))
  then show "m' (kfile + of_nat off + of_nat j) = m (kfile + of_nat off + of_nat j)" by (simp add: add.assoc)
qed

lemma elf_pheader_cong:
  assumes "\<And>x. unat (x - kfile) < flen \<Longrightarrow> m' x = m x" and "unat off + 56 * n \<le> flen" and "flen < 2 ^ 64" and "i < n"
  shows "elf_pheader_at m' (kfile + off) i = elf_pheader_at m (kfile + off) i"
proof -
  have L: "load_le m' (kfile + of_nat (unat off + (56 * i + d))) k =
      (load_le m (kfile + of_nat (unat off + (56 * i + d))) k :: 'b::len word)" if "d + k \<le> 56" for d k
    using assms(2,4) that by (intro load_le_region [OF assms(1) _ assms(3)]) linarith+
  show ?thesis
    using L [of 0 4] L [of 8 8] L [of 16 8] L [of 32 8] L [of 40 8] by (simp add: elf_pheader_at_def Let_def add.assoc)
qed

lemma load_loop_apply:
  assumes L: "loadable m0 kfile flen kmem" and "f = elf_fheader_at m0 kfile" and ph: "ph = kfile + e_phoff f"
    and "seg = elf_pheader_at m0 ph" and "i + n \<le> unat (e_phnum f)"
    and "\<And>x. unat (x - kfile) < flen \<Longrightarrow> m x = m0 x"
  shows "(\<forall>j k. i \<le> j \<longrightarrow> j < i + n \<longrightarrow> p_type (seg j) = PT_LOAD \<longrightarrow> k < unat (p_memsz (seg j)) \<longrightarrow>
      load_loop n kmem kfile ph i m (fst (seg_at kmem (seg j)) + of_nat k) = seg_byte m0 kfile (seg j) k) \<and>
    (\<forall>x. (\<forall>j. i \<le> j \<longrightarrow> j < i + n \<longrightarrow> p_type (seg j) = PT_LOAD \<longrightarrow> outside [seg_at kmem (seg j)] x) \<longrightarrow>
      load_loop n kmem kfile ph i m x = m x)"
  using assms(5,6)
proof (induction n arbitrary: i m)
  case 0
  then show ?case by simp
next
  case (Suc n)
  note L' = L [unfolded loadable_def Let_def assms(2) [symmetric] ph [symmetric] assms(4) [symmetric]]
  have i: "i < unat (e_phnum f)" using Suc.prems(1) by simp
  have h: "elf_pheader_at m ph i = seg i"
    unfolding ph assms(4) using L' i Suc.prems(2) by (intro elf_pheader_cong [of kfile flen]) auto
  define m1 where "m1 = (if p_type (seg i) = PT_LOAD then load_segment kmem kfile (seg i) m else m)"
  have step: "load_loop (Suc n) kmem kfile ph i m = load_loop n kmem kfile ph (Suc i) m1"
    by (simp add: h m1_def)
  have D: "p_filesz (seg j) \<le> p_memsz (seg j)" "unat (p_offset (seg j)) + unat (p_filesz (seg j)) \<le> flen"
    "apart (seg_at kmem (seg j)) (kfile, flen)" if "j < unat (e_phnum f)" "p_type (seg j) = PT_LOAD" for j
    using L' that by auto
  have src: "apart (seg_at kmem (seg i)) (kfile + p_offset (seg i), unat (p_filesz (seg i)))"
    if "p_type (seg i) = PT_LOAD"
    using apart_part [OF D(3) [OF i that] D(2) [OF i that]] L' by simp
  have m1: "m1 x = (if p_type (seg i) = PT_LOAD \<and> unat (x - fst (seg_at kmem (seg i))) < snd (seg_at kmem (seg i))
      then seg_byte m kfile (seg i) (unat (x - fst (seg_at kmem (seg i)))) else m x)" for x
    using load_segment_apply [OF D(1) [OF i] src] by (simp add: m1_def)
  have same: "seg_byte m kfile (seg i) k = seg_byte m0 kfile (seg i) k" if "p_type (seg i) = PT_LOAD" for k
  proof -
    have "unat (kfile + of_nat (unat (p_offset (seg i)) + k) - kfile) < flen" if "k < unat (p_filesz (seg i))"
      using D(2) [OF i \<open>p_type (seg i) = PT_LOAD\<close>] that L' by (intro in_region) auto
    then show ?thesis using Suc.prems(2) by (auto simp: seg_byte_def add.assoc)
  qed
  have keep: "m1 x = m0 x" if "unat (x - kfile) < flen" for x
  proof -
    have "\<not> unat (x - fst (seg_at kmem (seg i))) < snd (seg_at kmem (seg i))" if "p_type (seg i) = PT_LOAD"
      using D(3) [OF i that] \<open>unat (x - kfile) < flen\<close> by (auto simp: apart_def)
    with that Suc.prems(2) show ?thesis by (auto simp: m1)
  qed
  have IH: "(\<forall>j k. Suc i \<le> j \<longrightarrow> j < Suc i + n \<longrightarrow> p_type (seg j) = PT_LOAD \<longrightarrow> k < unat (p_memsz (seg j)) \<longrightarrow>
      load_loop n kmem kfile ph (Suc i) m1 (fst (seg_at kmem (seg j)) + of_nat k) = seg_byte m0 kfile (seg j) k) \<and>
    (\<forall>x. (\<forall>j. Suc i \<le> j \<longrightarrow> j < Suc i + n \<longrightarrow> p_type (seg j) = PT_LOAD \<longrightarrow> outside [seg_at kmem (seg j)] x) \<longrightarrow>
      load_loop n kmem kfile ph (Suc i) m1 x = m1 x)"
    using Suc.prems(1) keep by (intro Suc.IH) auto
  have "load_loop (Suc n) kmem kfile ph i m (fst (seg_at kmem (seg j)) + of_nat k) = seg_byte m0 kfile (seg j) k"
    if j: "i \<le> j" "j < i + Suc n" "p_type (seg j) = PT_LOAD" "k < unat (p_memsz (seg j))" for j k
  proof (cases "j = i")
    case False
    with j IH show ?thesis unfolding step by simp
  next
    case True
    let ?x = "fst (seg_at kmem (seg i)) + of_nat k"
    have k: "unat (of_nat k :: u64) = k"
      using j(4) unat_u64_less [of "p_memsz (seg j)"] by (intro unat_of_nat_small) linarith
    have "outside [seg_at kmem (seg l)] ?x" if "Suc i \<le> l" "l < Suc i + n" "p_type (seg l) = PT_LOAD" for l
    proof -
      have "apart (seg_at kmem (seg i)) (seg_at kmem (seg l))" using L' i Suc.prems(1) True j(3) that by auto
      moreover have "unat (?x - fst (seg_at kmem (seg i))) < snd (seg_at kmem (seg i))"
        using j(4) k True by (simp add: seg_at_def)
      ultimately have "snd (seg_at kmem (seg l)) \<le> unat (?x - fst (seg_at kmem (seg l)))"
        unfolding apart_def by blast
      then show ?thesis by (cases "seg_at kmem (seg l)") simp
    qed
    then have "load_loop n kmem kfile ph (Suc i) m1 ?x = m1 ?x" using IH by blast
    then show ?thesis using m1 [of ?x] same j(3,4) k True unfolding step by (simp add: seg_at_def)
  qed
  moreover have "load_loop (Suc n) kmem kfile ph i m x = m x"
    if x: "\<forall>j. i \<le> j \<longrightarrow> j < i + Suc n \<longrightarrow> p_type (seg j) = PT_LOAD \<longrightarrow> outside [seg_at kmem (seg j)] x" for x
  proof -
    have "load_loop n kmem kfile ph (Suc i) m1 x = m1 x" using IH x by (metis Suc_leD add_Suc_right add_Suc)
    moreover have "m1 x = m x" using x [rule_format, of i] by (auto simp: m1 outside_def)
    ultimately show ?thesis unfolding step by simp
  qed
  ultimately show ?case by blast
qed

text \<open>What \<^verbatim>\<open>boot\<close> finds out about the extent of the kernel.\<close>

lemma span_loop_bounds:
  assumes "span_loop n m ph i (high, lowest) = (high', lowest')"
  shows "high \<le> high' \<and> lowest' \<le> lowest \<and>
    (\<forall>j. i \<le> j \<longrightarrow> j < i + n \<longrightarrow> p_type (elf_pheader_at m ph j) = PT_LOAD \<longrightarrow>
       p_vaddr (elf_pheader_at m ph j) + p_memsz (elf_pheader_at m ph j) \<le> high' \<and>
       lowest' \<le> p_vaddr (elf_pheader_at m ph j))"
  using assms
proof (induction n arbitrary: i high lowest)
  case 0
  then show ?case by simp
next
  case (Suc n)
  let ?h = "elf_pheader_at m ph i"
  let ?e = "p_vaddr ?h + p_memsz ?h"
  define r where "r = (if p_type ?h = PT_LOAD
      then (if ?e > high then ?e else high, if p_vaddr ?h < lowest then p_vaddr ?h else lowest) else (high, lowest))"
  have run: "span_loop n m ph (Suc i) (fst r, snd r) = (high', lowest')"
    using Suc.prems by (simp add: Let_def r_def split: if_splits)
  have r: "high \<le> fst r \<and> snd r \<le> lowest \<and> (p_type ?h = PT_LOAD \<longrightarrow> ?e \<le> fst r \<and> snd r \<le> p_vaddr ?h)"
    by (auto simp: r_def)
  note IH = Suc.IH [OF run]
  have "p_vaddr (elf_pheader_at m ph j) + p_memsz (elf_pheader_at m ph j) \<le> high' \<and> lowest' \<le> p_vaddr (elf_pheader_at m ph j)"
    if j: "i \<le> j" "j < i + Suc n" "p_type (elf_pheader_at m ph j) = PT_LOAD" for j
  proof (cases "j = i")
    case True
    with j(3) r IH show ?thesis by (blast intro: order_trans)
  next
    case False
    with j IH show ?thesis by simp
  qed
  moreover have "high \<le> high' \<and> lowest' \<le> lowest" using r IH by (blast intro: order_trans)
  ultimately show ?case by blast
qed

text \<open>
  C26: When the firmware has memory for it, the kernel's segments are loaded: every byte of a loadable
  segment is at its place relative to the link address 0x1000000000, the file's contents followed by
  zeros. When the kernel's lowest segment starts at that address, nothing outside the pages asked
  for is written.
\<close>

theorem boot_load_places:
  assumes "f = elf_fheader_at (ram s) kfile" and "seg = elf_pheader_at (ram s) (kfile + e_phoff f)"
    and "kernel_span (ram s) (kfile + e_phoff f) (e_phnum f) = (high, lowest)"
    and "pagealloc fw (CEILING (high - lowest) PAGE_SIZE) (pages s) = Some (kmem, u)"
    and "loadable (ram s) kfile flen kmem"
  shows "\<exists>info' s'. boot_load fw kfile info s = Some (info', s') \<and> b_k_paddr info' = kmem \<and> b_k_size info' = high - lowest \<and>
    (\<forall>i < unat (e_phnum f). p_type (seg i) = PT_LOAD \<longrightarrow> (\<forall>k < unat (p_memsz (seg i)).
       ram s' (kmem + (p_vaddr (seg i) - boot_kernel_vaddr) + of_nat k) =
         (if k < unat (p_filesz (seg i)) then ram s (kfile + p_offset (seg i) + of_nat k) else 0))) \<and>
    (lowest = boot_kernel_vaddr \<longrightarrow> (\<forall>x. unat (high - lowest) \<le> unat (x - kmem) \<longrightarrow> ram s' x = ram s x))"
proof -
  let ?n = "unat (e_phnum f)" and ?ph = "kfile + e_phoff f"
  let ?m = "load_loop ?n kmem kfile ?ph 0 (ram s)"
  have run: "boot_load fw kfile info s = Some (info\<lparr>b_k_paddr := kmem, b_k_vaddr := boot_kernel_vaddr, b_k_size := high - lowest\<rparr>,
      s\<lparr>ram := ?m, pages := u\<rparr>)"
    using assms(3,4) by (simp add: boot_load_def assms(1) [symmetric] Let_def)
  note L = load_loop_apply [OF assms(5,1) refl assms(2), of 0 ?n "ram s"]
  have put: "?m (kmem + (p_vaddr (seg i) - boot_kernel_vaddr) + of_nat k) =
      (if k < unat (p_filesz (seg i)) then ram s (kfile + p_offset (seg i) + of_nat k) else 0)"
    if "i < ?n" "p_type (seg i) = PT_LOAD" "k < unat (p_memsz (seg i))" for i k
    using L that by (simp add: seg_at_def seg_byte_def)
  have "?m x = ram s x" if low: "lowest = boot_kernel_vaddr" and x: "unat (high - lowest) \<le> unat (x - kmem)" for x
  proof -
    have "outside [seg_at kmem (seg j)] x" if j: "j < ?n" "p_type (seg j) = PT_LOAD" for j
    proof (rule ccontr)
      assume "\<not> ?thesis"
      then have k: "unat (x - (kmem + (p_vaddr (seg j) - lowest))) < unat (p_memsz (seg j))" by (simp add: seg_at_def low)
      define k where "k = unat (x - (kmem + (p_vaddr (seg j) - lowest)))"
      have b: "p_vaddr (seg j) + p_memsz (seg j) \<le> high" "lowest \<le> p_vaddr (seg j)"
        using span_loop_bounds [of ?n "ram s" ?ph 0 0 "- 1" high lowest] assms(2,3) j by (auto simp: kernel_span_def)
      have w: "unat (p_vaddr (seg j)) + unat (p_memsz (seg j)) < 2 ^ 64"
        using assms(5) j by (auto simp: loadable_def Let_def assms(1,2))
      have xk: "x - kmem = (p_vaddr (seg j) - lowest) + of_nat k" by (simp add: k_def)
      have "unat (p_vaddr (seg j) - lowest) = unat (p_vaddr (seg j)) - unat lowest" using b(2) by (simp add: unat_sub)
      moreover have "unat lowest \<le> unat (p_vaddr (seg j))" using b(2) by (simp add: word_le_nat_alt)
      moreover have h: "unat (p_vaddr (seg j)) + unat (p_memsz (seg j)) \<le> unat high"
        using b(1) w by (simp add: word_le_nat_alt unat_word_ariths)
      moreover have "k < unat (p_memsz (seg j))" using k by (simp add: k_def)
      ultimately have "unat (x - kmem) < unat high - unat lowest"
        unfolding xk using w by (simp add: unat_word_ariths)
      moreover have "unat (high - lowest) = unat high - unat lowest"
        using h \<open>unat lowest \<le> unat (p_vaddr (seg j))\<close> by (intro unat_sub) (simp add: word_le_nat_alt)
      ultimately show False using x by simp
    qed
    then show ?thesis using L by simp
  qed
  with run put show ?thesis by simp
qed

section \<open>The free map\<close>

definition free_descs :: "mem \<Rightarrow> u64 \<Rightarrow> nat \<Rightarrow> nat \<Rightarrow> nat list" where
  "free_descs m memmap i n = filter (\<lambda>j. mm_type (memmap_at m memmap (of_nat j)) = normalmem) [i..<i + n]"

lemma free_descs_Suc:
  "free_descs m memmap i (Suc n) =
     (if mm_type (memmap_at m memmap (of_nat i)) = normalmem then i # free_descs m memmap (Suc i) n
      else free_descs m memmap (Suc i) n)"
  by (simp add: free_descs_def upt_conv_Cons del: upt_Suc)

lemma count_free_length:
  "count_free n memmap m (of_nat i) c = c + of_nat (length (free_descs m memmap i n))"
proof (induction n arbitrary: i c)
  case 0
  then show ?case by (simp add: free_descs_def)
next
  case (Suc n)
  from Suc.IH [of "Suc i"] show ?case by (simp add: free_descs_Suc add.commute add.left_commute)
qed

lemma memmap_at_cong:
  assumes "\<And>x. unat (x - memmap) < 40 * N \<Longrightarrow> m' x = m x" and "40 * N < 2 ^ 64" and "i < N"
  shows "memmap_at m' memmap (of_nat i) = memmap_at m memmap (of_nat i)"
proof -
  have L: "load_le m' (memmap + of_nat (40 * i + d)) k = (load_le m (memmap + of_nat (40 * i + d)) k :: 'b::len word)"
    if "d + k \<le> 40" for d k
    using assms(3) that by (intro load_le_region [OF assms(1) _ assms(2)]) linarith+
  show ?thesis
    using L [of 0 4] L [of 8 8] L [of 16 8] L [of 24 8] L [of 32 8]
    by (simp add: memmap_at_def memmap_size_def Let_def add.assoc)
qed

lemma store64_at:
  assumes "off + 8 \<le> n" and "n < 2 ^ 64"
  shows "store64 m (b + of_nat off) v x =
    (if off \<le> unat (x - b) \<and> unat (x - b) < off + 8 then ucast (drop_bit (8 * unat (x - (b + of_nat off))) v) else m x)"
  using in_tail [of off "off + 8" x b] assms by (auto simp: store_le_def)

lemma store_entry:
  fixes b v w :: u64 and m :: mem
  assumes "16 * j + 16 < 2 ^ 64"
  defines "m' \<equiv> store64 (store64 m (b + of_nat (16 * j)) v) (b + of_nat (16 * j + 8)) w"
  shows "load64 m' (b + of_nat (16 * j)) = v" and "load64 m' (b + of_nat (16 * j + 8)) = w"
    and "unat (x - b) < 16 * j \<or> 16 * j + 16 \<le> unat (x - b) \<Longrightarrow> m' x = m x"
proof -
  show "load64 m' (b + of_nat (16 * j + 8)) = w" by (simp add: m'_def)
  have "m' (b + of_nat (16 * j) + of_nat k) = store64 m (b + of_nat (16 * j)) v (b + of_nat (16 * j) + of_nat k)" if "k < 8" for k
  proof -
    have "unat (b + of_nat (16 * j) + of_nat k - b) = 16 * j + k"
      using unat_of_nat_small [of "16 * j + k"] assms(1) that by (simp add: add.assoc)
    then show ?thesis unfolding m'_def using assms(1) that by (subst store64_at [where n = "16 * j + 16"]) auto
  qed
  then show "load64 m' (b + of_nat (16 * j)) = v"
    using load_le_cong [of 8 m' "b + of_nat (16 * j)" "store64 m (b + of_nat (16 * j)) v", where 'a = 64] by simp
  show "unat (x - b) < 16 * j \<or> 16 * j + 16 \<le> unat (x - b) \<Longrightarrow> m' x = m x"
    unfolding m'_def using assms(1)
      store64_at [of "16 * j" "16 * j + 16" m b v x]
      store64_at [of "16 * j + 8" "16 * j + 16" "store64 m (b + of_nat (16 * j)) v" b w x] by auto
qed

lemma fill_freemap_apply:
  assumes "40 * N < 2 ^ 64" and "16 * J < 2 ^ 64" and "apart (memmap, 40 * N) (fmap, 16 * J)" and "i + n \<le> N"
    and "\<And>x. unat (x - memmap) < 40 * N \<Longrightarrow> m x = m0 x" and "j + length (free_descs m0 memmap i n) \<le> J"
  shows "(\<forall>k < length (free_descs m0 memmap i n).
      load64 (fill_freemap n memmap fmap (of_nat i) (of_nat j) m) (fmap + of_nat (16 * (j + k))) =
        mm_physaddr (memmap_at m0 memmap (of_nat (free_descs m0 memmap i n ! k))) \<and>
      load64 (fill_freemap n memmap fmap (of_nat i) (of_nat j) m) (fmap + of_nat (16 * (j + k) + 8)) =
        mm_pages (memmap_at m0 memmap (of_nat (free_descs m0 memmap i n ! k)))) \<and>
    (\<forall>x. unat (x - fmap) < 16 * j \<or> 16 * (j + length (free_descs m0 memmap i n)) \<le> unat (x - fmap) \<longrightarrow>
      fill_freemap n memmap fmap (of_nat i) (of_nat j) m x = m x)"
  using assms(4-6)
proof (induction n arbitrary: i j m)
  case 0
  then show ?case by (simp add: free_descs_def)
next
  case (Suc n)
  let ?d = "memmap_at m0 memmap (of_nat i)"
  have d: "memmap_at m memmap (of_nat i) = ?d"
    using Suc.prems(1) by (intro memmap_at_cong [OF Suc.prems(2) assms(1)]) simp_all
  show ?case
  proof (cases "mm_type ?d = normalmem")
    case False
    then have "fill_freemap (Suc n) memmap fmap (of_nat i) (of_nat j) m = fill_freemap n memmap fmap (of_nat (Suc i)) (of_nat j) m"
      by (simp add: d add.commute)
    with Suc.IH [of "Suc i" m j] Suc.prems False show ?thesis by (simp add: free_descs_Suc del: fill_freemap.simps)
  next
    case True
    let ?fs = "free_descs m0 memmap (Suc i) n"
    let ?m = "store64 (store64 m (fmap + of_nat (16 * j)) (mm_physaddr ?d)) (fmap + of_nat (16 * j + 8)) (mm_pages ?d)"
    have J: "Suc j + length ?fs \<le> J" using Suc.prems(3) True by (simp add: free_descs_Suc)
    have j: "16 * j + 16 < 2 ^ 64" using J assms(2) by simp
    have far: "16 * j + 16 \<le> unat (x - fmap)" if "unat (x - memmap) < 40 * N" for x
    proof -
      have "16 * J \<le> unat (x - fmap)" using assms(3) that by (simp add: apart_def)
      with J show ?thesis by simp
    qed
    have d': "memmap_at (store64 m (fmap + of_nat (16 * j)) (mm_physaddr ?d)) memmap (of_nat i) = ?d"
    proof (rule memmap_at_cong [OF _ assms(1)])
      fix x assume x: "unat (x - memmap) < 40 * N"
      then show "store64 m (fmap + of_nat (16 * j)) (mm_physaddr ?d) x = m0 x"
        using far [OF x] Suc.prems(2) [OF x] j by (subst store64_at [where n = "16 * j + 16"]) auto
    qed (use Suc.prems(1) in simp)
    have run: "fill_freemap (Suc n) memmap fmap (of_nat i) (of_nat j) m =
        fill_freemap n memmap fmap (of_nat (Suc i)) (of_nat (Suc j)) ?m"
      using True d d' by (simp add: memory_size_def Let_def algebra_simps)
    note E = store_entry [OF j, where m = m and b = fmap and v = "mm_physaddr ?d" and w = "mm_pages ?d"]
    have keep: "?m x = m0 x" if "unat (x - memmap) < 40 * N" for x
      using E(3) [of x] far [OF that] Suc.prems(2) [OF that] by simp
    have i: "Suc i + n \<le> N" using Suc.prems(1) by simp
    note IH = Suc.IH [OF i keep J]
    let ?m' = "fill_freemap n memmap fmap (of_nat (Suc i)) (of_nat (Suc j)) ?m"
    have same: "?m' x = ?m x" if "unat (x - fmap) < 16 * Suc j" for x
      using IH that by blast
    have "16 * j + 8 \<le> 16 * Suc j" "16 * j + 8 + 8 \<le> 16 * Suc j" "16 * Suc j < 2 ^ 64" using j by simp_all
    note L = load_le_region [OF same this(1,3), where 'b = 64] load_le_region [OF same this(2,3), where 'b = 64]
    have first: "load64 ?m' (fmap + of_nat (16 * j)) = mm_physaddr ?d \<and> load64 ?m' (fmap + of_nat (16 * j + 8)) = mm_pages ?d"
      by (simp only: L E(1,2))
    have "load64 ?m' (fmap + of_nat (16 * (j + k))) = mm_physaddr (memmap_at m0 memmap (of_nat ((i # ?fs) ! k))) \<and>
        load64 ?m' (fmap + of_nat (16 * (j + k) + 8)) = mm_pages (memmap_at m0 memmap (of_nat ((i # ?fs) ! k)))"
      if "k < length (i # ?fs)" for k
    proof (cases k)
      case 0
      with first show ?thesis by (simp only: add_0_right nth_Cons_0)
    next
      case (Suc l)
      with that have "l < length ?fs" by simp
      then have "load64 ?m' (fmap + of_nat (16 * (Suc j + l))) = mm_physaddr (memmap_at m0 memmap (of_nat (?fs ! l))) \<and>
          load64 ?m' (fmap + of_nat (16 * (Suc j + l) + 8)) = mm_pages (memmap_at m0 memmap (of_nat (?fs ! l)))"
        using IH by blast
      then show ?thesis by (simp only: Suc nth_Cons_Suc add_Suc add_Suc_right)
    qed
    moreover have "?m' x = m x"
      if "unat (x - fmap) < 16 * j \<or> 16 * (j + length (i # ?fs)) \<le> unat (x - fmap)" for x
    proof -
      have "unat (x - fmap) < 16 * Suc j \<or> 16 * (Suc j + length ?fs) \<le> unat (x - fmap)"
        and near: "unat (x - fmap) < 16 * j \<or> 16 * j + 16 \<le> unat (x - fmap)" using that by auto
      then have "?m' x = ?m x" using IH by blast
      also have "\<dots> = m x" by (rule E(3) [OF near])
      finally show ?thesis .
    qed
    ultimately show ?thesis unfolding run free_descs_Suc if_P [OF True] by blast
  qed
qed


section \<open>Mapping the kernel\<close>

lemma map_kernel_run:
  assumes "\<And>k. 0 < k \<Longrightarrow> k \<le> n \<Longrightarrow> b + of_nat k * PAGE_SIZE < ksize" and "\<not> b + of_nat (Suc n) * PAGE_SIZE < ksize"
  shows "map_kernel fw fuel ksize a b s = boot_map_run (pagealloc fw 1) fuel (Suc n) a (boot_kernel_vaddr + b) s"
  using assms
proof (induction n arbitrary: a b s)
  case 0
  then show ?case by (subst map_kernel.simps) (simp split: option.split)
next
  case (Suc n)
  have nxt: "x + PAGE_SIZE + of_nat k * PAGE_SIZE = x + of_nat (Suc k) * PAGE_SIZE" for x k
    by (simp add: algebra_simps)
  have first: "b + PAGE_SIZE < ksize" using Suc.prems(1) [of 1] by simp
  have "map_kernel fw fuel ksize (a + PAGE_SIZE) (b + PAGE_SIZE) t =
      boot_map_run (pagealloc fw 1) fuel (Suc n) (a + PAGE_SIZE) (boot_kernel_vaddr + (b + PAGE_SIZE)) t" for t
    using Suc.prems by (intro Suc.IH) (simp_all add: nxt del: of_nat_Suc)
  then show ?case
    by (subst map_kernel.simps) (simp add: first add.assoc [symmetric] split: option.split del: boot_map_run.simps(2), simp add: add.assoc split: option.split)
qed

lemma bit_36: "w < boot_kernel_vaddr \<Longrightarrow> \<not> bit w 36"
  "boot_kernel_vaddr \<le> x \<Longrightarrow> unat x < 2 ^ 37 \<Longrightarrow> bit x 36"
proof -
  have b: "bit w 36 \<longleftrightarrow> odd (unat w div 2 ^ 36)" for w :: u64
    using bit_unsigned_iff [of w 36, where 'a = nat] by (simp add: bit_iff_odd)
  show "w < boot_kernel_vaddr \<Longrightarrow> \<not> bit w 36" by (simp add: b boot_kernel_vaddr_def word_less_nat_alt)
  assume "boot_kernel_vaddr \<le> x" "unat x < 2 ^ 37"
  then have "2 ^ 36 \<le> unat x" "unat x < 2 ^ 37" by (simp_all add: boot_kernel_vaddr_def word_le_nat_alt)
  then have "unat x div 2 ^ 36 = 1" by (intro div_nat_eqI) simp_all
  then show "bit x 36" unfolding b by simp
qed

lemma low_not_kernel:
  assumes "w < boot_kernel_vaddr" and "boot_kernel_vaddr \<le> x" and "unat x < 2 ^ 37"
  shows "\<not> same_page w x"
proof
  assume "same_page w x"
  then have "table_idx 30 w = table_idx 30 x" by (simp add: same_page_def vpath_def)
  then show False using bit_table_idx [of 6 30 w] bit_table_idx [of 6 30 x] bit_36 assms by simp
qed


section \<open>Examples\<close>

text \<open>A firmware that gives single pages, and an image with one segment of two bytes of four.\<close>

definition demo_fw :: "phys uefi" where
  "demo_fw = \<lparr>pagealloc = \<lambda>_. phys_page_alloc, getmemmap = \<lambda>n buf m u. (n, 0, 40, m, u), maxmode = 2,
     querymode = (\<lambda>i. \<lparr>gop_w = 640 + ucast i, gop_h = 480, gop_pixperline = 640, gop_fb = 0xE0000000, gop_fbsize = 0x300000\<rparr>),
     efi_runtime = 0\<rparr>"

definition demo_elf :: mem where
  "demo_elf = (\<lambda>x. if x = 0x100020 then 64 else if x = 0x100038 then 1 else if x = 0x100040 then 1
     else if x = 0x100048 then 120 else if x = 0x100054 then 0x10 else if x = 0x100060 then 2
     else if x = 0x100068 then 4 else if x = 0x100078 then 0xAA else if x = 0x100079 then 0xBB
     else if x = 0x3000 then 7 else if x = 0x3009 then 0x50 else if x = 0x3018 then 3 else 0)"

lemma demo_header:
  "elf_fheader_at demo_elf 0x100000 = \<lparr>elf_sig = 0, e_entry = 0, e_phoff = 64, e_phnum = 1\<rparr>"
  by code_simp

lemma demo_segment:
  "elf_pheader_at demo_elf 0x100040 0 = \<lparr>p_type = 1, p_offset = 120, p_vaddr = 0x1000000000, p_filesz = 2, p_memsz = 4\<rparr>"
  by code_simp

theorem best_mode_largest_witness: "best_mode demo_fw = 1"
proof -
  have b: "mode_size (querymode demo_fw) 1 \<le> mode_size (querymode demo_fw) (unat (best_mode demo_fw))"
    "unat (best_mode demo_fw) < 2"
    using best_mode_largest [of demo_fw] by (auto simp: demo_fw_def word_less_nat_alt)
  have "mode_size (querymode demo_fw) 0 = 1120" "mode_size (querymode demo_fw) 1 = 1121"
    by (simp_all add: mode_size_def demo_fw_def)
  with b have "unat (best_mode demo_fw) = 1" by (cases "unat (best_mode demo_fw) = 0") auto
  then show ?thesis by (simp add: word_unat_eq_iff)
qed

lemma demo_loadable: "loadable demo_elf 0x100000 122 0x2000"
  unfolding loadable_def by (simp add: demo_header demo_segment PT_LOAD_def Let_def seg_at_def boot_kernel_vaddr_def)
   (rule apart_sym [THEN iffD1], rule apart_sym [THEN iffD1], rule apart_ranges, simp_all)

definition demo_boot :: "phys vm" where
  "demo_boot = \<lparr>ram = demo_elf, pml4 = 0x80000, pages = small_phys 1\<rparr>"

definition demo_info :: bootinfo_t where
  "demo_info = \<lparr>b_memmap = 0x3000, b_mm_descs = 2, b_freemap = 0, b_fm_descs = 0, b_k_paddr = 0, b_k_vaddr = 0,
     b_k_size = 0, b_k_stack_paddr = 0, b_mb_addr = 0, b_mb_pages = 0, b_efi_rs = 0, b_fb_addr = 0, b_fb_size = 0,
     b_fb_w = 0, b_fb_h = 0, b_fb_pixperline = 0\<rparr>"

theorem boot_load_places_witness:
  "\<exists>info' s'. boot_load demo_fw 0x100000 demo_info demo_boot = Some (info', s') \<and> ram s' 0x2001 = 0xBB \<and> ram s' 0x2003 = 0"
proof -
  let ?f = "\<lparr>elf_sig = 0, e_entry = 0, e_phoff = 64, e_phnum = 1\<rparr>"
  have "kernel_span demo_elf 0x100040 1 = (0x1000000004, boot_kernel_vaddr)"
    by (simp add: kernel_span_def demo_segment PT_LOAD_def boot_kernel_vaddr_def)
  then have span: "kernel_span (ram demo_boot) (0x100000 + e_phoff ?f) (e_phnum ?f) = (0x1000000004, boot_kernel_vaddr)"
    by (simp add: demo_boot_def)
  have f: "?f = elf_fheader_at (ram demo_boot) 0x100000" by (simp add: demo_boot_def demo_header)
  have al: "pagealloc demo_fw (CEILING (0x1000000004 - boot_kernel_vaddr) PAGE_SIZE) (pages demo_boot) = Some (0x2000, small_phys 3)"
    by (simp add: demo_fw_def demo_boot_def small_allocs)
  have l: "loadable (ram demo_boot) 0x100000 122 0x2000" using demo_loadable by (simp add: demo_boot_def)
  have seg: "elf_pheader_at (ram demo_boot) (0x100000 + e_phoff ?f) 0 =
      \<lparr>p_type = 1, p_offset = 120, p_vaddr = 0x1000000000, p_filesz = 2, p_memsz = 4\<rparr>"
    by (simp add: demo_boot_def demo_segment)
  obtain info' s' where r: "boot_load demo_fw 0x100000 demo_info demo_boot = Some (info', s')"
    "\<forall>k < 4. ram s' (0x2000 + of_nat k) = (if k < 2 then demo_elf (0x100078 + of_nat k) else 0)"
    using boot_load_places [OF f refl span al l, of demo_info] seg
    by (auto simp: PT_LOAD_def boot_kernel_vaddr_def demo_boot_def)
  from r(2) [rule_format, of 1] r(2) [rule_format, of 3] r(1) show ?thesis by (simp add: demo_elf_def)
qed



end
