(* ===== verification/Spec2Isabelle.thy ===== *)
theory Spec2Isabelle
  imports HeapPages KInit Syscall FSTyped Tga Boot
begin

text \<open>
  FlameOS: a verification library for the boot loader and the kernel.

  FlameOS is a small 64-bit kernel with its own UEFI boot loader. The boot loader (\<^verbatim>\<open>boot.c\<close>) reads the
  firmware's memory map, loads the kernel's ELF image, builds page tables and enters the kernel with a
  \<^verbatim>\<open>bootinfo_t\<close>. The kernel's \<^verbatim>\<open>init\<close> copies it to globals, loads the segment descriptors, builds the
  kernel's own page tables and heap, installs the interrupt gates, starts the timer and runs a test of
  the heap, the log and the screen. A disk driver, a FAT32 reader with a file layer and a picture
  loader are built on the heap and the port accesses; all of it uses a small C library.

  \<^bold>\<open>Foundations.\<close>
  \<^item> \<open>Prelude\<close>: word types, byte memory (\<open>mem\<close>: addresses to bytes) with little-endian loads and
    stores, searching loops (\<open>scan\<close>), page alignment.
  \<^item> \<open>LibC\<close>: \<^verbatim>\<open>libs/libc\<close> over byte memory, and \<^verbatim>\<open>abs\<close>. Loops that run to a terminator may not end and
    are partial functions. Copies and fills are exact and change nothing else, \<^verbatim>\<open>itoa\<close> prints a text
    that reads back as the number, \<^verbatim>\<open>memcmp\<close> sees one byte only.
  \<^item> \<open>PortIO\<close>: port and register accesses (\<^verbatim>\<open>cpu/IO.c\<close>) as a trace of events against a device
    parameter: what a read returns depends on the accesses so far. The interrupt controllers' driver
    against the documented behaviour of the 8259A.

  \<^bold>\<open>Memory.\<close>
  \<^item> \<open>PhysMem\<close>: \<^verbatim>\<open>phys_page_alloc\<close> and \<^verbatim>\<open>phys_page_free\<close> of \<^verbatim>\<open>kernel/memory/memory.c\<close>. The free map and
    the bitmap are the arrays the globals point to; reading past them is an error (\<^term>\<open>None\<close>). The
    loops refine a set of available pages. The locales \<open>page_supply\<close> and \<open>page_source\<close> state what
    the paging code needs of a supplier of pages.
  \<^item> \<open>Paging\<close>, \<open>PageWalk\<close>: \<^verbatim>\<open>map_page\<close> and \<^verbatim>\<open>find_physaddr\<close> of \<^verbatim>\<open>memory/paging.c\<close> over page tables in
    byte memory. \<^verbatim>\<open>map_page\<close> calls itself for every table it allocates; the recursion is given fuel
    (the number of pages of the free map plus four) that is proved to be always enough. What is mapped
    is found, and nothing else changes but identity mappings of new tables.
  \<^item> \<open>Heap\<close>, \<open>HeapPages\<close>: the heap operations of \<^verbatim>\<open>memory.c\<close> on their two tables and on the pages
    behind them. The locale \<open>allocator\<close> states what a client may rely on and is interpreted for the
    kernel and the user heap; the reachable states form an inductive relation, in which live blocks
    never overlap.
  \<^item> \<open>KernelInit\<close>: \<^verbatim>\<open>init_globals\<close>, \<^verbatim>\<open>init_paging\<close>, \<^verbatim>\<open>init_memory\<close>, and where they leave the tables.

  \<^bold>\<open>Processor and log.\<close>
  \<^item> \<open>Log\<close>: \<^verbatim>\<open>debug_log\<close>, \<^verbatim>\<open>error\<close> and \<^verbatim>\<open>memdump\<close>, refined to a rendering of the format.
  \<^item> \<open>Cpu\<close>: \<^verbatim>\<open>GDT.c\<close>, \<^verbatim>\<open>IDT.c\<close> with its fault handlers, \<^verbatim>\<open>PIT.c\<close> and \<^verbatim>\<open>init_syscall\<close>.
  \<^item> \<open>Syscall\<close>: the inline assembly of \<^verbatim>\<open>sys_handler\<close> and \<^verbatim>\<open>enter_userspace\<close>, instruction by
    instruction over the registers, with the processor's \<^verbatim>\<open>syscall\<close> and \<^verbatim>\<open>sysretq\<close>.
  \<^item> \<open>KInit\<close>: the kernel's \<^verbatim>\<open>init\<close>, composed of the above. It returns to its endless loop with a known
    serial output and picture.

  \<^bold>\<open>Disk and files.\<close>
  \<^item> \<open>Disk\<close>: reading and writing sectors (\<^verbatim>\<open>kernel/disk/PIO.c\<close>) as port traces; a drive is specified by
    the LBA48 register protocol that it decodes from the trace.
  \<^item> \<open>FileTypes\<close>: handles, drives, partitions, volumes and the on-disk structures of \<^verbatim>\<open>FAT.h\<close>; the
    locale \<open>sector_source\<close> (a read fills the buffer with the sectors' bytes) and its instance
    \<open>drives\<close>, drives that follow the protocol. Requests to a heap in which nothing has been freed.
  \<^item> \<open>FAT\<close>, \<open>FATRead\<close>: \<^verbatim>\<open>kernel/fs/FAT.c\<close>. A volume is mounted with the fields of its boot record, a path
    of short names finds its directory entry, and a read gives the bytes along the chain of clusters.
  \<^item> \<open>FS\<close>, \<open>FSOpen\<close>, \<open>FSTyped\<close>: \<^verbatim>\<open>kernel/fs/FS.c\<close>. Opening splits the path and sets the size, reading
    after it gives the file's bytes, seeking stays in the file; in every state the operations can reach
    the tables are well formed.
  \<^item> \<open>DiskInit\<close>: \<^verbatim>\<open>init_disk\<close>, which reads the partition tables and gives out volume letters.

  \<^bold>\<open>Drawing.\<close>
  \<^item> \<open>Gfx\<close>: \<^verbatim>\<open>plotpixel\<close>, \<^verbatim>\<open>fillrect\<close> and \<^verbatim>\<open>plotimg\<close> of \<^verbatim>\<open>libs/libgfx\<close> on the frame buffer; the last two are
    equivalent to drawing pixel by pixel.
  \<^item> \<open>Tga\<close>: \<^verbatim>\<open>tga_plot\<close>, from a file on a drive to the screen.

  \<^bold>\<open>Boot loader.\<close>
  \<^item> \<open>BootPaging\<close>: its \<^verbatim>\<open>map_page\<close>. Any fuel above the number of tables that are still missing is enough,
    and so are that many pages of the firmware.
  \<^item> \<open>Boot\<close>: the memory map, the graphics mode, the ELF image, the free map, the page tables, and
    \<^verbatim>\<open>boot\<close>, which composes them. Its result is the state in which the kernel is entered.

  \<^bold>\<open>Conventions.\<close> C integers are words of their width and wrap; signed overflow, a shift by the width
  or more and a read of an unset variable are \<^term>\<open>None\<close>. An operation that may fail to
  return, or that reads outside an object the model knows the size of, has an option result; a
  theorem that such an operation behaves also says that it returns. The tables of the heap, the
  free map, the bitmap, the drives and the open files are kept as records and lists beside byte
  memory, so a write through a stray pointer into one of them is not represented; \<open>KernelInit\<close> shows
  that the kernel does hand out such a pointer. The pointer \<^verbatim>\<open>fsdata\<close> of a partition is kept as the
  structure it points to. Addresses that the compiler or the linker chooses (local arrays, string
  literals, tables, handlers) and what \<^verbatim>\<open>malloc\<close> leaves in a new table are arguments. An \<^verbatim>\<open>int\<close>
  passed to \<^verbatim>\<open>debug_log\<close>, which reads 64 bits, arrives zero-extended, as 32-bit moves of the processor
  leave it. The memory that the kernel's pointers see after it loads its own page tables is an
  argument of \<^verbatim>\<open>init\<close>. The firmware's services are a record of functions.

  \<^bold>\<open>Not modelled.\<close> The assembly files (\<^verbatim>\<open>load_pml4\<close>, \<^verbatim>\<open>flushregs\<close>, the interrupt entry points): processor
  state outside the C program; \<^verbatim>\<open>load_pml4\<close> appears as the value loaded into CR3. The floating-point
  routines of \<^verbatim>\<open>libs/libm\<close>: there is no model of IEEE arithmetic here. \<^verbatim>\<open>uefi.h\<close> declares the
  firmware's interface, whose behaviour is a parameter. The terminal is an empty function.
  Interrupts are not interleaved with the code they interrupt. Structures that no code uses (the
  section headers of \<^verbatim>\<open>ELF.h\<close>, \<^verbatim>\<open>fsinfo\<close> of \<^verbatim>\<open>FAT.h\<close>, the runtime services of \<^verbatim>\<open>init.h\<close>).
\<close>

end
